theory Spec2Isabelle
  imports Main
begin

section \<open>Sliding brick puzzle: boards, moves and search nodes\<close>

text \<open>
  The C program keeps the board dimensions and the highest block number in the
  globals \<open>board_height\<close>, \<open>board_width\<close> and \<open>max_block_num\<close>; every
  function reads them.  Here they travel in a record.  A board (\<open>int **\<close>: an array of
  row arrays) is a list of rows.  C \<open>int\<close>s are modelled as unbounded integers: labels
  and path costs stay far below \<open>2 ^ 31\<close> on every board the loader can hold.
\<close>

record game =
  board_height :: nat
  board_width :: nat
  max_block_num :: int

type_synonym board = "int list list"

datatype Move_Direction = UP | DOWN | LEFT | RIGHT

record MOVE =
  block_num :: int
  direction :: Move_Direction

datatype STATE_NODE =
  Node (path_cost: int) (board_state: board) (move_from_parent: "MOVE option")
       (parent: "STATE_NODE option")

definition wf_board :: "game \<Rightarrow> board \<Rightarrow> bool" where
  "wf_board g b \<longleftrightarrow>
     length b = board_height g \<and> (\<forall>r \<in> set b. length r = board_width g)"

text \<open>\<open>input_state[i][j]\<close>\<close>

definition cell :: "board \<Rightarrow> nat \<Rightarrow> nat \<Rightarrow> int" where
  "cell b i j = b ! i ! j"

text \<open>The positions visited by the nested loops
  \<open>for (i = 0; i < board_height; i++) for (j = 0; j < board_width; j++)\<close>, in order.\<close>

definition positions :: "game \<Rightarrow> (nat \<times> nat) list" where
  "positions g = List.product [0..<board_height g] [0..<board_width g]"

text \<open>The cell values those loops read, in the same order.\<close>

definition scan :: "game \<Rightarrow> board \<Rightarrow> int list" where
  "scan g b = map (\<lambda>(i, j). cell b i j) (positions g)"

text \<open>The board as those loops read it, row by row.\<close>

definition rows :: "game \<Rightarrow> board \<Rightarrow> board" where
  "rows g b = map (\<lambda>i. map (\<lambda>j. cell b i j) [0..<board_width g]) [0..<board_height g]"

subsection \<open>checkGameComplete\<close>

definition checkGameComplete :: "game \<Rightarrow> board \<Rightarrow> bool" where
  "checkGameComplete g b \<longleftrightarrow> list_all (\<lambda>c. c \<noteq> - 1) (scan g b)"

text \<open>The neighbouring position in a direction, \<open>None\<close> when it is off the grid.\<close>

fun neighbour :: "game \<Rightarrow> Move_Direction \<Rightarrow> nat \<times> nat \<Rightarrow> (nat \<times> nat) option" where
  "neighbour g UP (i, j) = (if 0 < i then Some (i - 1, j) else None)"
| "neighbour g DOWN (i, j) = (if i + 1 < board_height g then Some (i + 1, j) else None)"
| "neighbour g LEFT (i, j) = (if 0 < j then Some (i, j - 1) else None)"
| "neighbour g RIGHT (i, j) = (if j + 1 < board_width g then Some (i, j + 1) else None)"

section \<open>The move generator\<close>

text \<open>The test that a neighbouring cell stops block \<open>piece_num\<close>: the cell is neither
  empty nor part of the block, and for block 2 it is not a goal cell either.\<close>

definition blocked :: "int \<Rightarrow> int \<Rightarrow> bool" where
  "blocked piece_num v \<longleftrightarrow>
     (piece_num = 2 \<and> v \<noteq> 0 \<and> v \<noteq> - 1 \<and> v \<noteq> piece_num) \<or>
     (piece_num \<noteq> 2 \<and> v \<noteq> 0 \<and> v \<noteq> piece_num)"

text \<open>The four conditions under which a cell \<open>(i, j)\<close> of the block switches a
  direction off.  \<open>||\<close> does not evaluate its right operand at the board's edge, so no
  cell outside the board is read.\<close>

fun dir_bad :: "game \<Rightarrow> board \<Rightarrow> int \<Rightarrow> Move_Direction \<Rightarrow> nat \<times> nat \<Rightarrow> bool" where
  "dir_bad g b p UP (i, j) \<longleftrightarrow> i = 0 \<or> blocked p (cell b (i - 1) j)"
| "dir_bad g b p DOWN (i, j) \<longleftrightarrow> int i = int (board_height g) - 1 \<or> blocked p (cell b (i + 1) j)"
| "dir_bad g b p LEFT (i, j) \<longleftrightarrow> j = 0 \<or> blocked p (cell b i (j - 1))"
| "dir_bad g b p RIGHT (i, j) \<longleftrightarrow> int j = int (board_width g) - 1 \<or> blocked p (cell b i (j + 1))"

record move_flags =
  piece_found :: bool
  up_legal :: bool
  down_legal :: bool
  left_legal :: bool
  right_legal :: bool
  num_available_moves :: int

definition init_flags :: move_flags where
  "init_flags = \<lparr>piece_found = False, up_legal = True, down_legal = True, left_legal = True,
     right_legal = True, num_available_moves = 4\<rparr>"

definition check_up :: "game \<Rightarrow> board \<Rightarrow> int \<Rightarrow> nat \<times> nat \<Rightarrow> move_flags \<Rightarrow> move_flags" where
  "check_up g b p ij fl =
     (if up_legal fl \<and> dir_bad g b p UP ij
      then fl\<lparr>up_legal := False, num_available_moves := num_available_moves fl - 1\<rparr> else fl)"

definition check_down :: "game \<Rightarrow> board \<Rightarrow> int \<Rightarrow> nat \<times> nat \<Rightarrow> move_flags \<Rightarrow> move_flags" where
  "check_down g b p ij fl =
     (if down_legal fl \<and> dir_bad g b p DOWN ij
      then fl\<lparr>down_legal := False, num_available_moves := num_available_moves fl - 1\<rparr> else fl)"

definition check_left :: "game \<Rightarrow> board \<Rightarrow> int \<Rightarrow> nat \<times> nat \<Rightarrow> move_flags \<Rightarrow> move_flags" where
  "check_left g b p ij fl =
     (if left_legal fl \<and> dir_bad g b p LEFT ij
      then fl\<lparr>left_legal := False, num_available_moves := num_available_moves fl - 1\<rparr> else fl)"

definition check_right :: "game \<Rightarrow> board \<Rightarrow> int \<Rightarrow> nat \<times> nat \<Rightarrow> move_flags \<Rightarrow> move_flags" where
  "check_right g b p ij fl =
     (if right_legal fl \<and> dir_bad g b p RIGHT ij
      then fl\<lparr>right_legal := False, num_available_moves := num_available_moves fl - 1\<rparr> else fl)"

text \<open>The body of the scanning loop of \<open>getAvailableMoves\<close> at position \<open>(i, j)\<close>.\<close>

definition moves_step :: "game \<Rightarrow> board \<Rightarrow> int \<Rightarrow> move_flags \<Rightarrow> nat \<times> nat \<Rightarrow> move_flags" where
  "moves_step g b p fl ij =
     (if cell b (fst ij) (snd ij) = p
      then check_right g b p ij (check_left g b p ij (check_down g b p ij
             (check_up g b p ij (fl\<lparr>piece_found := True\<rparr>))))
      else fl)"

definition mk_move :: "int \<Rightarrow> Move_Direction \<Rightarrow> MOVE" where
  "mk_move p d = \<lparr>block_num = p, direction = d\<rparr>"

text \<open>The array that the function fills: up, down, left, right, each if still legal.\<close>

definition moves_of_flags :: "int \<Rightarrow> move_flags \<Rightarrow> MOVE list" where
  "moves_of_flags p fl =
     (if up_legal fl then [mk_move p UP] else []) @
     (if down_legal fl then [mk_move p DOWN] else []) @
     (if left_legal fl then [mk_move p LEFT] else []) @
     (if right_legal fl then [mk_move p RIGHT] else [])"

text \<open>
  \<open>getAvailableMoves\<close> returns \<open>num_available_moves\<close> and stores a new array through
  \<open>available_moves\<close> only when the piece was found and has a move.  The second
  component is that array, \<open>None\<close> when nothing is stored (the assignment
  \<open>available_moves = NULL\<close> changes the parameter only).  When the piece is not on the
  board, the count stays at its initial 4.
\<close>

definition getAvailableMoves :: "game \<Rightarrow> board \<Rightarrow> int \<Rightarrow> int \<times> MOVE list option" where
  "getAvailableMoves g b p =
     (let fl = foldl (moves_step g b p) init_flags (positions g)
      in (num_available_moves fl,
          if piece_found fl \<and> num_available_moves fl > 0 then Some (moves_of_flags p fl) else None))"

text \<open>
  \<open>getAllAvailableMoves\<close> calls \<open>getAvailableMoves\<close> for the labels \<open>2 .. max_block_num\<close>
  twice, with the same one-pointer buffer \<open>available_moves_per_block\<close>: first to add
  up the counts, then to copy \<open>num_moves\<close> entries from the array the buffer points
  to.  The buffer is \<open>None\<close> while nothing has been stored in it.  Copying from an
  unset buffer, or copying more entries than the array it points to holds, reads
  memory the program does not own: the result is \<open>None\<close>.
\<close>

definition store_moves :: "MOVE list option \<Rightarrow> MOVE list option \<Rightarrow> MOVE list option" where
  "store_moves buf out = (case out of None \<Rightarrow> buf | Some ms \<Rightarrow> Some ms)"

fun count_loop :: "game \<Rightarrow> board \<Rightarrow> int list \<Rightarrow> int \<times> MOVE list option \<Rightarrow> int \<times> MOVE list option" where
  "count_loop g b [] st = st"
| "count_loop g b (l # ls) (tot, buf) =
     count_loop g b ls
       (tot + fst (getAvailableMoves g b l), store_moves buf (snd (getAvailableMoves g b l)))"

fun copy_loop :: "game \<Rightarrow> board \<Rightarrow> int list \<Rightarrow> MOVE list option \<Rightarrow> MOVE list option" where
  "copy_loop g b [] buf = Some []"
| "copy_loop g b (l # ls) buf =
     (let n = fst (getAvailableMoves g b l);
          buf' = store_moves buf (snd (getAvailableMoves g b l))
      in if n \<le> 0 then copy_loop g b ls buf'
         else (case buf' of
                 None \<Rightarrow> None
               | Some ms \<Rightarrow>
                   if nat n \<le> length ms
                   then (case copy_loop g b ls buf' of
                           None \<Rightarrow> None
                         | Some rest \<Rightarrow> Some (take (nat n) ms @ rest))
                   else None))"

definition getAllAvailableMoves :: "game \<Rightarrow> board \<Rightarrow> MOVE list option" where
  "getAllAvailableMoves g b =
     copy_loop g b [2..max_block_num g] (snd (count_loop g b [2..max_block_num g] (0, None)))"

text \<open>The count that \<open>getAllAvailableMoves\<close> returns: the sum of the per-label counts.\<close>

definition num_total_available_moves :: "game \<Rightarrow> board \<Rightarrow> int" where
  "num_total_available_moves g b = fst (count_loop g b [2..max_block_num g] (0, None))"

text \<open>
  Legality as the specification words it: every cell holding the label has a
  neighbour inside the grid in that direction, and that neighbour holds 0 or the
  label itself, or a goal cell when the label is 2.
\<close>

definition passable :: "int \<Rightarrow> int \<Rightarrow> bool" where
  "passable p v \<longleftrightarrow> v = 0 \<or> v = p \<or> (p = 2 \<and> v = - 1)"

definition legal_move :: "game \<Rightarrow> board \<Rightarrow> int \<Rightarrow> Move_Direction \<Rightarrow> bool" where
  "legal_move g b p d \<longleftrightarrow>
     (\<forall>ij \<in> set (positions g). cell b (fst ij) (snd ij) = p \<longrightarrow>
        (case neighbour g d ij of
           None \<Rightarrow> False
         | Some (i', j') \<Rightarrow> passable p (cell b i' j')))"

definition legal_moves :: "game \<Rightarrow> board \<Rightarrow> int \<Rightarrow> MOVE list" where
  "legal_moves g b p = map (mk_move p) (filter (legal_move g b p) [UP, DOWN, LEFT, RIGHT])"

definition present :: "game \<Rightarrow> board \<Rightarrow> int \<Rightarrow> bool" where
  "present g b p \<longleftrightarrow> p \<in> set (scan g b)"

definition all_legal_moves :: "game \<Rightarrow> board \<Rightarrow> MOVE list" where
  "all_legal_moves g b =
     concat (map (legal_moves g b) (filter (present g b) [2..max_block_num g]))"

section \<open>applyMove, cloneGameState, applyMoveCloning\<close>

text \<open>
  \<open>applyMove\<close> builds \<open>temp_board\<close> in two passes over the input board and then copies
  it back over the input.  The first pass copies the board without the moving block.
\<close>

definition cleared :: "game \<Rightarrow> board \<Rightarrow> int \<Rightarrow> board" where
  "cleared g b p =
     map (\<lambda>i. map (\<lambda>j. if cell b i j = p then 0 else cell b i j) [0..<board_width g])
       [0..<board_height g]"

text \<open>\<open>temp_board[i][j] = v\<close>\<close>

definition write_cell :: "board \<Rightarrow> nat \<times> nat \<Rightarrow> int \<Rightarrow> board" where
  "write_cell t ij v = t[fst ij := (t ! fst ij)[snd ij := v]]"

text \<open>
  The second pass: for every cell of the input that holds the block, the neighbouring
  cell of \<open>temp_board\<close> in the move's direction receives the block's label.  A
  neighbour outside the \<open>board_height \<times> board_width\<close> array is a write outside
  \<open>temp_board\<close>: \<open>None\<close>.
\<close>

fun place :: "game \<Rightarrow> board \<Rightarrow> MOVE \<Rightarrow> (nat \<times> nat) list \<Rightarrow> board \<Rightarrow> board option" where
  "place g b m [] t = Some t"
| "place g b m (ij # ps) t =
     (if cell b (fst ij) (snd ij) = block_num m
      then (case neighbour g (direction m) ij of
              None \<Rightarrow> None
            | Some tgt \<Rightarrow> place g b m ps (write_cell t tgt (block_num m)))
      else place g b m ps t)"

text \<open>The content of the board after \<open>applyMove\<close>: the third pass copies every cell of
  \<open>temp_board\<close> back.\<close>

definition moved :: "game \<Rightarrow> board \<Rightarrow> MOVE \<Rightarrow> board option" where
  "moved g b m = place g b m (positions g) (cleared g b (block_num m))"

text \<open>
  Boards live on the heap and are handed around as pointers.  The heap is the list of
  the boards allocated so far, and a pointer is an index into it; an allocation
  appends.  \<open>cloneGameState\<close> allocates a new board and copies the cells;
  \<open>applyMove\<close> overwrites the board it is given; \<open>applyMoveCloning\<close> clones and
  applies the move to the clone.
\<close>

type_synonym heap = "board list"

definition cloneGameState :: "game \<Rightarrow> heap \<Rightarrow> nat \<Rightarrow> (heap \<times> nat) option" where
  "cloneGameState g h orig_state =
     (if orig_state < length h then Some (h @ [rows g (h ! orig_state)], length h) else None)"

definition applyMove :: "game \<Rightarrow> heap \<Rightarrow> nat \<Rightarrow> MOVE \<Rightarrow> heap option" where
  "applyMove g h input_state m =
     (if input_state < length h
      then (case moved g (h ! input_state) m of
              None \<Rightarrow> None
            | Some t \<Rightarrow> Some (h[input_state := t]))
      else None)"

definition applyMoveCloning :: "game \<Rightarrow> heap \<Rightarrow> nat \<Rightarrow> MOVE \<Rightarrow> (heap \<times> nat) option" where
  "applyMoveCloning g h input_state m =
     (case cloneGameState g h input_state of
        None \<Rightarrow> None
      | Some (h', board_clone) \<Rightarrow>
          (case applyMove g h' board_clone m of
             None \<Rightarrow> None
           | Some h'' \<Rightarrow> Some (h'', board_clone)))"

text \<open>
  The search drivers never change a board once it sits in a node, so they are
  modelled on board values: the board that \<open>applyMoveCloning\<close> returns a pointer to.
\<close>

definition next_board :: "game \<Rightarrow> board \<Rightarrow> MOVE \<Rightarrow> board option" where
  "next_board g b m = moved g (rows g b) m"

subsection \<open>compareStates\<close>

definition compareStates :: "game \<Rightarrow> board \<Rightarrow> board \<Rightarrow> bool" where
  "compareStates g a b \<longleftrightarrow> list_all (\<lambda>ij. cell a (fst ij) (snd ij) = cell b (fst ij) (snd ij)) (positions g)"

section \<open>normalizeState\<close>

text \<open>
  The relabelling that the loops of \<open>normalizeState\<close> compute when every table access
  is inside the tables.  Here the two tables \<open>block_seen\<close> and \<open>remap\<close> are functions
  from the index to the slot's value, all slots \<open>false\<close> / \<open>0\<close> after the initialising
  loop.  This function serves the proofs.  \<open>normalizeState\<close> itself comes further down:
  there the tables are the blocks that \<open>malloc\<close> returned, and an access outside them
  has no result.  The plan is the triple (\<open>block_seen\<close>, \<open>remap\<close>, \<open>remap_counter\<close>).
\<close>

type_synonym plan = "(int \<Rightarrow> bool) \<times> (int \<Rightarrow> int) \<times> int"

fun plan_step :: "plan \<Rightarrow> int \<Rightarrow> plan" where
  "plan_step (seen, remap, cnt) c =
     (if c > 2 \<and> \<not> seen c then (seen(c := True), remap(c := cnt), cnt + 1)
      else (seen, remap, cnt))"

definition remap_plan :: "game \<Rightarrow> board \<Rightarrow> plan" where
  "remap_plan g b = foldl plan_step (\<lambda>_. False, \<lambda>_. 0, 3) (scan g b)"

definition remap_cell :: "plan \<Rightarrow> int \<Rightarrow> int" where
  "remap_cell p c = (case p of (seen, remap, cnt) \<Rightarrow> if c > 2 then remap c else c)"

definition normalize_fun :: "game \<Rightarrow> board \<Rightarrow> board" where
  "normalize_fun g b =
     map (\<lambda>i. map (\<lambda>j. remap_cell (remap_plan g b) (cell b i j)) [0..<board_width g])
       [0..<board_height g]"

subsection \<open>normalizeState on the allocated tables\<close>

text \<open>
  \<open>block_seen\<close> and \<open>remap\<close> are \<open>malloc\<close>ed with \<open>max_block_num\<close> entries each.
  Here a table is a list of the entries that can be accessed, and an access outside it
  is \<open>None\<close>.  The content of freshly allocated memory is not known, so the two fresh
  tables are parameters.
\<close>

definition tab_get :: "'a list \<Rightarrow> int \<Rightarrow> 'a option" where
  "tab_get t i = (if 0 \<le> i \<and> nat i < length t then Some (t ! nat i) else None)"

definition tab_set :: "'a list \<Rightarrow> int \<Rightarrow> 'a \<Rightarrow> 'a list option" where
  "tab_set t i v = (if 0 \<le> i \<and> nat i < length t then Some (t[nat i := v]) else None)"

text \<open>\<open>for (i = 0; i <= max_block_num; i++) { block_seen[i] = false; remap[i] = 0; }\<close>\<close>

fun init_tables :: "bool list \<Rightarrow> int list \<Rightarrow> int list \<Rightarrow> (bool list \<times> int list) option" where
  "init_tables seen remap [] = Some (seen, remap)"
| "init_tables seen remap (i # is) =
     (case tab_set seen i False of
        None \<Rightarrow> None
      | Some seen' \<Rightarrow>
          (case tab_set remap i 0 of
             None \<Rightarrow> None
           | Some remap' \<Rightarrow> init_tables seen' remap' is))"

text \<open>The planning loop: \<open>block_seen[block_num]\<close> is read only when \<open>block_num > 2\<close>.\<close>

fun plan_mem :: "bool list \<times> int list \<times> int \<Rightarrow> int list \<Rightarrow> (bool list \<times> int list \<times> int) option" where
  "plan_mem st [] = Some st"
| "plan_mem (seen, remap, cnt) (c # cs) =
     (if c > 2 then
        (case tab_get seen c of
           None \<Rightarrow> None
         | Some s \<Rightarrow>
             if \<not> s then
               (case tab_set seen c True of
                  None \<Rightarrow> None
                | Some seen' \<Rightarrow>
                    (case tab_set remap c cnt of
                       None \<Rightarrow> None
                     | Some remap' \<Rightarrow> plan_mem (seen', remap', cnt + 1) cs))
             else plan_mem (seen, remap, cnt) cs)
      else plan_mem (seen, remap, cnt) cs)"

text \<open>The rewriting loop over one row and over the rows.\<close>

fun remap_row_mem :: "int list \<Rightarrow> int list \<Rightarrow> int list option" where
  "remap_row_mem remap [] = Some []"
| "remap_row_mem remap (c # cs) =
     (case (if c > 2 then tab_get remap c else Some c) of
        None \<Rightarrow> None
      | Some c' \<Rightarrow>
          (case remap_row_mem remap cs of None \<Rightarrow> None | Some cs' \<Rightarrow> Some (c' # cs')))"

fun remap_rows_mem :: "int list \<Rightarrow> int list list \<Rightarrow> int list list option" where
  "remap_rows_mem remap [] = Some []"
| "remap_rows_mem remap (r # rs) =
     (case remap_row_mem remap r of
        None \<Rightarrow> None
      | Some r' \<Rightarrow>
          (case remap_rows_mem remap rs of None \<Rightarrow> None | Some rs' \<Rightarrow> Some (r' # rs')))"

definition normalizeState_mem :: "bool list \<Rightarrow> int list \<Rightarrow> game \<Rightarrow> board \<Rightarrow> board option" where
  "normalizeState_mem seen0 remap0 g b =
     (case init_tables seen0 remap0 [0..max_block_num g] of
        None \<Rightarrow> None
      | Some (seen, remap) \<Rightarrow>
          (case plan_mem (seen, remap, 3) (scan g b) of
             None \<Rightarrow> None
           | Some (seen', remap', cnt) \<Rightarrow>
               remap_rows_mem remap' (rows g b)))"

text \<open>
  \<open>bool *block_seen = malloc(sizeof(bool) * max_block_num);\<close> and
  \<open>int *remap = malloc(sizeof(int) * max_block_num);\<close>  What lies behind the entries
  that the program asked \<open>malloc\<close> for is not in the program's hands.  A platform
  gives, for a request of \<open>n\<close> entries, the block that \<open>malloc\<close> hands out: the
  entries that can be accessed, the requested ones first.  An allocator that hands out
  what it is asked for gives \<open>n\<close> entries.  The platform also says whether plain
  \<open>char\<close> is signed, which the bucket index of a key depends on.
\<close>

record platform =
  plain_char_signed :: bool
  malloc_bool :: "int \<Rightarrow> bool list"
  malloc_int :: "int \<Rightarrow> int list"

definition normalizeState :: "platform \<Rightarrow> game \<Rightarrow> board \<Rightarrow> board option" where
  "normalizeState pf g b =
     normalizeState_mem (malloc_bool pf (max_block_num g)) (malloc_int pf (max_block_num g)) g b"

text \<open>What the specification says \<open>normalize\<close> does: the labels above 2, in the order
  in which the row-major scan first meets them, become 3, 4, 5, ...\<close>

definition note_label :: "int list \<Rightarrow> int \<Rightarrow> int list" where
  "note_label ds c = (if c > 2 \<and> c \<notin> set ds then ds @ [c] else ds)"

definition labels_in_order :: "int list \<Rightarrow> int list" where
  "labels_in_order cs = foldl note_label [] cs"

primrec label_index :: "int list \<Rightarrow> int \<Rightarrow> nat" where
  "label_index [] c = 0"
| "label_index (d # ds) c = (if d = c then 0 else Suc (label_index ds c))"

text \<open>The invariant of the planning loop, in terms of the labels met so far.\<close>

definition plan_inv :: "int list \<Rightarrow> plan \<Rightarrow> bool" where
  "plan_inv ds p \<longleftrightarrow> (case p of (seen, remap, cnt) \<Rightarrow>
      distinct ds \<and> (\<forall>c. seen c \<longleftrightarrow> c \<in> set ds) \<and> cnt = 3 + int (length ds) \<and>
      (\<forall>c \<in> set ds. remap c = 3 + int (label_index ds c)))"

definition relabel :: "int list \<Rightarrow> int \<Rightarrow> int" where
  "relabel cs c = (if c > 2 then 3 + int (label_index (labels_in_order cs) c) else c)"

definition normalize_spec :: "board \<Rightarrow> board" where
  "normalize_spec b = map (map (relabel (concat b))) b"

section \<open>The visited-state table\<close>

text \<open>
  \<open>getStateHashKey\<close> writes one \<open>char\<close> per interior cell (rows \<open>1 .. height - 2\<close>,
  columns \<open>1 .. width - 2\<close>), the cell's value plus \<open>'A'\<close> cut to eight bits, then a
  terminating zero, into a buffer of \<open>(height - 2) * (width - 2) + 1\<close> bytes.  The
  table compares keys with \<open>strcmp\<close> and measures them with \<open>strlen\<close>, so a key is
  the bytes before the first zero byte.  \<open>None\<close>: the buffer is too small for what is
  written.
\<close>

definition key_char :: "int \<Rightarrow> char" where
  "key_char c = char_of (c + 65)"

definition interior :: "game \<Rightarrow> board \<Rightarrow> int list" where
  "interior g b =
     concat (map (\<lambda>i. map (\<lambda>j. cell b i j) [1..<board_width g - 1]) [1..<board_height g - 1])"

definition getStateHashKey :: "game \<Rightarrow> board \<Rightarrow> string option" where
  "getStateHashKey g b =
     (if int (length (interior g b)) + 1 \<le> (int (board_height g) - 2) * (int (board_width g) - 2) + 1
      then Some (takeWhile (\<lambda>ch. ch \<noteq> CHR 0x00) (map key_char (interior g b)))
      else None)"

text \<open>
  The table is an array of 1000 chains; an entry goes to the end of the chain that its
  key's index selects, and a lookup walks that chain from the front comparing whole
  keys.  All entries with one key share a chain and keep their insertion order there,
  so a lookup finds the entry that was inserted first among those with the key.  The
  list of all entries in insertion order therefore answers every lookup as the array
  of chains does; that list is the model, and the chain at an index is the sublist of
  the entries whose key has that index (\<open>chain_at\<close> below).
\<close>

type_synonym hash_table = "(string \<times> int) list"

text \<open>The three walks along a chain, on that list: the new entry goes to the end, a
  lookup returns the value of the first entry with the key or -1, an update overwrites
  the value of the first entry with the key.\<close>

definition add_entry :: "hash_table \<Rightarrow> string \<Rightarrow> int \<Rightarrow> hash_table" where
  "add_entry t k v = t @ [(k, v)]"

definition entry_value :: "hash_table \<Rightarrow> string \<Rightarrow> int" where
  "entry_value t k = (case map_of t k of None \<Rightarrow> - 1 | Some v \<Rightarrow> v)"

fun set_entry :: "hash_table \<Rightarrow> string \<Rightarrow> int \<Rightarrow> hash_table" where
  "set_entry [] k v = []"
| "set_entry ((k', v') # t) k v =
     (if k' = k then (k', v) # t else (k', v') # set_entry t k v)"

text \<open>
  \<open>getHashKeyIndex\<close> adds up \<open>hashkey[i] * (i+1)\<close> in an \<open>int\<close> and returns the sum
  \<open>% 1000\<close>.  A plain \<open>char\<close> with the top bit set is negative where \<open>char\<close> is
  signed; a product or a sum outside the range of \<open>int\<close> has no result; and \<open>%\<close> gives
  a result with the sign of the sum.
\<close>

definition char_value :: "platform \<Rightarrow> char \<Rightarrow> int" where
  "char_value pf ch =
     (if plain_char_signed pf \<and> 128 \<le> (of_char ch :: int) then of_char ch - 256 else of_char ch)"

definition in_int :: "int \<Rightarrow> bool" where
  "in_int x \<longleftrightarrow> - 2147483648 \<le> x \<and> x \<le> 2147483647"

fun running_total :: "platform \<Rightarrow> string \<Rightarrow> int \<Rightarrow> int \<Rightarrow> int option" where
  "running_total pf [] i tot = Some tot"
| "running_total pf (ch # cs) i tot =
     (if in_int (char_value pf ch * (i + 1)) \<and> in_int (tot + char_value pf ch * (i + 1))
      then running_total pf cs (i + 1) (tot + char_value pf ch * (i + 1))
      else None)"

definition STATE_HASH_TABLE_SIZE :: int where
  "STATE_HASH_TABLE_SIZE = 1000"

definition getHashKeyIndex :: "platform \<Rightarrow> string \<Rightarrow> int option" where
  "getHashKeyIndex pf hashkey =
     (if in_int (int (length hashkey))
      then (case running_total pf hashkey 0 0 of
              None \<Rightarrow> None
            | Some tot \<Rightarrow>
                Some (if tot < 0 then - ((- tot) mod STATE_HASH_TABLE_SIZE)
                      else tot mod STATE_HASH_TABLE_SIZE))
      else None)"

text \<open>Each of the three table functions starts with
  \<open>state_hashtable[getHashKeyIndex(key)]\<close>; an index outside the array has no result.\<close>

definition table_slot :: "platform \<Rightarrow> string \<Rightarrow> nat option" where
  "table_slot pf key =
     (case getHashKeyIndex pf key of
        None \<Rightarrow> None
      | Some i \<Rightarrow> if 0 \<le> i \<and> i < STATE_HASH_TABLE_SIZE then Some (nat i) else None)"

definition insertIntoStateHashTable :: "platform \<Rightarrow> hash_table \<Rightarrow> string \<Rightarrow> int \<Rightarrow> hash_table option" where
  "insertIntoStateHashTable pf t key v =
     (case table_slot pf key of None \<Rightarrow> None | Some i \<Rightarrow> Some (add_entry t key v))"

definition getHashTableValue :: "platform \<Rightarrow> hash_table \<Rightarrow> string \<Rightarrow> int option" where
  "getHashTableValue pf t key =
     (case table_slot pf key of None \<Rightarrow> None | Some i \<Rightarrow> Some (entry_value t key))"

definition updateHashTableValue :: "platform \<Rightarrow> hash_table \<Rightarrow> string \<Rightarrow> int \<Rightarrow> hash_table option" where
  "updateHashTableValue pf t key v =
     (case table_slot pf key of None \<Rightarrow> None | Some i \<Rightarrow> Some (set_entry t key v))"

text \<open>The chain \<open>state_hashtable[i]\<close>: the entries whose key has index \<open>i\<close>, in the
  order of their insertion.\<close>

definition chain_at :: "platform \<Rightarrow> hash_table \<Rightarrow> nat \<Rightarrow> (string \<times> int) list" where
  "chain_at pf t i = filter (\<lambda>kv. table_slot pf (fst kv) = Some i) t"

section \<open>A* search: heuristic and best-node selection\<close>

definition WORST_CASE_DISTANCE :: int where
  "WORST_CASE_DISTANCE = 1000"

text \<open>The four running maxima of \<open>get_heuristic\<close>:
  (start row, start column, end row, end column).\<close>

fun heuristic_step :: "int \<times> int \<times> int \<times> int \<Rightarrow> (nat \<times> nat) \<times> int \<Rightarrow> int \<times> int \<times> int \<times> int" where
  "heuristic_step (sr, sc, er, ec) ((i, j), c) =
     (let sr' = (if c = 2 \<and> int i > sr then int i else sr);
          sc' = (if c = 2 \<and> int j > sc then int j else sc);
          er' = (if c = - 1 \<and> int i > er then int i else er);
          ec' = (if c = - 1 \<and> int j > ec then int j else ec)
      in (sr', sc', er', ec'))"

definition get_heuristic :: "game \<Rightarrow> board \<Rightarrow> int" where
  "get_heuristic g b =
     (case foldl heuristic_step (- 1, - 1, - 1, - 1)
             (map (\<lambda>(i, j). ((i, j), cell b i j)) (positions g)) of
        (sr, sc, er, ec) \<Rightarrow> \<bar>er - sr\<bar> + \<bar>ec - sc\<bar>)"

definition f_of_n :: "game \<Rightarrow> STATE_NODE \<Rightarrow> int" where
  "f_of_n g n = path_cost n + get_heuristic g (board_state n)"

text \<open>The loop of \<open>getBestNode\<close> over the chain that starts at \<open>bfs_fifo_head\<close>;
  \<open>sp\<close> is \<open>shortest_path\<close>, \<open>sn\<close> is \<open>shortest_node\<close> (\<open>None\<close> for \<open>NULL\<close>).\<close>

fun best_scan :: "game \<Rightarrow> STATE_NODE list \<Rightarrow> int \<Rightarrow> STATE_NODE option \<Rightarrow> STATE_NODE option" where
  "best_scan g [] sp sn = sn"
| "best_scan g (n # ns) sp sn =
     (if f_of_n g n < sp then best_scan g ns (f_of_n g n) (Some n) else best_scan g ns sp sn)"

definition getBestNode :: "game \<Rightarrow> STATE_NODE list \<Rightarrow> STATE_NODE option" where
  "getBestNode g q = best_scan g q WORST_CASE_DISTANCE None"

section \<open>The frontiers\<close>

text \<open>
  The FIFO queue is a chain of nodes from \<open>bfs_fifo_head\<close>, and a pointer
  \<open>bfs_fifo_tail\<close> to the node enqueued last.  \<open>bfsDequeue\<close> and \<open>removeNode\<close> move the
  head or cut a node out of the chain and never touch the tail pointer.  So after
  \<open>removeNode\<close> has cut out the chain's last node, the tail pointer still points to
  that node, and \<open>bfsEnqueue\<close> links a new node behind it, where the chain from the
  head does not reach.  The model keeps the chain from the head and whether the tail
  pointer is on it.  With an empty chain (head \<open>NULL\<close>) \<open>bfsEnqueue\<close> makes the new
  node the head, and the tail pointer is on the chain again.
\<close>

record fifo =
  chain :: "STATE_NODE list"
  tail_linked :: bool

definition empty_fifo :: fifo where
  "empty_fifo = \<lparr>chain = [], tail_linked = True\<rparr>"

text \<open>A new node's path cost is its parent's plus one, or 0 without a parent.\<close>

definition new_node :: "board \<Rightarrow> MOVE option \<Rightarrow> STATE_NODE option \<Rightarrow> STATE_NODE" where
  "new_node b m par = Node (case par of None \<Rightarrow> 0 | Some p \<Rightarrow> path_cost p + 1) b m par"

definition bfsEnqueue :: "fifo \<Rightarrow> board \<Rightarrow> MOVE option \<Rightarrow> STATE_NODE option \<Rightarrow> fifo" where
  "bfsEnqueue q b m par =
     (if chain q = [] then \<lparr>chain = [new_node b m par], tail_linked = True\<rparr>
      else if tail_linked q then q\<lparr>chain := chain q @ [new_node b m par]\<rparr>
      else q)"

text \<open>\<open>bfsDequeue\<close> reads \<open>bfs_fifo_head->next\<close>: on an empty queue that is a read
  through \<open>NULL\<close>.\<close>

definition bfsDequeue :: "fifo \<Rightarrow> (STATE_NODE \<times> fifo) option" where
  "bfsDequeue q = (case chain q of [] \<Rightarrow> None | n # ns \<Rightarrow> Some (n, q\<lparr>chain := ns\<rparr>))"

definition bfsQueueIsEmpty :: "fifo \<Rightarrow> bool" where
  "bfsQueueIsEmpty q \<longleftrightarrow> chain q = []"

text \<open>The loop of \<open>removeNode\<close> over the nodes behind the head: the first node whose
  board compares equal is cut out.  The flag says that the node cut out was the last
  of the chain.\<close>

fun remove_behind :: "game \<Rightarrow> board \<Rightarrow> STATE_NODE list \<Rightarrow> STATE_NODE list \<times> bool" where
  "remove_behind g xb [] = ([], False)"
| "remove_behind g xb (n # ns) =
     (if compareStates g (board_state n) xb then (ns, ns = [])
      else (case remove_behind g xb ns of (ns', l) \<Rightarrow> (n # ns', l)))"

definition removeNode :: "game \<Rightarrow> fifo \<Rightarrow> STATE_NODE \<Rightarrow> fifo option" where
  "removeNode g q x =
     (case chain q of
        [] \<Rightarrow> None
      | n # ns \<Rightarrow>
          if compareStates g (board_state n) (board_state x) then Some (q\<lparr>chain := ns\<rparr>)
          else (case remove_behind g (board_state x) ns of
                  (ns', l) \<Rightarrow> Some \<lparr>chain = n # ns', tail_linked = tail_linked q \<and> \<not> l\<rparr>))"

text \<open>The FILO stack is the chain from \<open>dfs_filo_head\<close>; a push puts the new node in
  front.\<close>

definition dfsPushStack :: "STATE_NODE list \<Rightarrow> board \<Rightarrow> MOVE option \<Rightarrow> STATE_NODE option \<Rightarrow> STATE_NODE list" where
  "dfsPushStack st b m par = new_node b m par # st"

section \<open>The search drivers\<close>

text \<open>
  A driver's result is \<open>Some\<close> of the \<open>int\<close> it returns.  \<open>None\<close> means that the call
  does not return a result: the loop runs forever, or the run leaves the program's
  memory (one of the \<open>None\<close> cases above).  Every driver starts on an empty frontier,
  as at program start, and on the table as \<open>initStateHashTable\<close> leaves it; the
  platform is the first argument.

  The body of the \<open>for\<close> loop over the moves, for breadth-first and A* search:
  \<open>Inl\<close> is the \<open>return next_board_depth\<close> inside the loop, \<open>Inr\<close> the queue and the
  table after the loop.
\<close>

fun bfs_expand :: "platform \<Rightarrow> game \<Rightarrow> STATE_NODE \<Rightarrow> MOVE list \<Rightarrow> fifo \<times> hash_table \<Rightarrow> (int + fifo \<times> hash_table) option" where
  "bfs_expand pf g cur [] qt = Some (Inr qt)"
| "bfs_expand pf g cur (m # ms) (q, t) =
     (case next_board g (board_state cur) m of
        None \<Rightarrow> None
      | Some nb \<Rightarrow>
          (case normalizeState pf g nb of
             None \<Rightarrow> None
           | Some next_board_state \<Rightarrow>
               let next_board_depth = path_cost cur + 1
               in if checkGameComplete g next_board_state then Some (Inl next_board_depth)
                  else (case getStateHashKey g next_board_state of
                          None \<Rightarrow> None
                        | Some next_board_hash \<Rightarrow>
                            (case getHashTableValue pf t next_board_hash of
                               None \<Rightarrow> None
                             | Some hash_table_value \<Rightarrow>
                                 if hash_table_value \<ge> 0
                                 then bfs_expand pf g cur ms (q, t)
                                 else (case insertIntoStateHashTable pf t next_board_hash next_board_depth of
                                         None \<Rightarrow> None
                                       | Some t' \<Rightarrow>
                                           bfs_expand pf g cur ms
                                             (bfsEnqueue q next_board_state (Some m) (Some cur), t'))))))"

partial_function (option) bfs_loop :: "platform \<Rightarrow> game \<Rightarrow> fifo \<times> hash_table \<Rightarrow> int option" where
  "bfs_loop pf g qt =
     (if bfsQueueIsEmpty (fst qt) then Some (- 1)
      else (case bfsDequeue (fst qt) of
              None \<Rightarrow> None
            | Some (current_state_node, q) \<Rightarrow>
                (case getAllAvailableMoves g (board_state current_state_node) of
                   None \<Rightarrow> None
                 | Some available_moves \<Rightarrow>
                     (case bfs_expand pf g current_state_node available_moves (q, snd qt) of
                        None \<Rightarrow> None
                      | Some (Inl cost) \<Rightarrow> Some cost
                      | Some (Inr qt') \<Rightarrow> bfs_loop pf g qt'))))"

declare bfs_loop.simps [code]

definition breadthFirstSearch :: "platform \<Rightarrow> game \<Rightarrow> board \<Rightarrow> int option" where
  "breadthFirstSearch pf g b =
     (case getStateHashKey g b of
        None \<Rightarrow> None
      | Some k \<Rightarrow>
          (case insertIntoStateHashTable pf [] k 0 of
             None \<Rightarrow> None
           | Some t \<Rightarrow> bfs_loop pf g (bfsEnqueue empty_fifo b None None, t)))"

text \<open>The body of the \<open>for\<close> loop of \<open>generalDepthFirstSearch\<close>.\<close>

fun dfs_expand :: "platform \<Rightarrow> game \<Rightarrow> STATE_NODE \<Rightarrow> MOVE list \<Rightarrow> STATE_NODE list \<times> hash_table \<Rightarrow> (int + STATE_NODE list \<times> hash_table) option" where
  "dfs_expand pf g cur [] st = Some (Inr st)"
| "dfs_expand pf g cur (m # ms) (stack, t) =
     (case next_board g (board_state cur) m of
        None \<Rightarrow> None
      | Some nb \<Rightarrow>
          (case normalizeState pf g nb of
             None \<Rightarrow> None
           | Some next_board_state \<Rightarrow>
               let next_board_depth = path_cost cur + 1
               in if checkGameComplete g next_board_state then Some (Inl next_board_depth)
                  else (case getStateHashKey g next_board_state of
                          None \<Rightarrow> None
                        | Some next_board_hash \<Rightarrow>
                            (case getHashTableValue pf t next_board_hash of
                               None \<Rightarrow> None
                             | Some hash_table_value \<Rightarrow>
                                 if hash_table_value < 0
                                 then (case insertIntoStateHashTable pf t next_board_hash next_board_depth of
                                         None \<Rightarrow> None
                                       | Some t' \<Rightarrow>
                                           dfs_expand pf g cur ms
                                             (dfsPushStack stack next_board_state (Some m) (Some cur), t'))
                                 else if hash_table_value > next_board_depth
                                 then (case updateHashTableValue pf t next_board_hash next_board_depth of
                                         None \<Rightarrow> None
                                       | Some t' \<Rightarrow>
                                           dfs_expand pf g cur ms
                                             (dfsPushStack stack next_board_state (Some m) (Some cur), t'))
                                 else dfs_expand pf g cur ms (stack, t)))))"

partial_function (option) dfs_loop :: "platform \<Rightarrow> game \<Rightarrow> bool \<Rightarrow> int \<Rightarrow> STATE_NODE list \<times> hash_table \<Rightarrow> int option" where
  "dfs_loop pf g depth_limited max_depth st =
     (case fst st of
        [] \<Rightarrow> Some (- 1)
      | current_state_node # stack \<Rightarrow>
          if \<not> depth_limited \<or> path_cost current_state_node < max_depth
          then (case getAllAvailableMoves g (board_state current_state_node) of
                  None \<Rightarrow> None
                | Some available_moves \<Rightarrow>
                    (case dfs_expand pf g current_state_node available_moves (stack, snd st) of
                       None \<Rightarrow> None
                     | Some (Inl cost) \<Rightarrow> Some cost
                     | Some (Inr st') \<Rightarrow> dfs_loop pf g depth_limited max_depth st'))
          else dfs_loop pf g depth_limited max_depth (stack, snd st))"

declare dfs_loop.simps [code]

definition generalDepthFirstSearch :: "platform \<Rightarrow> game \<Rightarrow> board \<Rightarrow> bool \<Rightarrow> int \<Rightarrow> int option" where
  "generalDepthFirstSearch pf g b depth_limited max_depth =
     (case getStateHashKey g b of
        None \<Rightarrow> None
      | Some k \<Rightarrow>
          (case insertIntoStateHashTable pf [] k 0 of
             None \<Rightarrow> None
           | Some t \<Rightarrow> dfs_loop pf g depth_limited max_depth (dfsPushStack [] b None None, t)))"

definition depthFirstSearch :: "platform \<Rightarrow> game \<Rightarrow> board \<Rightarrow> int option" where
  "depthFirstSearch pf g b = generalDepthFirstSearch pf g b False 0"

definition depthLimitedSearch :: "platform \<Rightarrow> game \<Rightarrow> board \<Rightarrow> int \<Rightarrow> int option" where
  "depthLimitedSearch pf g b max_depth = generalDepthFirstSearch pf g b True max_depth"

text \<open>The loop of \<open>interativeDeepeningSearch\<close>; the argument is \<open>search_depth\<close> before
  the increment.\<close>

partial_function (option) ids_loop :: "platform \<Rightarrow> game \<Rightarrow> board \<Rightarrow> int \<Rightarrow> int option" where
  "ids_loop pf g b search_depth =
     (case depthLimitedSearch pf g b (search_depth + 1) of
        None \<Rightarrow> None
      | Some search_result \<Rightarrow>
          if search_result > 0 then Some (search_depth + 1)
          else ids_loop pf g b (search_depth + 1))"

declare ids_loop.simps [code]

definition interativeDeepeningSearch :: "platform \<Rightarrow> game \<Rightarrow> board \<Rightarrow> int option" where
  "interativeDeepeningSearch pf g b = ids_loop pf g b 0"

text \<open>A* search: \<open>getBestNode\<close> may return \<open>NULL\<close>, and \<open>removeNode\<close> then reads
  through it.\<close>

partial_function (option) astar_loop :: "platform \<Rightarrow> game \<Rightarrow> fifo \<times> hash_table \<Rightarrow> int option" where
  "astar_loop pf g qt =
     (if bfsQueueIsEmpty (fst qt) then Some (- 1)
      else (case getBestNode g (chain (fst qt)) of
              None \<Rightarrow> None
            | Some current_state_node \<Rightarrow>
                (case removeNode g (fst qt) current_state_node of
                   None \<Rightarrow> None
                 | Some q \<Rightarrow>
                     (case getAllAvailableMoves g (board_state current_state_node) of
                        None \<Rightarrow> None
                      | Some available_moves \<Rightarrow>
                          (case bfs_expand pf g current_state_node available_moves (q, snd qt) of
                             None \<Rightarrow> None
                           | Some (Inl cost) \<Rightarrow> Some cost
                           | Some (Inr qt') \<Rightarrow> astar_loop pf g qt')))))"

declare astar_loop.simps [code]

definition aStarSearch :: "platform \<Rightarrow> game \<Rightarrow> board \<Rightarrow> int option" where
  "aStarSearch pf g b =
     (case getStateHashKey g b of
        None \<Rightarrow> None
      | Some k \<Rightarrow>
          (case insertIntoStateHashTable pf [] k 0 of
             None \<Rightarrow> None
           | Some t \<Rightarrow> astar_loop pf g (bfsEnqueue empty_fifo b None None, t)))"

section \<open>Platforms\<close>

text \<open>The tables of \<open>normalizeState\<close> fit when the entry at index \<open>max_block_num\<close> can
  be accessed in both blocks.\<close>

definition tables_fit :: "platform \<Rightarrow> game \<Rightarrow> bool" where
  "tables_fit pf g \<longleftrightarrow>
     max_block_num g < int (length (malloc_bool pf (max_block_num g))) \<and>
     max_block_num g < int (length (malloc_int pf (max_block_num g)))"

text \<open>The keys of a game's boards can be indexed when no character of a key is negative
  (plain \<open>char\<close> is unsigned, or every label is below 63 and so every character below
  128) and the sum stays inside \<open>int\<close> (at most 4000 characters).\<close>

definition indexable :: "platform \<Rightarrow> game \<Rightarrow> bool" where
  "indexable pf g \<longleftrightarrow>
     (\<not> plain_char_signed pf \<or> max_block_num g < 63) \<and>
     (board_height g - 2) * (board_width g - 2) \<le> 4000"

text \<open>Two platforms with signed \<open>char\<close>: on the first a block ends with the entries
  asked for, on the second every block has one entry more.\<close>

definition exact_platform :: platform where
  "exact_platform =
     \<lparr>plain_char_signed = True,
      malloc_bool = (\<lambda>n. replicate (nat n) False),
      malloc_int = (\<lambda>n. replicate (nat n) 0)\<rparr>"

definition roomy_platform :: platform where
  "roomy_platform =
     \<lparr>plain_char_signed = True,
      malloc_bool = (\<lambda>n. replicate (nat n + 1) False),
      malloc_int = (\<lambda>n. replicate (nat n + 1) 0)\<rparr>"

section \<open>Example boards\<close>

text \<open>A board of one row: the primary block next to a goal cell.\<close>

definition ex_game :: game where
  "ex_game = \<lparr>board_height = 1, board_width = 2, max_block_num = 2\<rparr>"

text \<open>A board with two single-cell blocks 4 and 3, and the renaming that swaps the two
  labels.\<close>

definition ex_game2 :: game where
  "ex_game2 = \<lparr>board_height = 3, board_width = 4, max_block_num = 4\<rparr>"

definition ex_board2 :: board where
  "ex_board2 = [[1, 1, 1, 1], [1, 4, 3, - 1], [1, 2, 0, 1]]"

definition swap34 :: "int \<Rightarrow> int" where
  "swap34 c = (if c = 3 then 4 else if c = 4 then 3 else c)"

text \<open>A board whose highest block, 3, is on the board.\<close>

definition ex_game3 :: game where
  "ex_game3 = \<lparr>board_height = 3, board_width = 4, max_block_num = 3\<rparr>"

definition ex_board3 :: board where
  "ex_board3 = [[1, 1, 1, 1], [1, 2, 3, - 1], [1, 1, 1, 1]]"

text \<open>The relation between the tables as lists of at least \<open>n\<close> entries and the tables
  as functions: they agree on the indices below \<open>n\<close>.\<close>

definition tables_rel :: "nat \<Rightarrow> bool list \<Rightarrow> int list \<Rightarrow> (int \<Rightarrow> bool) \<Rightarrow> (int \<Rightarrow> int) \<Rightarrow> bool" where
  "tables_rel n seenL remapL seenF remapF \<longleftrightarrow>
     n \<le> length seenL \<and> n \<le> length remapL \<and>
     (\<forall>i < n. seenL ! i = seenF (int i) \<and> remapL ! i = remapF (int i))"

text \<open>The flag of a direction.\<close>

fun flag_of :: "move_flags \<Rightarrow> Move_Direction \<Rightarrow> bool" where
  "flag_of fl UP = up_legal fl"
| "flag_of fl DOWN = down_legal fl"
| "flag_of fl LEFT = left_legal fl"
| "flag_of fl RIGHT = right_legal fl"

text \<open>A board on which label 3 is missing between the blocks 2 and 4.\<close>

definition ex_game4 :: game where
  "ex_game4 = \<lparr>board_height = 5, board_width = 7, max_block_num = 4\<rparr>"

definition ex_board4 :: board where
  "ex_board4 =
     [[1, 1, 1, 1, 1, 1, 1],
      [1, 0, 0, 0, 0, 0, 1],
      [1, 0, 2, 0, 4, 0, - 1],
      [1, 0, 0, 0, 0, 0, 1],
      [1, 1, 1, 1, 1, 1, 1]]"

text \<open>The buffer \<open>available_moves_per_block\<close> holds nothing, or an array of legal
  moves of a block on the board.\<close>

definition legal_on :: "game \<Rightarrow> board \<Rightarrow> MOVE \<Rightarrow> bool" where
  "legal_on g b m \<longleftrightarrow> present g b (block_num m) \<and> legal_move g b (block_num m) (direction m)"

definition buf_ok :: "game \<Rightarrow> board \<Rightarrow> MOVE list option \<Rightarrow> bool" where
  "buf_ok g b buf \<longleftrightarrow> (case buf of None \<Rightarrow> True | Some ms \<Rightarrow> list_all (legal_on g b) ms)"

text \<open>The stored path costs are not negative.\<close>

definition table_ok :: "hash_table \<Rightarrow> bool" where
  "table_ok t \<longleftrightarrow> list_all (\<lambda>kv. 0 \<le> snd kv) t"

text \<open>A solved board (no goal cell) on which blocks can still move, and a board on
  which nothing can move and the goal cell stays uncovered.\<close>

definition ex_game5 :: game where
  "ex_game5 = \<lparr>board_height = 3, board_width = 5, max_block_num = 3\<rparr>"

definition ex_board5 :: board where
  "ex_board5 = [[1, 1, 1, 1, 1], [1, 2, 0, 3, 1], [1, 1, 0, 0, 1]]"

definition ex_game6 :: game where
  "ex_game6 = \<lparr>board_height = 3, board_width = 4, max_block_num = 2\<rparr>"

definition ex_board6 :: board where
  "ex_board6 = [[1, 1, 1, 1], [1, 2, 1, - 1], [1, 1, 1, 1]]"

text \<open>A board of two rows: the primary block is two moves to the right away from the
  goal cell.\<close>

definition ex_game7 :: game where
  "ex_game7 = \<lparr>board_height = 2, board_width = 4, max_block_num = 2\<rparr>"

definition ex_board7 :: board where
  "ex_board7 = [[1, 1, 1, 1], [2, 2, 0, - 1]]"

text \<open>The running maxima of \<open>get_heuristic\<close> stay between -1 and the board's size.\<close>

definition maxima_ok :: "game \<Rightarrow> int \<times> int \<times> int \<times> int \<Rightarrow> bool" where
  "maxima_ok g s \<longleftrightarrow> (case s of (sr, sc, er, ec) \<Rightarrow>
     - 1 \<le> sr \<and> sr < int (board_height g) \<and> - 1 \<le> sc \<and> sc < int (board_width g) \<and>
     - 1 \<le> er \<and> er < int (board_height g) \<and> - 1 \<le> ec \<and> ec < int (board_width g))"

text \<open>The board of the specification's scenario: two rows, the primary block of width
  two next to one goal cell.\<close>

definition ex_game8 :: game where
  "ex_game8 = \<lparr>board_height = 2, board_width = 3, max_block_num = 2\<rparr>"

definition ex_board8 :: board where
  "ex_board8 = [[1, 1, 1], [2, 2, - 1]]"

text \<open>A board with a block labelled 63, whose character in the key is 128.\<close>

definition ex_game10 :: game where
  "ex_game10 = \<lparr>board_height = 3, board_width = 4, max_block_num = 63\<rparr>"

definition ex_board10 :: board where
  "ex_board10 = [[1, 1, 1, 1], [1, 2, 63, - 1], [1, 1, 1, 1]]"

section \<open>Reachable boards and the least number of moves\<close>

text \<open>The boards the drivers are proved correct on: a grid of the declared size whose
  cells are labels from -1 to \<open>max_block_num\<close>, with every block label from 2 to
  \<open>max_block_num\<close> on the board (the move generator is exact on these boards only).\<close>

definition usable :: "game \<Rightarrow> board \<Rightarrow> bool" where
  "usable g b \<longleftrightarrow>
     wf_board g b \<and> (\<forall>c \<in> set (concat b). - 1 \<le> c \<and> c \<le> max_block_num g) \<and>
     (\<forall>l \<in> {2..max_block_num g}. present g b l)"

text \<open>The successors of a board, as every driver generates them where the tables of
  \<open>normalizeState\<close> fit: the moves of \<open>getAllAvailableMoves\<close>, each applied by
  \<open>applyMoveCloning\<close> and relabelled.\<close>

definition successors :: "game \<Rightarrow> board \<Rightarrow> board list" where
  "successors g b =
     (case getAllAvailableMoves g b of
        None \<Rightarrow> []
      | Some ms \<Rightarrow>
          concat (map (\<lambda>m. case next_board g b m of None \<Rightarrow> [] | Some nb \<Rightarrow> [normalize_fun g nb]) ms))"

text \<open>\<open>(n, b) \<in> reach g b0\<close>: board \<open>b\<close> is reached from the root \<open>b0\<close> by \<open>n\<close> moves
  through unsolved boards.  The root is in the set whether it is solved or not, as no driver
  tests it.\<close>

inductive_set reach :: "game \<Rightarrow> board \<Rightarrow> (int \<times> board) set" for g :: game and b0 :: board where
  root: "(0, b0) \<in> reach g b0"
| step: "(n, b) \<in> reach g b0 \<Longrightarrow> b' \<in> set (successors g b) \<Longrightarrow> \<not> checkGameComplete g b' \<Longrightarrow>
         (n + 1, b') \<in> reach g b0"

text \<open>A solved board is reached by \<open>n\<close> moves, the last of which is the first to
  give a solved board.\<close>

definition solvable_in :: "game \<Rightarrow> board \<Rightarrow> int \<Rightarrow> bool" where
  "solvable_in g b0 n \<longleftrightarrow>
     (\<exists>b b'. (n - 1, b) \<in> reach g b0 \<and> b' \<in> set (successors g b) \<and> checkGameComplete g b')"

text \<open>The key of a board (the buffer is large enough on a grid of at least two rows and
  two columns), the keys of a table, and the boards told apart by their keys.\<close>

definition key_of :: "game \<Rightarrow> board \<Rightarrow> string" where
  "key_of g b = (case getStateHashKey g b of None \<Rightarrow> [] | Some k \<Rightarrow> k)"

definition dkeys :: "hash_table \<Rightarrow> string set" where
  "dkeys t = fst ` set t"

definition unique_keys :: "game \<Rightarrow> board \<Rightarrow> bool" where
  "unique_keys g b0 \<longleftrightarrow>
     (\<forall>k b k' b'. (k, b) \<in> reach g b0 \<longrightarrow> (k', b') \<in> reach g b0 \<longrightarrow>
        getStateHashKey g b = getStateHashKey g b' \<longrightarrow> b = b')"

definition reach_keys :: "game \<Rightarrow> board \<Rightarrow> string set" where
  "reach_keys g b0 = key_of g ` snd ` reach g b0"

text \<open>The outcome of a complete search: -1 when no solved board is reachable, and
  otherwise the least number of moves.  The outcome of a search to depth \<open>d\<close>: -1 when no
  solved board is reachable by \<open>d\<close> moves or fewer, and otherwise a number of moves, at most
  \<open>d\<close>, that reaches one.\<close>

definition complete_result :: "game \<Rightarrow> board \<Rightarrow> int \<Rightarrow> bool" where
  "complete_result g b0 r \<longleftrightarrow>
     (r = - 1 \<and> (\<forall>n. \<not> solvable_in g b0 n)) \<or>
     (0 < r \<and> solvable_in g b0 r \<and> (\<forall>k < r. \<not> solvable_in g b0 k))"

definition dls_result :: "game \<Rightarrow> board \<Rightarrow> int \<Rightarrow> int \<Rightarrow> bool" where
  "dls_result g b0 d r \<longleftrightarrow>
     (r = - 1 \<and> (\<forall>j \<le> d. \<not> solvable_in g b0 j)) \<or>
     (0 < r \<and> r \<le> d \<and> solvable_in g b0 r)"

subsection \<open>The invariant of the breadth-first loop\<close>

text \<open>A board is closed when all its successors are unsolved and in the table.\<close>

definition closed :: "game \<Rightarrow> hash_table \<Rightarrow> board \<Rightarrow> bool" where
  "closed g t b \<longleftrightarrow>
     (\<forall>b' \<in> set (successors g b). \<not> checkGameComplete g b' \<and> key_of g b' \<in> dkeys t)"

text \<open>The queue holds nodes of cost \<open>c\<close> and \<open>c + 1\<close> in this order, each at the least
  number of moves to its board; every board in the table is in the queue, closed, or the
  board being expanded (the set \<open>X\<close>); every board within \<open>c\<close> moves is in the table and
  every board within fewer moves is closed.\<close>

definition bfs_J :: "game \<Rightarrow> board \<Rightarrow> int \<Rightarrow> board set \<Rightarrow> fifo \<times> hash_table \<Rightarrow> bool" where
  "bfs_J g b0 c X qt \<longleftrightarrow> (case qt of (q, t) \<Rightarrow>
     tail_linked q \<and> table_ok t \<and> 0 \<le> c \<and>
     (\<forall>n \<in> set (chain q). c \<le> path_cost n \<and> path_cost n \<le> c + 1 \<and>
        (path_cost n, board_state n) \<in> reach g b0 \<and>
        (\<forall>k. (k, board_state n) \<in> reach g b0 \<longrightarrow> path_cost n \<le> k) \<and>
        key_of g (board_state n) \<in> dkeys t) \<and>
     sorted (map path_cost (chain q)) \<and>
     (\<forall>k b. (k, b) \<in> reach g b0 \<longrightarrow> key_of g b \<in> dkeys t \<longrightarrow>
        b \<in> board_state ` set (chain q) \<or> closed g t b \<or> b \<in> X) \<and>
     (\<forall>k b. (k, b) \<in> reach g b0 \<longrightarrow> k \<le> c \<longrightarrow> key_of g b \<in> dkeys t) \<and>
     (\<forall>k b. (k, b) \<in> reach g b0 \<longrightarrow> k < c \<longrightarrow> closed g t b))"

text \<open>The loop ends because each iteration puts a new key into the table or removes a
  node from the queue.\<close>

definition bfs_measure :: "game \<Rightarrow> board \<Rightarrow> fifo \<times> hash_table \<Rightarrow> nat" where
  "bfs_measure g b0 qt = 2 * card (reach_keys g b0 - dkeys (snd qt)) + length (chain (fst qt))"

subsection \<open>The invariant of the depth-first loop\<close>

text \<open>The cost stored for a board, and the boards that need no further expansion: those
  stored at the depth limit, and those whose successors are all unsolved and stored at a cost
  of at most one more.\<close>

definition val :: "game \<Rightarrow> hash_table \<Rightarrow> board \<Rightarrow> int" where
  "val g t b = entry_value t (key_of g b)"

definition settled :: "game \<Rightarrow> int \<Rightarrow> hash_table \<Rightarrow> board \<Rightarrow> bool" where
  "settled g d t b \<longleftrightarrow>
     d \<le> val g t b \<or>
     (\<forall>b' \<in> set (successors g b).
        \<not> checkGameComplete g b' \<and> key_of g b' \<in> dkeys t \<and> val g t b' \<le> val g t b + 1)"

text \<open>Every node of the stack is a reachable board at a cost within the limit and not
  below the stored cost of its board; every stored board is stored at a cost at which it is
  reachable, and a node of that cost is on the stack unless the board is settled or being
  expanded (the set \<open>X\<close>).\<close>

definition dfs_K :: "game \<Rightarrow> board \<Rightarrow> int \<Rightarrow> (board \<times> int) set \<Rightarrow> STATE_NODE list \<times> hash_table \<Rightarrow> bool" where
  "dfs_K g b0 d X st \<longleftrightarrow> (case st of (stack, t) \<Rightarrow>
     table_ok t \<and>
     (\<forall>n \<in> set stack. (path_cost n, board_state n) \<in> reach g b0 \<and> path_cost n \<le> d \<and>
        key_of g (board_state n) \<in> dkeys t \<and> val g t (board_state n) \<le> path_cost n) \<and>
     (\<forall>k b. (k, b) \<in> reach g b0 \<longrightarrow> key_of g b \<in> dkeys t \<longrightarrow>
        (val g t b, b) \<in> reach g b0 \<and>
        ((\<exists>n \<in> set stack. board_state n = b \<and> path_cost n = val g t b) \<or>
         settled g d t b \<or> (b, val g t b) \<in> X)) \<and>
     key_of g b0 \<in> dkeys t \<and> val g t b0 = 0)"

text \<open>A table grows and its costs only decrease.  The loop ends because each iteration
  lowers the cost of a key (an absent key counts as \<open>d + 1\<close>) or shortens the stack.\<close>

definition table_le :: "hash_table \<Rightarrow> hash_table \<Rightarrow> bool" where
  "table_le t t' \<longleftrightarrow>
     dkeys t \<subseteq> dkeys t' \<and> (\<forall>k \<in> dkeys t. entry_value t' k \<le> entry_value t k)"

definition weight :: "int \<Rightarrow> hash_table \<Rightarrow> string \<Rightarrow> nat" where
  "weight d t k = (if k \<in> dkeys t then nat (entry_value t k) else nat d + 1)"

definition dfs_measure :: "game \<Rightarrow> board \<Rightarrow> int \<Rightarrow> STATE_NODE list \<times> hash_table \<Rightarrow> nat" where
  "dfs_measure g b0 d st = 2 * sum (weight d (snd st)) (reach_keys g b0) + length (fst st)"

text \<open>A corridor of three cells in front of the goal cell, and the two boards reached from
  it.\<close>

definition ex_game9 :: game where
  "ex_game9 = \<lparr>board_height = 3, board_width = 5, max_block_num = 2\<rparr>"

definition ex_board9 :: board where
  "ex_board9 = [[1, 1, 1, 1, 1], [1, 2, 0, 0, - 1], [1, 1, 1, 1, 1]]"

definition ex_board9a :: board where
  "ex_board9a = [[1, 1, 1, 1, 1], [1, 0, 2, 0, - 1], [1, 1, 1, 1, 1]]"

definition ex_board9b :: board where
  "ex_board9b = [[1, 1, 1, 1, 1], [1, 0, 0, 2, - 1], [1, 1, 1, 1, 1]]"

text \<open>A sufficient condition for distinct keys: the board has a single goal cell, at
  \<open>p\<close>, and the rest of the border ring holds wall cells.\<close>

definition on_border :: "game \<Rightarrow> nat \<times> nat \<Rightarrow> bool" where
  "on_border g ij \<longleftrightarrow>
     fst ij = 0 \<or> snd ij = 0 \<or> fst ij + 1 = board_height g \<or> snd ij + 1 = board_width g"

definition framed :: "game \<Rightarrow> nat \<times> nat \<Rightarrow> board \<Rightarrow> bool" where
  "framed g p b \<longleftrightarrow>
     (\<forall>ij \<in> set (positions g).
        (cell b (fst ij) (snd ij) = - 1 \<longleftrightarrow> ij = p) \<and>
        (on_border g ij \<and> ij \<noteq> p \<longrightarrow> cell b (fst ij) (snd ij) = 1))"

section \<open>Properties of the relabelling\<close>


lemma scan_rows: "scan g b = concat (rows g b)"
  by (simp add: scan_def rows_def positions_def List.product_concat_map map_concat comp_def)

lemma rows_wf: "wf_board g b \<Longrightarrow> rows g b = b"
proof -
  assume wf: "wf_board g b"
  have "\<And>i. i < length b \<Longrightarrow> map (\<lambda>j. b ! i ! j) [0..<board_width g] = b ! i"
  proof -
    fix i assume "i < length b"
    then have "length (b ! i) = board_width g" using wf by (simp add: wf_board_def)
    then show "map (\<lambda>j. b ! i ! j) [0..<board_width g] = b ! i"
      using map_nth [of "b ! i"] by simp
  qed
  then have "map (\<lambda>i. map (\<lambda>j. b ! i ! j) [0..<board_width g]) [0..<length b] = map (\<lambda>i. b ! i) [0..<length b]"
    by simp
  then show ?thesis using wf by (simp add: rows_def cell_def wf_board_def map_nth)
qed

lemma wf_rows: "wf_board g (rows g b)"
  by (auto simp: wf_board_def rows_def)

lemma normalize_fun_rows: "normalize_fun g b = map (map (remap_cell (remap_plan g b))) (rows g b)"
  by (simp add: normalize_fun_def rows_def)

lemma wf_normalize_fun: "wf_board g (normalize_fun g b)"
  by (auto simp: wf_board_def normalize_fun_def)


lemma label_index_append_in: "d \<in> set ds \<Longrightarrow> label_index (ds @ es) d = label_index ds d"
  by (induction ds) auto

lemma label_index_append_new: "c \<notin> set ds \<Longrightarrow> label_index (ds @ [c]) c = length ds"
  by (induction ds) auto

lemma label_index_inj: "c \<in> set ds \<Longrightarrow> d \<in> set ds \<Longrightarrow> label_index ds c = label_index ds d \<Longrightarrow> c = d"
  by (induction ds) (auto split: if_splits)

lemma label_index_map: "inj_on f (insert c (set ds)) \<Longrightarrow> label_index (map f ds) (f c) = label_index ds c"
  by (induction ds) (auto simp: inj_on_def)

lemma plan_inv_step: "plan_inv ds p \<Longrightarrow> plan_inv (note_label ds c) (plan_step p c)"
  by (cases p) (auto simp: plan_inv_def note_label_def label_index_append_in label_index_append_new)

lemma plan_inv_foldl: "plan_inv ds p \<Longrightarrow> plan_inv (foldl note_label ds cs) (foldl plan_step p cs)"
  by (induction cs arbitrary: ds p) (auto simp: plan_inv_step)

lemma plan_inv_init: "plan_inv [] (\<lambda>_. False, \<lambda>_. 0, 3)"
  by (simp add: plan_inv_def)

lemma set_foldl_note_label: "set (foldl note_label ds cs) = set ds \<union> {c \<in> set cs. c > 2}"
  by (induction cs arbitrary: ds) (auto simp: note_label_def)

lemma set_labels_in_order: "set (labels_in_order cs) = {c \<in> set cs. c > 2}"
  by (simp add: labels_in_order_def set_foldl_note_label)

lemma label_index_less: "c \<in> set ds \<Longrightarrow> label_index ds c < length ds"
  by (induction ds) auto

lemma distinct_labels_in_order: "distinct (labels_in_order cs)"
  using plan_inv_foldl [OF plan_inv_init, of cs] 
  by (simp add: labels_in_order_def plan_inv_def split: prod.splits)

lemma remap_cell_relabel:
  assumes "c \<in> set (scan g b)"
  shows "remap_cell (remap_plan g b) c = relabel (scan g b) c"
proof -
  have inv: "plan_inv (labels_in_order (scan g b)) (remap_plan g b)"
    unfolding labels_in_order_def remap_plan_def by (rule plan_inv_foldl [OF plan_inv_init])
  show ?thesis
  proof (cases "c > 2")
    case True
    with assms have "c \<in> set (labels_in_order (scan g b))" by (simp add: set_labels_in_order)
    with inv True show ?thesis
      by (auto simp: plan_inv_def remap_cell_def relabel_def split: prod.splits)
  next
    case False
    then show ?thesis by (simp add: remap_cell_def relabel_def split: prod.splits)
  qed
qed

lemma normalize_fun_relabel: "normalize_fun g b = map (map (relabel (scan g b))) (rows g b)"
proof -
  have "\<And>r c. r \<in> set (rows g b) \<Longrightarrow> c \<in> set r \<Longrightarrow> c \<in> set (scan g b)"
    by (auto simp: scan_rows)
  then show ?thesis
    unfolding normalize_fun_rows by (auto simp: remap_cell_relabel)
qed

lemma normalize_fun_spec: "wf_board g b \<Longrightarrow> normalize_fun g b = normalize_spec b"
  by (simp add: normalize_fun_relabel normalize_spec_def rows_wf scan_rows)


lemma note_label_map:
  assumes "inj_on f (insert c (set ds))" and "f c > 2 \<longleftrightarrow> c > 2"
  shows "note_label (map f ds) (f c) = map f (note_label ds c)"
  using assms by (auto simp: note_label_def inj_on_def)

lemma foldl_note_label_map:
  assumes "inj_on f (set ds \<union> set cs)" and "\<forall>c \<in> set cs. f c > 2 \<longleftrightarrow> c > 2"
  shows "foldl note_label (map f ds) (map f cs) = map f (foldl note_label ds cs)"
  using assms
proof (induction cs arbitrary: ds)
  case Nil
  then show ?case by simp
next
  case (Cons c cs)
  have 1: "note_label (map f ds) (f c) = map f (note_label ds c)"
    using Cons.prems by (intro note_label_map) (auto simp: inj_on_def)
  have 2: "inj_on f (set (note_label ds c) \<union> set cs)"
    using Cons.prems(1) by (auto simp: note_label_def inj_on_def)
  show ?case using Cons.IH [OF 2] Cons.prems(2) by (simp add: 1)
qed

lemma labels_in_order_map:
  assumes "inj_on f (set cs)" and "\<forall>c \<in> set cs. f c > 2 \<longleftrightarrow> c > 2"
  shows "labels_in_order (map f cs) = map f (labels_in_order cs)"
  using foldl_note_label_map [of f "[]" cs] assms by (simp add: labels_in_order_def)

lemma relabel_map:
  assumes inj: "inj_on f (set cs)" and gt: "\<forall>c \<in> set cs. f c > 2 \<longleftrightarrow> c > 2"
    and fx: "\<forall>c \<in> set cs. c \<le> 2 \<longrightarrow> f c = c" and c: "c \<in> set cs"
  shows "relabel (map f cs) (f c) = relabel cs c"
proof (cases "c > 2")
  case True
  have "inj_on f (insert c (set (labels_in_order cs)))"
    using inj c by (auto simp: set_labels_in_order inj_on_def)
  then have "label_index (map f (labels_in_order cs)) (f c) = label_index (labels_in_order cs) c"
    by (rule label_index_map)
  with True gt c show ?thesis by (simp add: relabel_def labels_in_order_map [OF inj gt])
next
  case False
  with gt fx c show ?thesis by (auto simp: relabel_def)
qed

lemma relabel_gt: "c \<in> set cs \<Longrightarrow> relabel cs c > 2 \<longleftrightarrow> c > 2"
  by (simp add: relabel_def)

lemma relabel_le: "c \<le> 2 \<Longrightarrow> relabel cs c = c"
  by (simp add: relabel_def)

lemma relabel_inj: "inj_on (relabel cs) (set cs)"
proof (rule inj_onI)
  fix c d assume c: "c \<in> set cs" and d: "d \<in> set cs" and eq: "relabel cs c = relabel cs d"
  show "c = d"
  proof (cases "c > 2")
    case True
    then have "d > 2" using eq by (auto simp: relabel_def split: if_splits)
    with True c d eq show ?thesis
      by (auto simp: relabel_def set_labels_in_order intro!: label_index_inj [of c "labels_in_order cs" d])
  next
    case False
    then have "\<not> d > 2" using eq by (auto simp: relabel_def split: if_splits)
    with False eq show ?thesis by (simp add: relabel_def)
  qed
qed

lemma map_map_cong_concat:
  "(\<And>c. c \<in> set (concat b) \<Longrightarrow> f c = h c) \<Longrightarrow> map (map f) b = map (map h) b"
  by (induction b) auto

lemma normalize_fun_rename:
  assumes wf: "wf_board g b"
    and inj: "inj_on f (set (concat b))"
    and gt: "\<forall>c \<in> set (concat b). f c > 2 \<longleftrightarrow> c > 2"
    and fx: "\<forall>c \<in> set (concat b). c \<le> 2 \<longrightarrow> f c = c"
  shows "normalize_fun g (map (map f) b) = normalize_fun g b"
proof -
  have wf': "wf_board g (map (map f) b)" using wf by (auto simp: wf_board_def)
  have "normalize_fun g (map (map f) b) = map (map (relabel (concat (map (map f) b)))) (map (map f) b)"
    using wf' by (simp add: normalize_fun_relabel rows_wf scan_rows)
  also have "concat (map (map f) b) = map f (concat b)" by (simp add: map_concat)
  also have "map (map (relabel (map f (concat b)))) (map (map f) b) = map (map (\<lambda>c. relabel (map f (concat b)) (f c))) b"
    by (simp add: comp_def)
  also have "\<dots> = map (map (relabel (concat b))) b"
    by (rule map_map_cong_concat) (rule relabel_map [OF inj gt fx])
  also have "\<dots> = normalize_fun g b"
    using wf by (simp add: normalize_fun_relabel rows_wf scan_rows)
  finally show ?thesis .
qed

lemma normalize_fun_idem: "normalize_fun g (normalize_fun g b) = normalize_fun g b"
proof -
  let ?cs = "scan g b"
  let ?r = "rows g b"
  have wfr: "wf_board g ?r" by (rule wf_rows)
  have cs: "concat ?r = ?cs" by (simp add: scan_rows)
  have N: "normalize_fun g b = map (map (relabel ?cs)) ?r" by (rule normalize_fun_relabel)
  have Nr: "normalize_fun g ?r = map (map (relabel ?cs)) ?r"
    by (simp add: normalize_fun_relabel rows_wf [OF wfr] scan_rows)
  have "normalize_fun g (map (map (relabel ?cs)) ?r) = normalize_fun g ?r"
    using wfr
  proof (rule normalize_fun_rename)
    show "inj_on (relabel ?cs) (set (concat ?r))" unfolding cs by (rule relabel_inj)
    show "\<forall>c\<in>set (concat ?r). (2 < relabel ?cs c) = (2 < c)" unfolding cs by (simp add: relabel_gt)
    show "\<forall>c\<in>set (concat ?r). c \<le> 2 \<longrightarrow> relabel ?cs c = c" by (simp add: relabel_le)
  qed
  then show ?thesis by (simp add: N Nr)
qed

section \<open>Properties of the best-node selection\<close>

lemma best_scan_None:
  "best_scan g ns sp sn = None \<longleftrightarrow> sn = None \<and> (\<forall>n \<in> set ns. sp \<le> f_of_n g n)"
  by (induction ns arbitrary: sp sn) (auto simp: not_less)

lemma best_scan_Some:
  assumes "best_scan g ns sp sn = Some r"
    and "\<And>n. sn = Some n \<Longrightarrow> f_of_n g n = sp"
  shows "(r \<in> set ns \<or> sn = Some r) \<and> f_of_n g r \<le> sp \<and> (\<forall>m \<in> set ns. f_of_n g r \<le> f_of_n g m)"
  using assms
proof (induction ns arbitrary: sp sn)
  case Nil
  then show ?case by simp
next
  case (Cons n ns)
  show ?case
  proof (cases "f_of_n g n < sp")
    case True
    with Cons.prems have "best_scan g ns (f_of_n g n) (Some n) = Some r" by simp
    from Cons.IH [OF this] have
      "(r \<in> set ns \<or> Some n = Some r) \<and> f_of_n g r \<le> f_of_n g n
         \<and> (\<forall>m \<in> set ns. f_of_n g r \<le> f_of_n g m)"
      by simp
    with True show ?thesis by auto
  next
    case False
    with Cons.prems have "best_scan g ns sp sn = Some r" by simp
    from Cons.IH [OF this Cons.prems(2)] have
      "(r \<in> set ns \<or> sn = Some r) \<and> f_of_n g r \<le> sp \<and> (\<forall>m \<in> set ns. f_of_n g r \<le> f_of_n g m)"
      by simp
    with False show ?thesis by auto
  qed
qed

section \<open>A* search: the best node\<close>


lemma astar_loop_no_best:
  assumes "q \<noteq> []" and "getBestNode g q = None"
  shows "astar_loop pf g (\<lparr>chain = q, tail_linked = l\<rparr>, t) = None"
  using assms by (subst astar_loop.simps) (simp add: bfsQueueIsEmpty_def)

text \<open>
  Claim C10.  \<open>getBestNode\<close> returns a node exactly when some node of the frontier has
  \<open>path_cost + estimate\<close> below \<open>WORST_CASE_DISTANCE = 1000\<close>; the node it returns is
  a node of the frontier with the least \<open>path_cost + estimate\<close>; and when the frontier
  is not empty and no node is below 1000, it returns \<open>NULL\<close>, which \<open>aStarSearch\<close>
  dereferences: the search has no result.
\<close>

theorem getBestNode_minimal:
  "(getBestNode g q \<noteq> None \<longleftrightarrow> (\<exists>n \<in> set q. f_of_n g n < WORST_CASE_DISTANCE)) \<and>
   (\<forall>n. getBestNode g q = Some n \<longrightarrow> n \<in> set q \<and> (\<forall>m \<in> set q. f_of_n g n \<le> f_of_n g m)) \<and>
   (q \<noteq> [] \<and> (\<forall>n \<in> set q. WORST_CASE_DISTANCE \<le> f_of_n g n) \<longrightarrow>
      astar_loop pf g (\<lparr>chain = q, tail_linked = l\<rparr>, t) = None)"
proof -
  have 1: "getBestNode g q \<noteq> None \<longleftrightarrow> (\<exists>n \<in> set q. f_of_n g n < WORST_CASE_DISTANCE)"
    by (auto simp: getBestNode_def best_scan_None not_le)
  have 2: "n \<in> set q \<and> (\<forall>m \<in> set q. f_of_n g n \<le> f_of_n g m)" if "getBestNode g q = Some n" for n
  proof -
    from that have "best_scan g q WORST_CASE_DISTANCE None = Some n" by (simp add: getBestNode_def)
    from best_scan_Some [OF this] show ?thesis by simp
  qed
  have 3: "astar_loop pf g (\<lparr>chain = q, tail_linked = l\<rparr>, t) = None"
    if "q \<noteq> [] \<and> (\<forall>n \<in> set q. WORST_CASE_DISTANCE \<le> f_of_n g n)"
  proof -
    from that have "q \<noteq> []" and "getBestNode g q = None"
      by (simp_all add: getBestNode_def best_scan_None)
    then show ?thesis by (rule astar_loop_no_best)
  qed
  from 1 2 3 show ?thesis by blast
qed

lemma h1: "get_heuristic ex_game [[2, - 1]] = 1"
  unfolding ex_game_def by code_simp

theorem getBestNode_minimal_witness:
  "getBestNode ex_game [Node 5 [[2, - 1]] None None, Node 0 [[2, - 1]] None None]
     = Some (Node 0 [[2, - 1]] None None) \<and>
   f_of_n ex_game (Node 0 [[2, - 1]] None None) \<le> f_of_n ex_game (Node 5 [[2, - 1]] None None) \<and>
   astar_loop exact_platform ex_game
     (\<lparr>chain = [Node 1000 [[2, - 1]] None None], tail_linked = True\<rparr>, []) = None"
proof -
  let ?q = "[Node 5 [[2, - 1]] None None, Node 0 [[2, - 1]] None None]"
  have best: "getBestNode ex_game ?q = Some (Node 0 [[2, - 1]] None None)"
    by (simp add: getBestNode_def f_of_n_def h1 WORST_CASE_DISTANCE_def)
  have "WORST_CASE_DISTANCE \<le> f_of_n ex_game (Node 1000 [[2, - 1]] None None)"
    by (simp add: f_of_n_def h1 WORST_CASE_DISTANCE_def)
  with getBestNode_minimal [of ex_game "[Node 1000 [[2, - 1]] None None]" "exact_platform" True "[]"]
  have "astar_loop exact_platform ex_game
     (\<lparr>chain = [Node 1000 [[2, - 1]] None None], tail_linked = True\<rparr>, []) = None"
    by simp
  moreover from getBestNode_minimal [of ex_game ?q "exact_platform" True "[]"] best
  have "f_of_n ex_game (Node 0 [[2, - 1]] None None) \<le> f_of_n ex_game (Node 5 [[2, - 1]] None None)"
    by simp
  ultimately show ?thesis using best by simp
qed

section \<open>Normalisation: idempotence and canonical labels\<close>


lemma labels_in_order_first_occurrence:
  "labels_in_order cs = rev (remdups (rev (filter (\<lambda>c. 2 < c) cs)))"
proof (induction cs rule: rev_induct)
  case Nil
  then show ?case by (simp add: labels_in_order_def)
next
  case (snoc x xs)
  have "labels_in_order (xs @ [x]) = note_label (labels_in_order xs) x"
    by (simp add: labels_in_order_def)
  with snoc show ?case by (auto simp: note_label_def)
qed

lemma cell_normalize_fun:
  "i < board_height g \<Longrightarrow> j < board_width g \<Longrightarrow>
   cell (normalize_fun g b) i j = remap_cell (remap_plan g b) (cell b i j)"
  by (simp add: normalize_fun_def cell_def)

lemma remap_cell_le: "c \<le> 2 \<Longrightarrow> remap_cell p c = c"
  by (simp add: remap_cell_def split: prod.splits)

section \<open>normalizeState: the bounds of its tables\<close>


lemma init_tables_out_of_bounds:
  assumes "\<exists>i \<in> set is. \<not> (0 \<le> i \<and> nat i < length seen)"
  shows "init_tables seen remap is = None"
  using assms
proof (induction "is" arbitrary: seen remap)
  case Nil
  then show ?case by simp
next
  case (Cons i "is")
  show ?case
  proof (cases "0 \<le> i \<and> nat i < length seen")
    case False
    then show ?thesis by (auto simp: tab_set_def)
  next
    case True
    with Cons.prems have ex: "\<exists>k \<in> set is. \<not> (0 \<le> k \<and> nat k < length (seen[nat i := False]))"
      by auto
    show ?thesis
      using True Cons.IH [OF ex] by (simp add: tab_set_def split: option.splits)
  qed
qed

text \<open>
  Claim C9.  The tables hold \<open>max_block_num\<close> entries, and the initialising loop
  writes the entries \<open>0 .. max_block_num\<close>: the last write, to index \<open>max_block_num\<close>,
  is outside both tables, whatever the board.
\<close>

theorem normalizeState_table_overflow:
  assumes "0 \<le> max_block_num g" and "length seen0 = nat (max_block_num g)"
  shows "normalizeState_mem seen0 remap0 g b = None"
proof -
  have "max_block_num g \<in> set [0..max_block_num g]" using assms(1) by simp
  moreover have "\<not> (0 \<le> max_block_num g \<and> nat (max_block_num g) < length seen0)"
    using assms(2) by simp
  ultimately have "init_tables seen0 remap0 [0..max_block_num g] = None"
    by (intro init_tables_out_of_bounds) blast
  then show ?thesis by (simp add: normalizeState_mem_def)
qed

theorem normalizeState_table_overflow_witness:
  "0 \<le> max_block_num ex_game3 \<and> length [False, False, False] = nat (max_block_num ex_game3) \<and>
   3 \<in> set (concat ex_board3) \<and>
   normalizeState_mem [False, False, False] [0, 0, 0] ex_game3 ex_board3 = None"
proof -
  have 1: "0 \<le> max_block_num ex_game3" by (simp add: ex_game3_def)
  have 2: "length [False, False, False] = nat (max_block_num ex_game3)" by (simp add: ex_game3_def)
  have 3: "3 \<in> set (concat ex_board3)" by (simp add: ex_board3_def)
  from normalizeState_table_overflow [OF 1 2, of "[0, 0, 0]" ex_board3] 1 2 3 show ?thesis by simp
qed

lemma init_tables_in_bounds:
  assumes "\<forall>i \<in> set is. 0 \<le> i \<and> nat i < n" and "n \<le> length seen" and "n \<le> length remap"
  shows "\<exists>seen' remap'. init_tables seen remap is = Some (seen', remap') \<and>
           length seen' = length seen \<and> length remap' = length remap \<and>
           (\<forall>k < n. (int k \<in> set is \<longrightarrow> seen' ! k = False \<and> remap' ! k = 0) \<and>
                     (int k \<notin> set is \<longrightarrow> seen' ! k = seen ! k \<and> remap' ! k = remap ! k))"
  using assms
proof (induction "is" arbitrary: seen remap)
  case Nil
  then show ?case by simp
next
  case (Cons i "is")
  from Cons.prems have i: "0 \<le> i" "nat i < n" by auto
  with Cons.prems(2,3) have il: "nat i < length seen" "nat i < length remap" by simp_all
  let ?s = "seen[nat i := False]" and ?r = "remap[nat i := 0]"
  have "\<forall>k \<in> set is. 0 \<le> k \<and> nat k < n" using Cons.prems by auto
  moreover have "n \<le> length ?s" "n \<le> length ?r" using Cons.prems(2,3) by simp_all
  ultimately obtain seen' remap' where
    r: "init_tables ?s ?r is = Some (seen', remap')" "length seen' = length ?s"
       "length remap' = length ?r"
    and v: "\<forall>k < n. (int k \<in> set is \<longrightarrow> seen' ! k = False \<and> remap' ! k = 0) \<and>
                     (int k \<notin> set is \<longrightarrow> seen' ! k = ?s ! k \<and> remap' ! k = ?r ! k)"
    using Cons.IH [of ?s ?r] by blast
  have "init_tables seen remap (i # is) = Some (seen', remap')"
    using i il r(1) by (simp add: tab_set_def)
  moreover have "\<forall>k < n. (int k \<in> set (i # is) \<longrightarrow> seen' ! k = False \<and> remap' ! k = 0) \<and>
                     (int k \<notin> set (i # is) \<longrightarrow> seen' ! k = seen ! k \<and> remap' ! k = remap ! k)"
  proof (intro allI impI)
    fix k assume k: "k < n"
    show "(int k \<in> set (i # is) \<longrightarrow> seen' ! k = False \<and> remap' ! k = 0) \<and>
          (int k \<notin> set (i # is) \<longrightarrow> seen' ! k = seen ! k \<and> remap' ! k = remap ! k)"
    proof (cases "int k = i")
      case True
      then have ki: "nat i = k" by simp
      have "?s ! k = False" "?r ! k = 0"
        using ki il by simp_all
      with v k True show ?thesis by (cases "int k \<in> set is") auto
    next
      case False
      then have "nat i \<noteq> k" using i by auto
      then have "?s ! k = seen ! k" "?r ! k = remap ! k" by simp_all
      with v k False show ?thesis by auto
    qed
  qed
  ultimately show ?case using r by simp
qed

lemma plan_mem_sim:
  assumes "tables_rel n seenL remapL seenF remapF"
    and "\<forall>c \<in> set cs. 2 < c \<longrightarrow> nat c < n"
  shows "\<exists>seenL' remapL' seenF' remapF' cnt'.
           plan_mem (seenL, remapL, cnt) cs = Some (seenL', remapL', cnt') \<and>
           foldl plan_step (seenF, remapF, cnt) cs = (seenF', remapF', cnt') \<and>
           tables_rel n seenL' remapL' seenF' remapF'"
  using assms
proof (induction cs arbitrary: seenL remapL seenF remapF cnt)
  case Nil
  then show ?case by simp
next
  case (Cons c cs)
  have rest: "\<forall>c \<in> set cs. 2 < c \<longrightarrow> nat c < n" using Cons.prems(2) by simp
  show ?case
  proof (cases "2 < c")
    case False
    with Cons.IH [OF Cons.prems(1) rest, of cnt] show ?thesis by simp
  next
    case True
    with Cons.prems(2) have c: "0 \<le> c" "nat c < n" by auto
    have "n \<le> length seenL" "n \<le> length remapL"
      using Cons.prems(1) by (simp_all add: tables_rel_def)
    with c have len: "nat c < length seenL" "nat c < length remapL" by simp_all
    have agree: "seenL ! nat c = seenF c" using Cons.prems(1) c by (auto simp: tables_rel_def)
    show ?thesis
    proof (cases "seenF c")
      case seen: True
      with Cons.IH [OF Cons.prems(1) rest, of cnt] True c len agree show ?thesis
        by (simp add: tab_get_def)
    next
      case unseen: False
      have rel': "tables_rel n (seenL[nat c := True]) (remapL[nat c := cnt]) (seenF(c := True)) (remapF(c := cnt))"
        using Cons.prems(1) c
        by (auto simp: tables_rel_def nth_list_update)
      from Cons.IH [OF rel' rest, of "cnt + 1"] obtain seenL' remapL' seenF' remapF' cnt' where
        r: "plan_mem (seenL[nat c := True], remapL[nat c := cnt], cnt + 1) cs = Some (seenL', remapL', cnt')"
           "foldl plan_step (seenF(c := True), remapF(c := cnt), cnt + 1) cs = (seenF', remapF', cnt')"
           "tables_rel n seenL' remapL' seenF' remapF'"
        by blast
      have "plan_mem (seenL, remapL, cnt) (c # cs) = Some (seenL', remapL', cnt')"
        using True c len agree unseen r(1) by (simp add: tab_get_def tab_set_def)
      moreover have "foldl plan_step (seenF, remapF, cnt) (c # cs) = (seenF', remapF', cnt')"
        using True unseen r(2) by simp
      ultimately show ?thesis using r(3) by blast
    qed
  qed
qed

lemma remap_row_mem_sim:
  assumes "\<forall>i < n. remapL ! i = remapF (int i)" and "n \<le> length remapL"
    and "\<forall>c \<in> set r. 2 < c \<longrightarrow> nat c < n"
  shows "remap_row_mem remapL r = Some (map (\<lambda>c. if 2 < c then remapF c else c) r)"
  using assms by (induction r) (auto simp: tab_get_def)

lemma remap_rows_mem_sim:
  assumes "\<forall>i < n. remapL ! i = remapF (int i)" and "n \<le> length remapL"
    and "\<forall>c \<in> set (concat rs). 2 < c \<longrightarrow> nat c < n"
  shows "remap_rows_mem remapL rs = Some (map (map (\<lambda>c. if 2 < c then remapF c else c)) rs)"
  using assms
proof (induction rs)
  case Nil
  then show ?case by simp
next
  case (Cons r rs)
  have "remap_row_mem remapL r = Some (map (\<lambda>c. if 2 < c then remapF c else c) r)"
    using Cons.prems by (intro remap_row_mem_sim [where n = n]) auto
  moreover have "remap_rows_mem remapL rs = Some (map (map (\<lambda>c. if 2 < c then remapF c else c)) rs)"
    using Cons.prems by (intro Cons.IH) auto
  ultimately show ?case by simp
qed

text \<open>When the entry at index \<open>max_block_num\<close> can be accessed in both tables and no
  label on the board is above \<open>max_block_num\<close>, every access is inside the tables, and the
  result is the board that \<open>normalize_fun\<close> describes.\<close>

lemma normalizeState_mem_fit:
  assumes fit: "max_block_num g < int (length seen0)" "max_block_num g < int (length remap0)"
    and labels: "\<forall>c \<in> set (scan g b). c \<le> max_block_num g"
  shows "normalizeState_mem seen0 remap0 g b = Some (normalize_fun g b)"
proof -
  let ?n = "nat (max_block_num g + 1)"
  have n: "?n \<le> length seen0" "?n \<le> length remap0" using fit by simp_all
  have idx: "\<forall>i \<in> set [0..max_block_num g]. 0 \<le> i \<and> nat i < ?n" by auto
  from init_tables_in_bounds [OF idx n] obtain seen1 remap1 where
    init: "init_tables seen0 remap0 [0..max_block_num g] = Some (seen1, remap1)"
    and l1: "length seen1 = length seen0" "length remap1 = length remap0"
    and v1: "\<forall>k < ?n. (int k \<in> set [0..max_block_num g] \<longrightarrow> seen1 ! k = False \<and> remap1 ! k = 0)"
    by blast
  have "\<forall>k < ?n. int k \<in> set [0..max_block_num g]" by auto
  with v1 have "\<forall>k < ?n. seen1 ! k = False \<and> remap1 ! k = 0" by blast
  then have rel: "tables_rel ?n seen1 remap1 (\<lambda>_. False) (\<lambda>_. 0)"
    using l1 n by (simp add: tables_rel_def)
  have inb: "\<forall>c \<in> set (scan g b). 2 < c \<longrightarrow> nat c < ?n" using labels by auto
  from plan_mem_sim [OF rel inb, of 3] obtain seenL remapL seenF remapF cnt where
    pm: "plan_mem (seen1, remap1, 3) (scan g b) = Some (seenL, remapL, cnt)"
    and pf: "remap_plan g b = (seenF, remapF, cnt)"
    and rel': "tables_rel ?n seenL remapL seenF remapF"
    unfolding remap_plan_def by blast
  have "remap_rows_mem remapL (rows g b) = Some (map (map (\<lambda>c. if 2 < c then remapF c else c)) (rows g b))"
  proof (rule remap_rows_mem_sim [where n = ?n])
    show "\<forall>i < ?n. remapL ! i = remapF (int i)" using rel' by (simp add: tables_rel_def)
    show "?n \<le> length remapL" using rel' by (simp add: tables_rel_def)
    show "\<forall>c \<in> set (concat (rows g b)). 2 < c \<longrightarrow> nat c < ?n"
      using inb by (simp add: scan_rows)
  qed
  moreover have "normalize_fun g b = map (map (\<lambda>c. if 2 < c then remapF c else c)) (rows g b)"
    by (simp add: normalize_fun_rows pf remap_cell_def)
  ultimately show ?thesis by (simp add: normalizeState_mem_def init pm)
qed

lemma normalizeState_mem_one_more:
  assumes m: "0 \<le> max_block_num g"
    and len: "length seen0 = nat (max_block_num g) + 1" "length remap0 = nat (max_block_num g) + 1"
    and labels: "\<forall>c \<in> set (scan g b). c \<le> max_block_num g"
  shows "normalizeState_mem seen0 remap0 g b = Some (normalize_fun g b)"
  using m len by (intro normalizeState_mem_fit labels) simp_all

text \<open>\<open>normalizeState\<close> on a platform: it has a result where the tables fit, and none
  where the blocks end with the entries asked for.\<close>

lemma normalizeState_fit:
  assumes "tables_fit pf g" and "\<forall>c \<in> set (scan g b). c \<le> max_block_num g"
  shows "normalizeState pf g b = Some (normalize_fun g b)"
  using assms unfolding normalizeState_def tables_fit_def by (intro normalizeState_mem_fit) simp_all

lemma normalizeState_exact:
  assumes "0 \<le> max_block_num g" and "length (malloc_bool pf (max_block_num g)) = nat (max_block_num g)"
  shows "normalizeState pf g b = None"
proof -
  have "max_block_num g \<in> set [0..max_block_num g]" using assms(1) by simp
  moreover have "\<not> (0 \<le> max_block_num g \<and> nat (max_block_num g) < length (malloc_bool pf (max_block_num g)))"
    using assms(2) by simp
  ultimately have "init_tables (malloc_bool pf (max_block_num g)) (malloc_int pf (max_block_num g)) [0..max_block_num g] = None"
    by (intro init_tables_out_of_bounds) blast
  then show ?thesis by (simp add: normalizeState_def normalizeState_mem_def)
qed

lemma wf_scan: "wf_board g b \<Longrightarrow> scan g b = concat b"
  by (simp add: scan_rows rows_wf)

section \<open>The move generator computes the legal moves\<close>


lemma blocked_passable: "blocked p v \<longleftrightarrow> \<not> passable p v"
  by (auto simp: blocked_def passable_def)

lemma mem_positions: "(i, j) \<in> set (positions g) \<longleftrightarrow> i < board_height g \<and> j < board_width g"
  by (auto simp: positions_def)

lemma dir_bad_neighbour:
  assumes "ij \<in> set (positions g)"
  shows "\<not> dir_bad g b p d ij \<longleftrightarrow>
         (case neighbour g d ij of None \<Rightarrow> False | Some (i', j') \<Rightarrow> passable p (cell b i' j'))"
proof -
  obtain i j where ij: "ij = (i, j)" by (cases ij)
  with assms have "i < board_height g" "j < board_width g" by (simp_all add: mem_positions)
  then show ?thesis unfolding ij
    by (cases d) (auto simp: blocked_passable)
qed

lemma flag_of_step:
  "flag_of (moves_step g b p fl ij) d \<longleftrightarrow>
     flag_of fl d \<and> \<not> (cell b (fst ij) (snd ij) = p \<and> dir_bad g b p d ij)"
  by (cases d) (auto simp: moves_step_def check_up_def check_down_def check_left_def check_right_def)

lemma piece_found_step:
  "piece_found (moves_step g b p fl ij) \<longleftrightarrow> piece_found fl \<or> cell b (fst ij) (snd ij) = p"
  by (auto simp: moves_step_def check_up_def check_down_def check_left_def check_right_def)

lemma moves_of_flags_flag_of:
  "moves_of_flags p fl = map (mk_move p) (filter (flag_of fl) [UP, DOWN, LEFT, RIGHT])"
  by (simp add: moves_of_flags_def)

lemma num_step:
  assumes "num_available_moves fl = int (length (moves_of_flags p fl))"
  shows "num_available_moves (moves_step g b p fl ij)
           = int (length (moves_of_flags p (moves_step g b p fl ij)))"
  using assms
  by (simp add: moves_step_def check_up_def check_down_def check_left_def check_right_def
      moves_of_flags_def)

lemma scan_flags:
  "flag_of (foldl (moves_step g b p) fl ps) d \<longleftrightarrow>
     flag_of fl d \<and> (\<forall>ij \<in> set ps. cell b (fst ij) (snd ij) = p \<longrightarrow> \<not> dir_bad g b p d ij)"
  by (induction ps arbitrary: fl) (auto simp: flag_of_step)

lemma scan_found:
  "piece_found (foldl (moves_step g b p) fl ps) \<longleftrightarrow>
     piece_found fl \<or> (\<exists>ij \<in> set ps. cell b (fst ij) (snd ij) = p)"
  by (induction ps arbitrary: fl) (auto simp: piece_found_step)

lemma scan_num:
  "num_available_moves fl = int (length (moves_of_flags p fl)) \<Longrightarrow>
   num_available_moves (foldl (moves_step g b p) fl ps)
     = int (length (moves_of_flags p (foldl (moves_step g b p) fl ps)))"
  by (induction ps arbitrary: fl) (simp_all add: num_step)

lemma final_flags_legal:
  "flag_of (foldl (moves_step g b p) init_flags (positions g)) d \<longleftrightarrow> legal_move g b p d"
proof -
  have "flag_of init_flags d" by (cases d) (simp_all add: init_flags_def)
  moreover have "(\<forall>ij \<in> set (positions g). cell b (fst ij) (snd ij) = p \<longrightarrow> \<not> dir_bad g b p d ij)
      \<longleftrightarrow> legal_move g b p d"
    unfolding legal_move_def using dir_bad_neighbour [of _ g b p d] by blast
  ultimately show ?thesis by (simp add: scan_flags)
qed

lemma final_moves:
  "moves_of_flags p (foldl (moves_step g b p) init_flags (positions g)) = legal_moves g b p"
  unfolding moves_of_flags_flag_of legal_moves_def
  by (simp only: final_flags_legal [abs_def])

lemma present_positions: "present g b p \<longleftrightarrow> (\<exists>ij \<in> set (positions g). cell b (fst ij) (snd ij) = p)"
  by (force simp: present_def scan_def)

lemma getAvailableMoves_eq:
  "getAvailableMoves g b p =
     (int (length (legal_moves g b p)),
      if present g b p \<and> legal_moves g b p \<noteq> [] then Some (legal_moves g b p) else None)"
proof -
  let ?fl = "foldl (moves_step g b p) init_flags (positions g)"
  have "num_available_moves init_flags = int (length (moves_of_flags p init_flags))"
    by (simp add: init_flags_def moves_of_flags_def)
  then have n: "num_available_moves ?fl = int (length (legal_moves g b p))"
    using scan_num [of init_flags p g b "positions g"] by (simp add: final_moves)
  have f: "piece_found ?fl \<longleftrightarrow> present g b p"
    by (simp add: scan_found present_positions init_flags_def)
  show ?thesis
    by (simp add: getAvailableMoves_def Let_def n f final_moves)
qed

lemma legal_moves_absent: "\<not> present g b p \<Longrightarrow> legal_moves g b p = map (mk_move p) [UP, DOWN, LEFT, RIGHT]"
  by (auto simp: legal_moves_def legal_move_def present_positions)

lemma getAvailableMoves_absent: "\<not> present g b p \<Longrightarrow> getAvailableMoves g b p = (4, None)"
  by (simp add: getAvailableMoves_eq legal_moves_absent)

lemma copy_loop_present:
  assumes "\<forall>l \<in> set ls. present g b l"
  shows "copy_loop g b ls buf = Some (concat (map (legal_moves g b) ls))"
  using assms
proof (induction ls arbitrary: buf)
  case Nil
  then show ?case by simp
next
  case (Cons l ls)
  then have p: "present g b l" and rest: "\<forall>l \<in> set ls. present g b l" by simp_all
  show ?case
  proof (cases "legal_moves g b l = []")
    case True
    with p Cons.IH [OF rest] show ?thesis
      by (simp add: getAvailableMoves_eq store_moves_def)
  next
    case False
    with p Cons.IH [OF rest] show ?thesis
      by (simp add: getAvailableMoves_eq store_moves_def)
  qed
qed

lemma getAllAvailableMoves_all_present:
  assumes "\<forall>l \<in> {2..max_block_num g}. present g b l"
  shows "getAllAvailableMoves g b = Some (all_legal_moves g b)"
proof -
  have "filter (present g b) [2..max_block_num g] = [2..max_block_num g]"
    using assms by (simp add: filter_id_conv)
  then show ?thesis
    using assms by (simp add: getAllAvailableMoves_def all_legal_moves_def copy_loop_present)
qed

section \<open>The board after a move\<close>


lemma wf_cleared: "wf_board g (cleared g b p)"
  by (auto simp: wf_board_def cleared_def)

lemma cell_cleared:
  "i < board_height g \<Longrightarrow> j < board_width g \<Longrightarrow>
   cell (cleared g b p) i j = (if cell b i j = p then 0 else cell b i j)"
  by (simp add: cleared_def cell_def)

lemma wf_write_cell:
  assumes "wf_board g t"
  shows "wf_board g (write_cell t ij v)"
proof -
  have "length ((write_cell t ij v) ! i) = board_width g" if "i < board_height g" for i
  proof (cases "i = fst ij")
    case True
    with that assms show ?thesis by (simp add: wf_board_def write_cell_def)
  next
    case False
    with that assms show ?thesis by (simp add: wf_board_def write_cell_def)
  qed
  moreover have "length (write_cell t ij v) = board_height g"
    using assms by (simp add: wf_board_def write_cell_def)
  ultimately show ?thesis by (simp add: wf_board_def all_set_conv_all_nth)
qed

lemma cell_write_cell:
  assumes "wf_board g t" and "fst tgt < board_height g" and "snd tgt < board_width g"
    and "i < board_height g" and "j < board_width g"
  shows "cell (write_cell t tgt v) i j = (if (i, j) = tgt then v else cell t i j)"
proof -
  have len: "length t = board_height g" using assms(1) by (simp add: wf_board_def)
  have row: "length (t ! fst tgt) = board_width g"
    using assms(1,2) by (simp add: wf_board_def)
  show ?thesis
    using assms(2-) len row
    by (cases tgt) (auto simp: write_cell_def cell_def nth_list_update)
qed

lemma neighbour_in_grid:
  assumes "neighbour g d ij = Some tgt" and "ij \<in> set (positions g)"
  shows "tgt \<in> set (positions g)"
proof -
  obtain i j where ij: "ij = (i, j)" by (cases ij)
  with assms show ?thesis by (cases d) (auto simp: mem_positions split: if_splits)
qed

lemma fst_snd_positions: "ij \<in> set (positions g) \<longleftrightarrow> fst ij < board_height g \<and> snd ij < board_width g"
  by (cases ij) (simp add: mem_positions)

lemma place_result:
  assumes "wf_board g t" and "set ps \<subseteq> set (positions g)"
    and "\<forall>ij \<in> set ps. cell b (fst ij) (snd ij) = block_num m \<longrightarrow> neighbour g (direction m) ij \<noteq> None"
  shows "\<exists>t'. place g b m ps t = Some t' \<and> wf_board g t' \<and>
           (\<forall>xy \<in> set (positions g). cell t' (fst xy) (snd xy) =
              (if \<exists>src \<in> set ps. cell b (fst src) (snd src) = block_num m \<and>
                    neighbour g (direction m) src = Some xy
               then block_num m else cell t (fst xy) (snd xy)))"
  using assms
proof (induction ps arbitrary: t)
  case Nil
  then show ?case by simp
next
  case (Cons ij ps)
  have sub: "set ps \<subseteq> set (positions g)" using Cons.prems(2) by simp
  have nb: "\<forall>ij \<in> set ps. cell b (fst ij) (snd ij) = block_num m \<longrightarrow> neighbour g (direction m) ij \<noteq> None"
    using Cons.prems(3) by simp
  show ?case
  proof (cases "cell b (fst ij) (snd ij) = block_num m")
    case False
    with Cons.IH [OF Cons.prems(1) sub nb] show ?thesis by auto
  next
    case True
    with Cons.prems(3) obtain tgt where tgt: "neighbour g (direction m) ij = Some tgt" by auto
    have "ij \<in> set (positions g)" using Cons.prems(2) by simp
    from neighbour_in_grid [OF tgt this] have tin: "fst tgt < board_height g" "snd tgt < board_width g"
      by (simp_all add: fst_snd_positions)
    let ?t = "write_cell t tgt (block_num m)"
    have wf': "wf_board g ?t" using Cons.prems(1) by (rule wf_write_cell)
    from Cons.IH [OF wf' sub nb] obtain t' where
      r: "place g b m ps ?t = Some t'" "wf_board g t'"
      and c: "\<forall>xy \<in> set (positions g). cell t' (fst xy) (snd xy) =
              (if \<exists>src \<in> set ps. cell b (fst src) (snd src) = block_num m \<and>
                    neighbour g (direction m) src = Some xy
               then block_num m else cell ?t (fst xy) (snd xy))"
      by blast
    have "place g b m (ij # ps) t = Some t'" using True tgt r(1) by simp
    moreover have "\<forall>xy \<in> set (positions g). cell t' (fst xy) (snd xy) =
              (if \<exists>src \<in> set (ij # ps). cell b (fst src) (snd src) = block_num m \<and>
                    neighbour g (direction m) src = Some xy
               then block_num m else cell t (fst xy) (snd xy))"
    proof
      fix xy assume xy: "xy \<in> set (positions g)"
      then have b: "fst xy < board_height g" "snd xy < board_width g"
        by (simp_all add: fst_snd_positions)
      have w: "cell ?t (fst xy) (snd xy) = (if xy = tgt then block_num m else cell t (fst xy) (snd xy))"
        using cell_write_cell [OF Cons.prems(1) tin b] by simp
      show "cell t' (fst xy) (snd xy) =
              (if \<exists>src \<in> set (ij # ps). cell b (fst src) (snd src) = block_num m \<and>
                    neighbour g (direction m) src = Some xy
               then block_num m else cell t (fst xy) (snd xy))"
        using c xy w True tgt by auto
    qed
    ultimately show ?thesis using r(2) by blast
  qed
qed

lemma legal_move_neighbour:
  assumes "legal_move g b p d" and "ij \<in> set (positions g)" and "cell b (fst ij) (snd ij) = p"
  shows "neighbour g d ij \<noteq> None"
  using assms by (auto simp: legal_move_def split: option.splits)

lemma moved_result:
  assumes "legal_move g b (block_num m) (direction m)"
  shows "\<exists>t. moved g b m = Some t \<and> wf_board g t \<and>
           (\<forall>xy \<in> set (positions g). cell t (fst xy) (snd xy) =
              (if \<exists>src \<in> set (positions g). cell b (fst src) (snd src) = block_num m \<and>
                    neighbour g (direction m) src = Some xy
               then block_num m
               else if cell b (fst xy) (snd xy) = block_num m then 0 else cell b (fst xy) (snd xy)))"
proof -
  have nb: "\<forall>ij \<in> set (positions g). cell b (fst ij) (snd ij) = block_num m \<longrightarrow>
              neighbour g (direction m) ij \<noteq> None"
    using legal_move_neighbour [OF assms] by blast
  from place_result [OF wf_cleared [of g b "block_num m"] subset_refl nb] obtain t where
    r: "place g b m (positions g) (cleared g b (block_num m)) = Some t" "wf_board g t"
    and c: "\<forall>xy \<in> set (positions g). cell t (fst xy) (snd xy) =
              (if \<exists>src \<in> set (positions g). cell b (fst src) (snd src) = block_num m \<and>
                    neighbour g (direction m) src = Some xy
               then block_num m else cell (cleared g b (block_num m)) (fst xy) (snd xy))"
    by blast
  have "\<forall>xy \<in> set (positions g). cell (cleared g b (block_num m)) (fst xy) (snd xy) =
          (if cell b (fst xy) (snd xy) = block_num m then 0 else cell b (fst xy) (snd xy))"
    by (simp add: fst_snd_positions cell_cleared)
  with c have "\<forall>xy \<in> set (positions g). cell t (fst xy) (snd xy) =
              (if \<exists>src \<in> set (positions g). cell b (fst src) (snd src) = block_num m \<and>
                    neighbour g (direction m) src = Some xy
               then block_num m
               else if cell b (fst xy) (snd xy) = block_num m then 0 else cell b (fst xy) (snd xy))"
    by (metis (no_types, lifting))
  with r show ?thesis unfolding moved_def by blast
qed

section \<open>The enumeration of all moves\<close>


text \<open>
  Claim C1, at a board the loader can produce on which label 3 is absent.  For the
  absent label \<open>getAvailableMoves\<close> returns its initial count 4 and stores nothing, so
  \<open>getAllAvailableMoves\<close> copies four entries from the array left by label 2: it
  returns twelve moves, the moves of block 2 twice, where the legal moves of the
  labels present are eight.
\<close>

theorem getAllAvailableMoves_absent_label:
  "\<not> present ex_game4 ex_board4 3 \<and>
   getAvailableMoves ex_game4 ex_board4 3 = (4, None) \<and>
   num_total_available_moves ex_game4 ex_board4 = 12 \<and>
   getAllAvailableMoves ex_game4 ex_board4 =
     Some (map (mk_move 2) [UP, DOWN, LEFT, RIGHT] @ map (mk_move 2) [UP, DOWN, LEFT, RIGHT] @
           map (mk_move 4) [UP, DOWN, LEFT, RIGHT]) \<and>
   all_legal_moves ex_game4 ex_board4 =
     map (mk_move 2) [UP, DOWN, LEFT, RIGHT] @ map (mk_move 4) [UP, DOWN, LEFT, RIGHT]"
  unfolding ex_game4_def ex_board4_def by code_simp

theorem getAllAvailableMoves_absent_label_witness:
  "getAllAvailableMoves ex_game4 ex_board4 \<noteq> Some (all_legal_moves ex_game4 ex_board4)"
  using getAllAvailableMoves_absent_label by simp

text \<open>
  What holds of the move generator on every board: for a label on the board, the
  array that \<open>getAvailableMoves\<close> stores lists exactly the legal directions, in the
  order up, down, left, right, and the count it returns is the array's length; and
  when every label from 2 to \<open>max_block_num\<close> is on the board, \<open>getAllAvailableMoves\<close>
  returns the legal moves of all labels, in ascending label order.
\<close>

theorem moves_on_gap_free_board:
  "(present g b p \<longrightarrow>
      fst (getAvailableMoves g b p) = int (length (legal_moves g b p)) \<and>
      (\<forall>d. legal_move g b p d \<longleftrightarrow>
           (\<exists>ms. snd (getAvailableMoves g b p) = Some ms \<and> mk_move p d \<in> set ms)) \<and>
      (\<forall>ms. snd (getAvailableMoves g b p) = Some ms \<longrightarrow> ms = legal_moves g b p)) \<and>
   ((\<forall>l \<in> {2..max_block_num g}. present g b l) \<longrightarrow>
      getAllAvailableMoves g b = Some (all_legal_moves g b) \<and>
      all_legal_moves g b = concat (map (legal_moves g b) [2..max_block_num g]))"
proof -
  have inj: "mk_move p d \<in> set (legal_moves g b p) \<longleftrightarrow> legal_move g b p d" for d
    by (cases d) (auto simp: legal_moves_def mk_move_def)
  have 1: "fst (getAvailableMoves g b p) = int (length (legal_moves g b p))"
    by (simp add: getAvailableMoves_eq)
  have 2: "legal_move g b p d \<longleftrightarrow>
           (\<exists>ms. snd (getAvailableMoves g b p) = Some ms \<and> mk_move p d \<in> set ms)"
    if "present g b p" for d
    using that inj [of d] by (auto simp: getAvailableMoves_eq)
  have 3: "ms = legal_moves g b p" if "snd (getAvailableMoves g b p) = Some ms" for ms
    using that by (simp add: getAvailableMoves_eq split: if_splits)
  have 4: "getAllAvailableMoves g b = Some (all_legal_moves g b)"
    if "\<forall>l \<in> {2..max_block_num g}. present g b l"
    using that by (rule getAllAvailableMoves_all_present)
  have 5: "all_legal_moves g b = concat (map (legal_moves g b) [2..max_block_num g])"
    if "\<forall>l \<in> {2..max_block_num g}. present g b l"
  proof -
    have "filter (present g b) [2..max_block_num g] = [2..max_block_num g]"
      using that by (simp add: filter_id_conv)
    then show ?thesis by (simp add: all_legal_moves_def)
  qed
  from 1 2 3 4 5 show ?thesis by blast
qed

theorem moves_on_gap_free_board_witness:
  "present ex_game2 ex_board2 2 \<and> (\<forall>l \<in> {2..max_block_num ex_game2}. present ex_game2 ex_board2 l) \<and>
   fst (getAvailableMoves ex_game2 ex_board2 2) = int (length (legal_moves ex_game2 ex_board2 2)) \<and>
   getAllAvailableMoves ex_game2 ex_board2 = Some (all_legal_moves ex_game2 ex_board2) \<and>
   all_legal_moves ex_game2 ex_board2 = [mk_move 2 RIGHT, mk_move 3 DOWN]"
proof -
  have p: "present ex_game2 ex_board2 2"
    unfolding ex_game2_def ex_board2_def by code_simp
  have "list_all (present ex_game2 ex_board2) [2..max_block_num ex_game2]"
    unfolding ex_game2_def ex_board2_def by code_simp
  then have a: "\<forall>l \<in> {2..max_block_num ex_game2}. present ex_game2 ex_board2 l"
    by (simp add: list_all_iff)
  have e: "all_legal_moves ex_game2 ex_board2 = [mk_move 2 RIGHT, mk_move 3 DOWN]"
    unfolding ex_game2_def ex_board2_def by code_simp
  from moves_on_gap_free_board [of ex_game2 ex_board2 2] p a e show ?thesis by blast
qed

section \<open>applyMoveCloning\<close>


lemma getAvailableMoves_buf_ok: "buf_ok g b (snd (getAvailableMoves g b p))"
  by (auto simp: getAvailableMoves_eq buf_ok_def legal_on_def legal_moves_def mk_move_def list_all_iff)

lemma store_moves_ok: "buf_ok g b buf \<Longrightarrow> buf_ok g b out \<Longrightarrow> buf_ok g b (store_moves buf out)"
  by (cases out) (simp_all add: store_moves_def)

lemma count_loop_ok: "buf_ok g b (snd st) \<Longrightarrow> buf_ok g b (snd (count_loop g b ls st))"
proof (induction ls arbitrary: st)
  case Nil
  then show ?case by simp
next
  case (Cons l ls)
  obtain tot buf where st: "st = (tot, buf)" by (cases st)
  with Cons.prems have "buf_ok g b (store_moves buf (snd (getAvailableMoves g b l)))"
    by (simp add: store_moves_ok getAvailableMoves_buf_ok)
  then show ?case unfolding st by (simp add: Cons.IH)
qed

lemma copy_loop_ok:
  "buf_ok g b buf \<Longrightarrow> copy_loop g b ls buf = Some ms \<Longrightarrow> list_all (legal_on g b) ms"
proof (induction ls arbitrary: buf ms)
  case Nil
  then show ?case by simp
next
  case (Cons l ls)
  let ?buf = "store_moves buf (snd (getAvailableMoves g b l))"
  have ok: "buf_ok g b ?buf"
    using Cons.prems(1) by (simp add: store_moves_ok getAvailableMoves_buf_ok)
  show ?case
  proof (cases "fst (getAvailableMoves g b l) \<le> 0")
    case True
    with Cons.prems(2) have "copy_loop g b ls ?buf = Some ms" by (simp add: Let_def)
    from Cons.IH [OF ok this] show ?thesis .
  next
    case False
    with Cons.prems(2) obtain arr rest where
      a: "?buf = Some arr" and r: "copy_loop g b ls ?buf = Some rest"
      and ms: "ms = take (nat (fst (getAvailableMoves g b l))) arr @ rest"
      by (auto simp: Let_def split: option.splits if_splits)
    from ok a have "list_all (legal_on g b) arr" by (simp add: buf_ok_def)
    then have "list_all (legal_on g b) (take (nat (fst (getAvailableMoves g b l))) arr)"
      by (auto simp: list_all_iff dest: in_set_takeD)
    with Cons.IH [OF ok r] ms show ?thesis by simp
  qed
qed

text \<open>Whatever \<open>getAllAvailableMoves\<close> returns, each move in it is a legal move of a
  block on the board.\<close>

lemma getAllAvailableMoves_legal:
  assumes "getAllAvailableMoves g b = Some ms"
  shows "list_all (legal_on g b) ms"
proof -
  have "buf_ok g b (snd (count_loop g b [2..max_block_num g] (0, None)))"
    by (rule count_loop_ok) (simp add: buf_ok_def)
  from copy_loop_ok [OF this] assms show ?thesis by (simp add: getAllAvailableMoves_def)
qed

text \<open>
  Claim C6.  For a legal move on a well-formed board, \<open>applyMoveCloning\<close> returns a
  pointer to a newly allocated board, and every board allocated before, the input
  among them, is unchanged.  In the new board the neighbour, in the move's
  direction, of every cell that held the block holds the block; every other cell
  holds 0 if it held the block and its old value otherwise.
\<close>

theorem applyMoveCloning_frame:
  assumes "input_state < length h" and "wf_board g (h ! input_state)"
    and "legal_move g (h ! input_state) (block_num m) (direction m)"
  shows "\<exists>h' q. applyMoveCloning g h input_state m = Some (h', q) \<and>
           q = length h \<and> length h' = Suc (length h) \<and> (\<forall>a < length h. h' ! a = h ! a) \<and>
           wf_board g (h' ! q) \<and>
           (\<forall>ij \<in> set (positions g). cell (h ! input_state) (fst ij) (snd ij) = block_num m \<longrightarrow>
              (\<exists>tgt \<in> set (positions g). neighbour g (direction m) ij = Some tgt \<and>
                     cell (h' ! q) (fst tgt) (snd tgt) = block_num m)) \<and>
           (\<forall>xy \<in> set (positions g).
              (\<forall>src \<in> set (positions g). cell (h ! input_state) (fst src) (snd src) = block_num m \<longrightarrow>
                   neighbour g (direction m) src \<noteq> Some xy) \<longrightarrow>
              cell (h' ! q) (fst xy) (snd xy) =
                (if cell (h ! input_state) (fst xy) (snd xy) = block_num m then 0
                 else cell (h ! input_state) (fst xy) (snd xy)))"
proof -
  let ?b = "h ! input_state"
  from moved_result [OF assms(3)] obtain t where
    t: "moved g ?b m = Some t" "wf_board g t"
    and c: "\<forall>xy \<in> set (positions g). cell t (fst xy) (snd xy) =
              (if \<exists>src \<in> set (positions g). cell ?b (fst src) (snd src) = block_num m \<and>
                    neighbour g (direction m) src = Some xy
               then block_num m
               else if cell ?b (fst xy) (snd xy) = block_num m then 0 else cell ?b (fst xy) (snd xy))"
    by blast
  let ?h' = "(h @ [?b])[length h := t]"
  have r: "applyMoveCloning g h input_state m = Some (?h', length h)"
    using assms(1,2) t(1)
    by (simp add: applyMoveCloning_def cloneGameState_def applyMove_def rows_wf)
  have new: "?h' ! length h = t" by simp
  have old: "\<forall>a < length h. ?h' ! a = h ! a" by (simp add: nth_append)
  have 1: "\<forall>ij \<in> set (positions g). cell ?b (fst ij) (snd ij) = block_num m \<longrightarrow>
              (\<exists>tgt \<in> set (positions g). neighbour g (direction m) ij = Some tgt \<and>
                     cell t (fst tgt) (snd tgt) = block_num m)"
  proof (intro ballI impI)
    fix ij assume ij: "ij \<in> set (positions g)" and blk: "cell ?b (fst ij) (snd ij) = block_num m"
    from legal_move_neighbour [OF assms(3) ij blk] obtain tgt where
      tgt: "neighbour g (direction m) ij = Some tgt" by auto
    from neighbour_in_grid [OF tgt ij] have tin: "tgt \<in> set (positions g)" .
    with c ij blk tgt have "cell t (fst tgt) (snd tgt) = block_num m" by auto
    with tgt tin show "\<exists>tgt \<in> set (positions g). neighbour g (direction m) ij = Some tgt \<and>
                     cell t (fst tgt) (snd tgt) = block_num m" by blast
  qed
  have 2: "\<forall>xy \<in> set (positions g).
              (\<forall>src \<in> set (positions g). cell ?b (fst src) (snd src) = block_num m \<longrightarrow>
                   neighbour g (direction m) src \<noteq> Some xy) \<longrightarrow>
              cell t (fst xy) (snd xy) =
                (if cell ?b (fst xy) (snd xy) = block_num m then 0 else cell ?b (fst xy) (snd xy))"
    using c by auto
  show ?thesis
    using r new old t(2) 1 2 by (intro exI [of _ ?h'] exI [of _ "length h"]) simp
qed

theorem applyMoveCloning_frame_witness:
  "wf_board ex_game4 ex_board4 \<and> legal_move ex_game4 ex_board4 2 RIGHT \<and>
   applyMoveCloning ex_game4 [ex_board4] 0 (mk_move 2 RIGHT) =
     Some ([ex_board4,
            [[1, 1, 1, 1, 1, 1, 1],
             [1, 0, 0, 0, 0, 0, 1],
             [1, 0, 0, 2, 4, 0, - 1],
             [1, 0, 0, 0, 0, 0, 1],
             [1, 1, 1, 1, 1, 1, 1]]], 1)"
proof -
  have wf: "wf_board ex_game4 ([ex_board4] ! 0)"
    by (simp add: wf_board_def ex_game4_def ex_board4_def)
  have lg: "legal_move ex_game4 ([ex_board4] ! 0) (block_num (mk_move 2 RIGHT)) (direction (mk_move 2 RIGHT))"
    unfolding ex_game4_def ex_board4_def by code_simp
  have ev: "applyMoveCloning ex_game4 [ex_board4] 0 (mk_move 2 RIGHT) =
     Some ([ex_board4,
            [[1, 1, 1, 1, 1, 1, 1],
             [1, 0, 0, 0, 0, 0, 1],
             [1, 0, 0, 2, 4, 0, - 1],
             [1, 0, 0, 0, 0, 0, 1],
             [1, 1, 1, 1, 1, 1, 1]]], 1)"
    unfolding ex_game4_def ex_board4_def by code_simp
  from applyMoveCloning_frame [of 0 "[ex_board4]" ex_game4 "mk_move 2 RIGHT", OF _ wf lg]
  obtain h' q where "applyMoveCloning ex_game4 [ex_board4] 0 (mk_move 2 RIGHT) = Some (h', q)"
    and "\<forall>a < length [ex_board4]. h' ! a = [ex_board4] ! a"
    by auto
  with wf lg ev show ?thesis by (simp add: mk_move_def)
qed

section \<open>The visited-state table in the loop bodies\<close>


lemma entry_value_present:
  assumes "k \<in> fst ` set t" and "table_ok t"
  shows "0 \<le> entry_value t k"
proof -
  from assms(1) obtain v where v: "map_of t k = Some v"
    by (metis map_of_eq_None_iff not_Some_eq)
  then have "(k, v) \<in> set t" by (rule map_of_SomeD)
  with assms(2) have "0 \<le> v" by (auto simp: table_ok_def list_all_iff)
  with v show ?thesis by (simp add: entry_value_def)
qed

lemma entry_value_absent: "k \<notin> fst ` set t \<Longrightarrow> entry_value t k = - 1"
  using map_of_eq_None_iff [of t k] by (simp add: entry_value_def)

lemma entry_value_update:
  "k \<in> fst ` set t \<Longrightarrow> entry_value (set_entry t k v) k = v"
  by (induction t) (force simp: entry_value_def)+

lemma entry_value_update_other:
  "k' \<noteq> k \<Longrightarrow> entry_value (set_entry t k v) k' = entry_value t k'"
  by (induction t) (auto simp: entry_value_def)

text \<open>
  The three table functions on the array of chains: each finds the chain of its key's
  index; an insertion appends to that chain, a lookup walks that chain only, an update
  overwrites the first entry with the key in that chain; every other chain stays as it
  is.
\<close>

lemma map_of_chain:
  "Q k \<Longrightarrow> map_of (filter (\<lambda>kv. Q (fst kv)) t) k = map_of t k"
  by (induction t) auto

lemma set_entry_chain:
  "Q k \<Longrightarrow> filter (\<lambda>kv. Q (fst kv)) (set_entry t k v) = set_entry (filter (\<lambda>kv. Q (fst kv)) t) k v"
  by (induction t) auto

lemma set_entry_other_chain:
  "\<not> Q k \<Longrightarrow> filter (\<lambda>kv. Q (fst kv)) (set_entry t k v) = filter (\<lambda>kv. Q (fst kv)) t"
  by (induction t) auto

lemma insert_chain:
  assumes "table_slot pf k = Some i"
  shows "insertIntoStateHashTable pf t k v = Some (add_entry t k v)"
    and "chain_at pf (add_entry t k v) i = chain_at pf t i @ [(k, v)]"
    and "j \<noteq> i \<Longrightarrow> chain_at pf (add_entry t k v) j = chain_at pf t j"
  using assms by (simp_all add: insertIntoStateHashTable_def chain_at_def add_entry_def)

lemma lookup_chain:
  assumes "table_slot pf k = Some i"
  shows "getHashTableValue pf t k = Some (entry_value (chain_at pf t i) k)"
  using assms map_of_chain [of "\<lambda>k. table_slot pf k = Some i" k t]
  by (simp add: getHashTableValue_def chain_at_def entry_value_def)

lemma update_chain:
  assumes "table_slot pf k = Some i"
  shows "updateHashTableValue pf t k v = Some (set_entry t k v)"
    and "chain_at pf (set_entry t k v) i = set_entry (chain_at pf t i) k v"
    and "j \<noteq> i \<Longrightarrow> chain_at pf (set_entry t k v) j = chain_at pf t j"
  using assms set_entry_chain [of "\<lambda>k. table_slot pf k = Some i" k t v]
    set_entry_other_chain [of "\<lambda>k. table_slot pf k = Some j" k t v]
  by (simp_all add: updateHashTableValue_def chain_at_def)



section \<open>Solved boards, keys and the heuristic\<close>


lemma maxima_step:
  assumes "maxima_ok g s" and "ij \<in> set (positions g)"
  shows "maxima_ok g (heuristic_step s (ij, c))"
proof -
  obtain sr sc er ec where s: "s = (sr, sc, er, ec)" by (cases s)
  obtain i j where ij: "ij = (i, j)" by (cases ij)
  from assms(2) ij have "i < board_height g" "j < board_width g" by (simp_all add: mem_positions)
  with assms(1) show ?thesis unfolding s ij by (auto simp: maxima_ok_def Let_def)
qed

lemma maxima_foldl:
  assumes "maxima_ok g s" and "set ps \<subseteq> set (positions g)"
  shows "maxima_ok g (foldl heuristic_step s (map (\<lambda>(i, j). ((i, j), cell b i j)) ps))"
  using assms
proof (induction ps arbitrary: s)
  case Nil
  then show ?case by simp
next
  case (Cons p ps)
  obtain i j where p: "p = (i, j)" by (cases p)
  have "maxima_ok g (heuristic_step s ((i, j), cell b i j))"
    using Cons.prems p by (intro maxima_step) auto
  with Cons.IH [of "heuristic_step s ((i, j), cell b i j)"] Cons.prems(2) show ?case
    by (simp add: p)
qed

lemma get_heuristic_le: "get_heuristic g b \<le> int (board_height g) + int (board_width g)"
proof -
  have "maxima_ok g (- 1, - 1, - 1, - 1)"
    if "0 < board_height g" "0 < board_width g"
    using that by (simp add: maxima_ok_def)
  show ?thesis
  proof (cases "positions g = []")
    case True
    then show ?thesis by (simp add: get_heuristic_def)
  next
    case False
    then obtain i j where "(i, j) \<in> set (positions g)" by (cases "positions g") auto
    then have "0 < board_height g" "0 < board_width g" by (auto simp: mem_positions)
    then have "maxima_ok g (- 1, - 1, - 1, - 1)" by (simp add: maxima_ok_def)
    from maxima_foldl [OF this subset_refl, of b] show ?thesis
      by (auto simp: get_heuristic_def maxima_ok_def split: prod.splits)
  qed
qed

lemma length_interior:
  "length (interior g b) = (board_height g - 2) * (board_width g - 2)"
  by (simp add: interior_def length_concat comp_def sum_list_triv numeral_2_eq_2)

lemma getStateHashKey_Some:
  assumes "2 \<le> board_height g" and "2 \<le> board_width g"
  shows "\<exists>k. getStateHashKey g b = Some k"
proof -
  have "int ((board_height g - 2) * (board_width g - 2))
          = (int (board_height g) - 2) * (int (board_width g) - 2)"
    using assms by simp
  then show ?thesis by (simp add: getStateHashKey_def length_interior)
qed

lemma checkGameComplete_iff: "checkGameComplete g b \<longleftrightarrow> - 1 \<notin> set (scan g b)"
  by (auto simp: checkGameComplete_def list_all_iff)

lemma scan_cells: "c \<in> set (scan g b) \<longleftrightarrow> (\<exists>ij \<in> set (positions g). cell b (fst ij) (snd ij) = c)"
  by (force simp: scan_def)

lemma scan_normalize_fun: "scan g (normalize_fun g b) = map (relabel (scan g b)) (scan g b)"
proof -
  have "scan g (normalize_fun g b) = concat (normalize_fun g b)"
    using rows_wf [OF wf_normalize_fun, of g b] by (simp add: scan_rows)
  also have "\<dots> = map (relabel (scan g b)) (concat (rows g b))"
    by (simp add: normalize_fun_relabel map_concat)
  finally show ?thesis by (simp add: scan_rows)
qed

lemma relabel_goal: "relabel cs c = - 1 \<longleftrightarrow> c = - 1"
  by (auto simp: relabel_def)

lemma checkGameComplete_normalize_fun:
  "checkGameComplete g (normalize_fun g b) \<longleftrightarrow> checkGameComplete g b"
proof -
  have "- 1 \<in> relabel (scan g b) ` set (scan g b) \<longleftrightarrow> - 1 \<in> set (scan g b)"
    using relabel_goal [of "scan g b"] by (metis (no_types, lifting) image_iff)
  then show ?thesis by (simp add: checkGameComplete_iff scan_normalize_fun)
qed

text \<open>A legal move of a block on a solved board leads to a solved board.\<close>

lemma next_board_solved:
  assumes wf: "wf_board g b" and solved: "checkGameComplete g b" and legal: "legal_on g b m"
  shows "\<exists>nb. next_board g b m = Some nb \<and> checkGameComplete g (normalize_fun g nb)"
proof -
  from legal have lm: "legal_move g b (block_num m) (direction m)" and pr: "present g b (block_num m)"
    by (simp_all add: legal_on_def)
  from pr solved have blk: "block_num m \<noteq> - 1"
    by (auto simp: present_def checkGameComplete_iff)
  from moved_result [OF lm] obtain t where
    t: "moved g b m = Some t"
    and c: "\<forall>xy \<in> set (positions g). cell t (fst xy) (snd xy) =
              (if \<exists>src \<in> set (positions g). cell b (fst src) (snd src) = block_num m \<and>
                    neighbour g (direction m) src = Some xy
               then block_num m
               else if cell b (fst xy) (snd xy) = block_num m then 0 else cell b (fst xy) (snd xy))"
    by blast
  have "- 1 \<notin> set (scan g t)"
  proof
    assume "- 1 \<in> set (scan g t)"
    then obtain xy where xy: "xy \<in> set (positions g)" and v: "cell t (fst xy) (snd xy) = - 1"
      by (auto simp: scan_cells)
    from solved xy have "cell b (fst xy) (snd xy) \<noteq> - 1"
      unfolding checkGameComplete_iff scan_cells by blast
    with c xy v blk show False by (auto split: if_splits)
  qed
  then have "checkGameComplete g t" by (simp add: checkGameComplete_iff)
  then have "checkGameComplete g (normalize_fun g t)"
    by (simp add: checkGameComplete_normalize_fun)
  with t wf show ?thesis by (simp add: next_board_def rows_wf)
qed

lemma compareStates_refl: "compareStates g b b"
  by (simp add: compareStates_def list_all_iff)

section \<open>normalizeState on a platform\<close>

lemma relabel_bound:
  assumes "\<forall>c \<in> set cs. c \<le> M" and "c \<in> set cs"
  shows "relabel cs c \<le> M"
proof (cases "2 < c")
  case False
  with assms show ?thesis by (simp add: relabel_def)
next
  case True
  let ?L = "labels_in_order cs"
  have "set ?L \<subseteq> {3..M}" using assms(1) by (auto simp: set_labels_in_order)
  then have "card (set ?L) \<le> card {3..M}" by (intro card_mono) simp_all
  then have len: "int (length ?L) \<le> M - 2"
    using distinct_card [OF distinct_labels_in_order, of cs] True assms by auto
  have "c \<in> set ?L" using True assms(2) by (simp add: set_labels_in_order)
  then have "label_index ?L c < length ?L" by (rule label_index_less)
  with len True show ?thesis by (simp add: relabel_def)
qed

lemma normalize_fun_bound:
  assumes "\<forall>c \<in> set (scan g b). c \<le> max_block_num g"
  shows "\<forall>c \<in> set (scan g (normalize_fun g b)). c \<le> max_block_num g"
  using relabel_bound [OF assms] by (auto simp: scan_normalize_fun)

lemma entry_value_insert_same:
  assumes "\<forall>kv \<in> set t. 0 \<le> snd kv" and "0 \<le> d"
  shows "0 \<le> entry_value (add_entry t k d) k"
proof (cases "map_of t k")
  case None
  then show ?thesis using assms by (simp add: entry_value_def add_entry_def map_add_def)
next
  case (Some v)
  then have "(k, v) \<in> set t" by (rule map_of_SomeD)
  with assms have "0 \<le> v" by auto
  with Some show ?thesis by (simp add: entry_value_def add_entry_def map_add_def)
qed

text \<open>
  Claim C5.  \<open>normalizeState\<close> writes \<open>block_seen[max_block_num]\<close> and
  \<open>remap[max_block_num]\<close> in its initialising loop, on every board.  Where the two blocks
  end with the \<open>max_block_num\<close> entries asked for, the write is outside them and the call
  has no result.  Where the entry at index \<open>max_block_num\<close> can be accessed in both
  blocks and no label is above \<open>max_block_num\<close>, the call returns, a second call on the
  result returns the same board, and a cell that holds 0, 1, -1 or 2 keeps its label.
\<close>

theorem normalizeState_idempotent:
  "(0 \<le> max_block_num g \<and> length (malloc_bool pf (max_block_num g)) = nat (max_block_num g) \<longrightarrow>
      normalizeState pf g b = None) \<and>
   (tables_fit pf g \<and> (\<forall>c \<in> set (scan g b). c \<le> max_block_num g) \<longrightarrow>
      (\<exists>b1. normalizeState pf g b = Some b1 \<and> normalizeState pf g b1 = Some b1 \<and>
         (\<forall>i < board_height g. \<forall>j < board_width g.
            cell b i j \<in> {0, 1, - 1, 2} \<longrightarrow> cell b1 i j = cell b i j)))"
proof (intro conjI impI)
  assume "0 \<le> max_block_num g \<and> length (malloc_bool pf (max_block_num g)) = nat (max_block_num g)"
  then show "normalizeState pf g b = None" by (intro normalizeState_exact) simp_all
next
  assume a: "tables_fit pf g \<and> (\<forall>c \<in> set (scan g b). c \<le> max_block_num g)"
  let ?b1 = "normalize_fun g b"
  have 1: "normalizeState pf g b = Some ?b1" using a by (intro normalizeState_fit) simp_all
  have "normalizeState pf g ?b1 = Some (normalize_fun g ?b1)"
    using a normalize_fun_bound [of g b] by (intro normalizeState_fit) simp_all
  then have 2: "normalizeState pf g ?b1 = Some ?b1" by (simp add: normalize_fun_idem)
  have 3: "\<forall>i < board_height g. \<forall>j < board_width g.
            cell b i j \<in> {0, 1, - 1, 2} \<longrightarrow> cell ?b1 i j = cell b i j"
    by (auto simp: cell_normalize_fun remap_cell_le)
  from 1 2 3 show "\<exists>b1. normalizeState pf g b = Some b1 \<and> normalizeState pf g b1 = Some b1 \<and>
         (\<forall>i < board_height g. \<forall>j < board_width g.
            cell b i j \<in> {0, 1, - 1, 2} \<longrightarrow> cell b1 i j = cell b i j)" by blast
qed

theorem normalizeState_idempotent_witness:
  "normalizeState exact_platform ex_game2 ex_board2 = None \<and>
   normalizeState roomy_platform ex_game2 ex_board2
     = Some [[1, 1, 1, 1], [1, 3, 4, - 1], [1, 2, 0, 1]] \<and>
   normalizeState roomy_platform ex_game2 [[1, 1, 1, 1], [1, 3, 4, - 1], [1, 2, 0, 1]]
     = Some [[1, 1, 1, 1], [1, 3, 4, - 1], [1, 2, 0, 1]] \<and>
   cell ex_board2 1 3 = - 1"
proof -
  have c: "cell ex_board2 1 3 = - 1" by (simp add: cell_def ex_board2_def)
  have n: "normalizeState roomy_platform ex_game2 ex_board2
             = Some [[1, 1, 1, 1], [1, 3, 4, - 1], [1, 2, 0, 1]]"
    unfolding roomy_platform_def ex_game2_def ex_board2_def by code_simp
  have e: "0 \<le> max_block_num ex_game2 \<and>
      length (malloc_bool exact_platform (max_block_num ex_game2)) = nat (max_block_num ex_game2)"
    by (simp add: exact_platform_def ex_game2_def)
  have f: "tables_fit roomy_platform ex_game2"
    by (simp add: tables_fit_def roomy_platform_def ex_game2_def)
  have "list_all (\<lambda>c. c \<le> max_block_num ex_game2) (scan ex_game2 ex_board2)"
    unfolding ex_game2_def ex_board2_def by code_simp
  then have l: "\<forall>c \<in> set (scan ex_game2 ex_board2). c \<le> max_block_num ex_game2"
    by (simp add: list_all_iff)
  from normalizeState_idempotent [of ex_game2 "exact_platform" ex_board2] e
  have 1: "normalizeState exact_platform ex_game2 ex_board2 = None" by blast
  from normalizeState_idempotent [of ex_game2 "roomy_platform" ex_board2] f l
  obtain b1 where "normalizeState roomy_platform ex_game2 ex_board2 = Some b1"
    "normalizeState roomy_platform ex_game2 b1 = Some b1" by blast
  with n 1 c show ?thesis by simp
qed

text \<open>
  Claim C4.  Where the blocks of the two tables end with the \<open>max_block_num\<close> entries
  asked for, \<open>normalizeState\<close> has no result, on any board.  Where the tables fit, on a
  well-formed board with no label above \<open>max_block_num\<close>, it computes \<open>normalize_spec\<close>:
  cells up to 2 keep their label, and a label above 2 becomes 3 plus its position among
  the labels above 2 in the order in which the row-major scan first meets them.  Then a
  board and any renaming of its labels above 2 (one-to-one, labels up to 2 fixed, labels
  up to \<open>max_block_num\<close>) normalise to the same board, hence to the same key, and once
  that key is in the table, a lookup with it finds an entry; the key's bucket index has
  to be inside the table for that.
\<close>

theorem normalizeState_canonical:
  "(0 \<le> max_block_num g \<and> length (malloc_bool pf (max_block_num g)) = nat (max_block_num g) \<longrightarrow>
      normalizeState pf g b = None) \<and>
   (tables_fit pf g \<and> wf_board g b \<and> (\<forall>c \<in> set (concat b). c \<le> max_block_num g) \<longrightarrow>
      normalizeState pf g b = Some (normalize_spec b) \<and>
      (\<forall>f. inj_on f (set (concat b)) \<and>
            (\<forall>c \<in> set (concat b).
               (c \<le> 2 \<longrightarrow> f c = c) \<and> (2 < c \<longrightarrow> 2 < f c \<and> f c \<le> max_block_num g)) \<longrightarrow>
          normalizeState pf g (map (map f) b) = Some (normalize_spec b) \<and>
          (\<forall>t k d i. getStateHashKey g (normalize_spec b) = Some k \<and> table_slot pf k = Some i \<and>
                      0 \<le> d \<and> (\<forall>kv \<in> set t. 0 \<le> snd kv) \<longrightarrow>
             (\<exists>t' v. insertIntoStateHashTable pf t k d = Some t' \<and>
                      getHashTableValue pf t' k = Some v \<and> 0 \<le> v))))"
proof (intro conjI impI)
  assume "0 \<le> max_block_num g \<and> length (malloc_bool pf (max_block_num g)) = nat (max_block_num g)"
  then show "normalizeState pf g b = None" by (intro normalizeState_exact) simp_all
next
  assume a: "tables_fit pf g \<and> wf_board g b \<and> (\<forall>c \<in> set (concat b). c \<le> max_block_num g)"
  then have fit: "tables_fit pf g" and wf: "wf_board g b"
    and lab: "\<forall>c \<in> set (concat b). c \<le> max_block_num g" by blast+
  show 1: "normalizeState pf g b = Some (normalize_spec b)"
    using fit lab wf normalizeState_fit [of pf g b]
    by (simp add: wf_scan normalize_fun_spec)
  show "\<forall>f. inj_on f (set (concat b)) \<and>
            (\<forall>c \<in> set (concat b).
               (c \<le> 2 \<longrightarrow> f c = c) \<and> (2 < c \<longrightarrow> 2 < f c \<and> f c \<le> max_block_num g)) \<longrightarrow>
          normalizeState pf g (map (map f) b) = Some (normalize_spec b) \<and>
          (\<forall>t k d i. getStateHashKey g (normalize_spec b) = Some k \<and> table_slot pf k = Some i \<and>
                      0 \<le> d \<and> (\<forall>kv \<in> set t. 0 \<le> snd kv) \<longrightarrow>
             (\<exists>t' v. insertIntoStateHashTable pf t k d = Some t' \<and>
                      getHashTableValue pf t' k = Some v \<and> 0 \<le> v))"
  proof (intro allI impI)
    fix f
    assume r: "inj_on f (set (concat b)) \<and>
            (\<forall>c \<in> set (concat b).
               (c \<le> 2 \<longrightarrow> f c = c) \<and> (2 < c \<longrightarrow> 2 < f c \<and> f c \<le> max_block_num g))"
    have wf': "wf_board g (map (map f) b)" using wf by (auto simp: wf_board_def)
    have same: "normalize_fun g (map (map f) b) = normalize_fun g b"
    proof (rule normalize_fun_rename [OF wf])
      show "inj_on f (set (concat b))" using r by simp
      show "\<forall>c\<in>set (concat b). (2 < f c) = (2 < c)" using r by (metis not_le)
      show "\<forall>c\<in>set (concat b). c \<le> 2 \<longrightarrow> f c = c" using r by simp
    qed
    have lab': "\<forall>c \<in> set (scan g (map (map f) b)). c \<le> max_block_num g"
    proof
      fix c assume "c \<in> set (scan g (map (map f) b))"
      then obtain c0 where c0: "c0 \<in> set (concat b)" "c = f c0"
        using wf' by (auto simp: wf_scan map_concat)
      with r lab show "c \<le> max_block_num g" by (cases "c0 \<le> 2") auto
    qed
    have 2: "normalizeState pf g (map (map f) b) = Some (normalize_spec b)"
      using normalizeState_fit [OF fit lab'] same wf by (simp add: normalize_fun_spec)
    have 3: "\<exists>t' v. insertIntoStateHashTable pf t k d = Some t' \<and>
                      getHashTableValue pf t' k = Some v \<and> 0 \<le> v"
      if "getStateHashKey g (normalize_spec b) = Some k \<and> table_slot pf k = Some i \<and>
                      0 \<le> d \<and> (\<forall>kv \<in> set t. 0 \<le> snd kv)" for t k d i
      using that
      by (simp add: insertIntoStateHashTable_def getHashTableValue_def entry_value_insert_same)
    from 2 3 show "normalizeState pf g (map (map f) b) = Some (normalize_spec b) \<and>
          (\<forall>t k d i. getStateHashKey g (normalize_spec b) = Some k \<and> table_slot pf k = Some i \<and>
                      0 \<le> d \<and> (\<forall>kv \<in> set t. 0 \<le> snd kv) \<longrightarrow>
             (\<exists>t' v. insertIntoStateHashTable pf t k d = Some t' \<and>
                      getHashTableValue pf t' k = Some v \<and> 0 \<le> v))" by blast
  qed
qed

lemma ex_board2_swapped: "map (map swap34) ex_board2 = [[1, 1, 1, 1], [1, 3, 4, - 1], [1, 2, 0, 1]]"
  by (simp add: ex_board2_def swap34_def)

theorem normalizeState_canonical_witness:
  "normalizeState exact_platform ex_game2 ex_board2 = None \<and>
   normalizeState exact_platform ex_game2 [[1, 1, 1, 1], [1, 3, 4, - 1], [1, 2, 0, 1]] = None \<and>
   normalizeState roomy_platform ex_game2 ex_board2 = Some (normalize_spec ex_board2) \<and>
   normalizeState roomy_platform ex_game2 [[1, 1, 1, 1], [1, 3, 4, - 1], [1, 2, 0, 1]]
     = Some (normalize_spec ex_board2) \<and>
   getStateHashKey ex_game2 (normalize_spec ex_board2) = Some ''DE''"
proof -
  let ?b' = "[[1, 1, 1, 1], [1, 3, 4, - 1], [1, 2, 0, 1]]"
  have wf: "wf_board ex_game2 ex_board2"
    by (simp add: wf_board_def ex_game2_def ex_board2_def)
  have inj: "inj_on swap34 (set (concat ex_board2))"
    by (simp add: ex_board2_def swap34_def)
  have pres: "\<forall>c \<in> set (concat ex_board2).
      (c \<le> 2 \<longrightarrow> swap34 c = c) \<and> (2 < c \<longrightarrow> 2 < swap34 c \<and> swap34 c \<le> max_block_num ex_game2)"
    by (simp add: ex_board2_def swap34_def ex_game2_def)
  have lab: "\<forall>c \<in> set (concat ex_board2). c \<le> max_block_num ex_game2"
    by (simp add: ex_board2_def ex_game2_def)
  have e: "0 \<le> max_block_num ex_game2 \<and>
      length (malloc_bool exact_platform (max_block_num ex_game2)) = nat (max_block_num ex_game2)"
    by (simp add: exact_platform_def ex_game2_def)
  have f: "tables_fit roomy_platform ex_game2"
    by (simp add: tables_fit_def roomy_platform_def ex_game2_def)
  have k: "getStateHashKey ex_game2 (normalize_spec ex_board2) = Some ''DE''"
    unfolding ex_game2_def ex_board2_def by code_simp
  from normalizeState_canonical [of ex_game2 "exact_platform" ex_board2] e
  have 1: "normalizeState exact_platform ex_game2 ex_board2 = None" by blast
  from normalizeState_canonical [of ex_game2 "exact_platform" ?b'] e
  have 2: "normalizeState exact_platform ex_game2 ?b' = None" by blast
  from normalizeState_canonical [of ex_game2 "roomy_platform" ex_board2] f wf lab
  have 3: "normalizeState roomy_platform ex_game2 ex_board2 = Some (normalize_spec ex_board2)"
    and r: "\<forall>f. inj_on f (set (concat ex_board2)) \<and>
            (\<forall>c \<in> set (concat ex_board2).
               (c \<le> 2 \<longrightarrow> f c = c) \<and> (2 < c \<longrightarrow> 2 < f c \<and> f c \<le> max_block_num ex_game2)) \<longrightarrow>
          normalizeState roomy_platform ex_game2 (map (map f) ex_board2)
            = Some (normalize_spec ex_board2)"
    by blast+
  from r inj pres have 4: "normalizeState roomy_platform ex_game2 (map (map swap34) ex_board2)
            = Some (normalize_spec ex_board2)" by blast
  from 1 2 3 4 k show ?thesis by (simp add: ex_board2_swapped)
qed

section \<open>The drivers on a solved root\<close>


lemma bfs_expand_first_solved:
  assumes "next_board g (board_state cur) m = Some nb"
    and "normalizeState pf g nb = Some nbs" and "checkGameComplete g nbs"
  shows "bfs_expand pf g cur (m # ms) qt = Some (Inl (path_cost cur + 1))"
  using assms by (cases qt) (simp add: Let_def)

lemma dfs_expand_first_solved:
  assumes "next_board g (board_state cur) m = Some nb"
    and "normalizeState pf g nb = Some nbs" and "checkGameComplete g nbs"
  shows "dfs_expand pf g cur (m # ms) st = Some (Inl (path_cost cur + 1))"
  using assms by (cases st) (simp add: Let_def)

text \<open>A legal move brings no new label onto the board, apart from 0.\<close>

lemma next_board_labels:
  assumes wf: "wf_board g b" and legal: "legal_on g b m" and nb: "next_board g b m = Some nb"
  shows "\<forall>c \<in> set (scan g nb). c = 0 \<or> c \<in> set (scan g b)"
proof
  fix c assume "c \<in> set (scan g nb)"
  then obtain xy where xy: "xy \<in> set (positions g)" and v: "cell nb (fst xy) (snd xy) = c"
    by (auto simp: scan_cells)
  from legal have lm: "legal_move g b (block_num m) (direction m)" and pr: "present g b (block_num m)"
    by (simp_all add: legal_on_def)
  from moved_result [OF lm] nb wf have
    "\<forall>xy \<in> set (positions g). cell nb (fst xy) (snd xy) =
              (if \<exists>src \<in> set (positions g). cell b (fst src) (snd src) = block_num m \<and>
                    neighbour g (direction m) src = Some xy
               then block_num m
               else if cell b (fst xy) (snd xy) = block_num m then 0 else cell b (fst xy) (snd xy))"
    by (auto simp: next_board_def rows_wf)
  with xy v have "c = block_num m \<or> c = 0 \<or> c = cell b (fst xy) (snd xy)"
    by (auto split: if_splits)
  moreover have "cell b (fst xy) (snd xy) \<in> set (scan g b)" using xy scan_cells by blast
  ultimately show "c = 0 \<or> c \<in> set (scan g b)" using pr by (auto simp: present_def)
qed

lemma root_first_solved:
  assumes "wf_board g b" and "checkGameComplete g b" and "getAllAvailableMoves g b = Some (m # ms)"
    and "tables_fit pf g" and "0 \<le> max_block_num g" and "\<forall>c \<in> set (scan g b). c \<le> max_block_num g"
  shows "\<exists>nb nbs. next_board g b m = Some nb \<and> normalizeState pf g nb = Some nbs \<and>
           checkGameComplete g nbs"
proof -
  from getAllAvailableMoves_legal [OF assms(3)] have legal: "legal_on g b m" by simp
  from next_board_solved [OF assms(1,2) this] obtain nb where
    nb: "next_board g b m = Some nb" and s: "checkGameComplete g (normalize_fun g nb)" by blast
  from next_board_labels [OF assms(1) legal nb] assms(5,6)
  have "\<forall>c \<in> set (scan g nb). c \<le> max_block_num g" by auto
  with assms(4) have "normalizeState pf g nb = Some (normalize_fun g nb)" by (rule normalizeState_fit)
  with nb s show ?thesis by blast
qed

lemma getBestNode_single:
  "f_of_n g n < WORST_CASE_DISTANCE \<Longrightarrow> getBestNode g [n] = Some n"
  by (simp add: getBestNode_def)

lemma insert_root:
  "table_slot pf k = Some i \<Longrightarrow> insertIntoStateHashTable pf [] k 0 = Some [(k, 0)]"
  by (simp add: insertIntoStateHashTable_def add_entry_def)

subsection \<open>No driver returns 0\<close>

text \<open>What the loop body of breadth-first search and A* search returns: the cost of the
  expanded node plus one, or a queue whose new nodes have that cost.\<close>

lemma chain_bfsEnqueue_cost:
  assumes "n \<in> set (chain (bfsEnqueue q b m (Some cur)))"
  shows "n \<in> set (chain q) \<or> path_cost n = path_cost cur + 1"
  using assms by (auto simp: bfsEnqueue_def new_node_def split: if_splits)

lemma bfs_expand_costs:
  assumes "bfs_expand pf g cur ms (q, t) = Some r"
  shows "case r of Inl c \<Rightarrow> c = path_cost cur + 1
         | Inr qt' \<Rightarrow> \<forall>n \<in> set (chain (fst qt')). n \<in> set (chain q) \<or> path_cost n = path_cost cur + 1"
  using assms
proof (induction ms arbitrary: q t)
  case Nil
  then show ?case by auto
next
  case (Cons m ms)
  from Cons.prems obtain nb nbs where nb: "next_board g (board_state cur) m = Some nb"
    and n: "normalizeState pf g nb = Some nbs"
    by (auto split: option.splits)
  show ?case
  proof (cases "checkGameComplete g nbs")
    case True
    with Cons.prems nb n show ?thesis by (auto simp: Let_def)
  next
    case False
    with Cons.prems nb n obtain k v where k: "getStateHashKey g nbs = Some k"
      and v: "getHashTableValue pf t k = Some v"
      by (auto simp: Let_def split: option.splits)
    show ?thesis
    proof (cases "0 \<le> v")
      case True
      with Cons.prems nb n False k v have "bfs_expand pf g cur ms (q, t) = Some r"
        by (simp add: Let_def)
      from Cons.IH [OF this] show ?thesis .
    next
      case neg: False
      with Cons.prems nb n False k v obtain t' where
        "bfs_expand pf g cur ms (bfsEnqueue q nbs (Some m) (Some cur), t') = Some r"
        by (auto simp: Let_def split: option.splits)
      from Cons.IH [OF this] chain_bfsEnqueue_cost [of _ q nbs "Some m" cur]
      show ?thesis by (cases r) auto
    qed
  qed
qed

lemma dfs_expand_costs:
  assumes "dfs_expand pf g cur ms (st, t) = Some r"
  shows "case r of Inl c \<Rightarrow> c = path_cost cur + 1
         | Inr st' \<Rightarrow> \<forall>n \<in> set (fst st'). n \<in> set st \<or> path_cost n = path_cost cur + 1"
  using assms
proof (induction ms arbitrary: st t)
  case Nil
  then show ?case by auto
next
  case (Cons m ms)
  from Cons.prems obtain nb nbs where nb: "next_board g (board_state cur) m = Some nb"
    and n: "normalizeState pf g nb = Some nbs"
    by (auto split: option.splits)
  show ?case
  proof (cases "checkGameComplete g nbs")
    case True
    with Cons.prems nb n show ?thesis by (auto simp: Let_def)
  next
    case False
    with Cons.prems nb n obtain k v where k: "getStateHashKey g nbs = Some k"
      and v: "getHashTableValue pf t k = Some v"
      by (auto simp: Let_def split: option.splits)
    let ?push = "dfsPushStack st nbs (Some m) (Some cur)"
    have push: "n \<in> set st \<or> path_cost n = path_cost cur + 1" if "n \<in> set ?push" for n
      using that by (auto simp: dfsPushStack_def new_node_def)
    from Cons.prems nb n False k v consider
        "dfs_expand pf g cur ms (st, t) = Some r"
      | t' where "dfs_expand pf g cur ms (?push, t') = Some r"
      by (auto simp: Let_def split: option.splits if_splits)
    then show ?thesis
    proof cases
      case 1
      from Cons.IH [OF this] show ?thesis .
    next
      case 2
      from Cons.IH [OF this] push show ?thesis by (cases r) auto
    qed
  qed
qed

lemma bfs_loop_costs:
  assumes "bfs_loop pf g qt = Some r"
  shows "(\<forall>n \<in> set (chain (fst qt)). 0 \<le> path_cost n) \<longrightarrow> r = - 1 \<or> 1 \<le> r"
proof (rule bfs_loop.raw_induct [OF _ assms])
  fix f pf g qt r
  assume IH: "\<And>pf g qt r. f pf g qt = Some r \<Longrightarrow>
                 (\<forall>n \<in> set (chain (fst qt)). 0 \<le> path_cost n) \<longrightarrow> r = - 1 \<or> 1 \<le> r"
    and step: "(if bfsQueueIsEmpty (fst qt) then Some (- 1)
      else (case bfsDequeue (fst qt) of
              None \<Rightarrow> None
            | Some (current_state_node, q) \<Rightarrow>
                (case getAllAvailableMoves g (board_state current_state_node) of
                   None \<Rightarrow> None
                 | Some available_moves \<Rightarrow>
                     (case bfs_expand pf g current_state_node available_moves (q, snd qt) of
                        None \<Rightarrow> None
                      | Some (Inl cost) \<Rightarrow> Some cost
                      | Some (Inr qt') \<Rightarrow> f pf g qt')))) = Some r"
  show "(\<forall>n \<in> set (chain (fst qt)). 0 \<le> path_cost n) \<longrightarrow> r = - 1 \<or> 1 \<le> r"
  proof
    assume inv: "\<forall>n \<in> set (chain (fst qt)). 0 \<le> path_cost n"
    show "r = - 1 \<or> 1 \<le> r"
    proof (cases "chain (fst qt)")
      case Nil
      with step show ?thesis by (simp add: bfsQueueIsEmpty_def)
    next
      case (Cons cur rest)
      with inv have c0: "0 \<le> path_cost cur" and rest: "\<forall>n \<in> set rest. 0 \<le> path_cost n"
        by simp_all
      from step Cons obtain ms x where
        x: "bfs_expand pf g cur ms (fst qt\<lparr>chain := rest\<rparr>, snd qt) = Some x"
        and res: "(case x of Inl cost \<Rightarrow> Some cost | Inr qt' \<Rightarrow> f pf g qt') = Some r"
        by (auto simp: bfsQueueIsEmpty_def bfsDequeue_def split: option.splits simp del: bfs_expand.simps)
      from bfs_expand_costs [OF x] have
        cs: "case x of Inl c \<Rightarrow> c = path_cost cur + 1
             | Inr qt' \<Rightarrow> \<forall>n \<in> set (chain (fst qt')). n \<in> set rest \<or> path_cost n = path_cost cur + 1"
        by (auto split: sum.splits)
      show ?thesis
      proof (cases x)
        case (Inl c)
        with cs res c0 show ?thesis by simp
      next
        case (Inr qt')
        with cs rest c0 have "\<forall>n \<in> set (chain (fst qt')). 0 \<le> path_cost n" by fastforce
        with IH [of pf g qt' r] res Inr show ?thesis by simp
      qed
    qed
  qed
qed

lemma dfs_loop_costs:
  assumes "dfs_loop pf g dl md st = Some r"
  shows "(\<forall>n \<in> set (fst st). 0 \<le> path_cost n) \<longrightarrow> r = - 1 \<or> 1 \<le> r"
proof (rule dfs_loop.raw_induct [OF _ assms])
  fix f pf g depth_limited max_depth st r
  assume IH: "\<And>pf g dl md st r. f pf g dl md st = Some r \<Longrightarrow>
                 (\<forall>n \<in> set (fst st). 0 \<le> path_cost n) \<longrightarrow> r = - 1 \<or> 1 \<le> r"
    and step: "(case fst st of
        [] \<Rightarrow> Some (- 1)
      | current_state_node # stack \<Rightarrow>
          if \<not> depth_limited \<or> path_cost current_state_node < max_depth
          then (case getAllAvailableMoves g (board_state current_state_node) of
                  None \<Rightarrow> None
                | Some available_moves \<Rightarrow>
                    (case dfs_expand pf g current_state_node available_moves (stack, snd st) of
                       None \<Rightarrow> None
                     | Some (Inl cost) \<Rightarrow> Some cost
                     | Some (Inr st') \<Rightarrow> f pf g depth_limited max_depth st'))
          else f pf g depth_limited max_depth (stack, snd st)) = Some r"
  show "(\<forall>n \<in> set (fst st). 0 \<le> path_cost n) \<longrightarrow> r = - 1 \<or> 1 \<le> r"
  proof
    assume inv: "\<forall>n \<in> set (fst st). 0 \<le> path_cost n"
    show "r = - 1 \<or> 1 \<le> r"
    proof (cases "fst st")
      case Nil
      with step show ?thesis by simp
    next
      case (Cons cur rest)
      with inv have c0: "0 \<le> path_cost cur" and rest: "\<forall>n \<in> set rest. 0 \<le> path_cost n"
        by simp_all
      show ?thesis
      proof (cases "\<not> depth_limited \<or> path_cost cur < max_depth")
        case False
        with step Cons have "f pf g depth_limited max_depth (rest, snd st) = Some r" by simp
        from IH [OF this] rest show ?thesis by simp
      next
        case True
        with step Cons obtain ms x where
          x: "dfs_expand pf g cur ms (rest, snd st) = Some x"
          and res: "(case x of Inl cost \<Rightarrow> Some cost
                     | Inr st' \<Rightarrow> f pf g depth_limited max_depth st') = Some r"
          by (auto split: option.splits simp del: dfs_expand.simps)
        from dfs_expand_costs [OF x] have
          cs: "case x of Inl c \<Rightarrow> c = path_cost cur + 1
               | Inr st' \<Rightarrow> \<forall>n \<in> set (fst st'). n \<in> set rest \<or> path_cost n = path_cost cur + 1"
          by (auto split: sum.splits)
        show ?thesis
        proof (cases x)
          case (Inl c)
          with cs res c0 show ?thesis by simp
        next
          case (Inr st')
          with cs rest c0 have "\<forall>n \<in> set (fst st'). 0 \<le> path_cost n" by fastforce
          with IH [of pf g depth_limited max_depth st' r] res Inr show ?thesis by simp
        qed
      qed
    qed
  qed
qed

lemma remove_behind_subset: "set (fst (remove_behind g xb ns)) \<subseteq> set ns"
  by (induction ns) (auto split: prod.splits)

lemma removeNode_subset:
  assumes "removeNode g q x = Some q'"
  shows "set (chain q') \<subseteq> set (chain q)"
proof (cases "chain q")
  case Nil
  with assms show ?thesis by (simp add: removeNode_def)
next
  case (Cons n ns)
  show ?thesis
  proof (cases "compareStates g (board_state n) (board_state x)")
    case True
    with assms Cons show ?thesis by (auto simp: removeNode_def)
  next
    case False
    with assms Cons have "chain q' = n # fst (remove_behind g (board_state x) ns)"
      by (auto simp: removeNode_def split: prod.splits)
    with remove_behind_subset [of g "board_state x" ns] Cons show ?thesis by auto
  qed
qed

lemma astar_loop_costs:
  assumes "astar_loop pf g qt = Some r"
  shows "(\<forall>n \<in> set (chain (fst qt)). 0 \<le> path_cost n) \<longrightarrow> r = - 1 \<or> 1 \<le> r"
proof (rule astar_loop.raw_induct [OF _ assms])
  fix f pf g qt r
  assume IH: "\<And>pf g qt r. f pf g qt = Some r \<Longrightarrow>
                 (\<forall>n \<in> set (chain (fst qt)). 0 \<le> path_cost n) \<longrightarrow> r = - 1 \<or> 1 \<le> r"
    and step: "(if bfsQueueIsEmpty (fst qt) then Some (- 1)
      else (case getBestNode g (chain (fst qt)) of
              None \<Rightarrow> None
            | Some current_state_node \<Rightarrow>
                (case removeNode g (fst qt) current_state_node of
                   None \<Rightarrow> None
                 | Some q \<Rightarrow>
                     (case getAllAvailableMoves g (board_state current_state_node) of
                        None \<Rightarrow> None
                      | Some available_moves \<Rightarrow>
                          (case bfs_expand pf g current_state_node available_moves (q, snd qt) of
                             None \<Rightarrow> None
                           | Some (Inl cost) \<Rightarrow> Some cost
                           | Some (Inr qt') \<Rightarrow> f pf g qt'))))) = Some r"
  show "(\<forall>n \<in> set (chain (fst qt)). 0 \<le> path_cost n) \<longrightarrow> r = - 1 \<or> 1 \<le> r"
  proof
    assume inv: "\<forall>n \<in> set (chain (fst qt)). 0 \<le> path_cost n"
    show "r = - 1 \<or> 1 \<le> r"
    proof (cases "bfsQueueIsEmpty (fst qt)")
      case True
      with step show ?thesis by simp
    next
      case False
      with step obtain cur q ms x where
        best: "getBestNode g (chain (fst qt)) = Some cur"
        and rm: "removeNode g (fst qt) cur = Some q"
        and x: "bfs_expand pf g cur ms (q, snd qt) = Some x"
        and res: "(case x of Inl cost \<Rightarrow> Some cost | Inr qt' \<Rightarrow> f pf g qt') = Some r"
        by (auto split: option.splits simp del: bfs_expand.simps)
      from best have "best_scan g (chain (fst qt)) WORST_CASE_DISTANCE None = Some cur"
        by (simp add: getBestNode_def)
      from best_scan_Some [OF this] have "cur \<in> set (chain (fst qt))" by simp
      with inv have c0: "0 \<le> path_cost cur" by simp
      from removeNode_subset [OF rm] inv have rest: "\<forall>n \<in> set (chain q). 0 \<le> path_cost n" by auto
      from bfs_expand_costs [OF x] have
        cs: "case x of Inl c \<Rightarrow> c = path_cost cur + 1
             | Inr qt' \<Rightarrow> \<forall>n \<in> set (chain (fst qt')). n \<in> set (chain q) \<or> path_cost n = path_cost cur + 1"
        by (auto split: sum.splits)
      show ?thesis
      proof (cases x)
        case (Inl c)
        with cs res c0 show ?thesis by simp
      next
        case (Inr qt')
        with cs rest c0 have "\<forall>n \<in> set (chain (fst qt')). 0 \<le> path_cost n" by fastforce
        with IH [of pf g qt' r] res Inr show ?thesis by simp
      qed
    qed
  qed
qed

lemma ids_loop_result:
  assumes "ids_loop pf g b d = Some y"
  shows "d < y \<and> (\<exists>r. depthLimitedSearch pf g b y = Some r \<and> 0 < r)"
proof (rule ids_loop.raw_induct [OF _ assms])
  fix f pf g b search_depth y
  assume IH: "\<And>pf g b d y. f pf g b d = Some y \<Longrightarrow>
                 d < y \<and> (\<exists>r. depthLimitedSearch pf g b y = Some r \<and> 0 < r)"
    and step: "(case depthLimitedSearch pf g b (search_depth + 1) of
                  None \<Rightarrow> None
                | Some search_result \<Rightarrow>
                    if 0 < search_result then Some (search_depth + 1)
                    else f pf g b (search_depth + 1)) = Some y"
  show "search_depth < y \<and> (\<exists>r. depthLimitedSearch pf g b y = Some r \<and> 0 < r)"
  proof (cases "depthLimitedSearch pf g b (search_depth + 1)")
    case None
    with step show ?thesis by simp
  next
    case (Some r)
    show ?thesis
    proof (cases "0 < r")
      case True
      with step Some show ?thesis by auto
    next
      case False
      with step Some have "f pf g b (search_depth + 1) = Some y" by simp
      from IH [OF this] show ?thesis by auto
    qed
  qed
qed

text \<open>Iterative deepening returns only a depth at which the depth-limited search
  succeeded; it has no result when every round fails.\<close>

lemma interativeDeepeningSearch_result:
  "interativeDeepeningSearch pf g b = Some y \<Longrightarrow>
     0 < y \<and> (\<exists>r. depthLimitedSearch pf g b y = Some r \<and> 0 < r)"
  unfolding interativeDeepeningSearch_def by (rule ids_loop_result)

lemma interativeDeepeningSearch_never:
  assumes "\<And>d. \<exists>r. depthLimitedSearch pf g b d = Some r \<and> r \<le> 0"
  shows "interativeDeepeningSearch pf g b = None"
proof (cases "interativeDeepeningSearch pf g b")
  case None
  then show ?thesis .
next
  case (Some y)
  from interativeDeepeningSearch_result [OF this] obtain r where
    "depthLimitedSearch pf g b y = Some r" "0 < r" by blast
  with assms [of y] show ?thesis by auto
qed

lemma drivers_never_zero:
  "breadthFirstSearch pf g b \<noteq> Some 0" "depthFirstSearch pf g b \<noteq> Some 0"
  "depthLimitedSearch pf g b d \<noteq> Some 0" "interativeDeepeningSearch pf g b \<noteq> Some 0"
  "aStarSearch pf g b \<noteq> Some 0"
proof -
  have root: "\<forall>n \<in> set (chain (bfsEnqueue empty_fifo b None None)). 0 \<le> path_cost n"
    by (simp add: bfsEnqueue_def empty_fifo_def new_node_def)
  show "breadthFirstSearch pf g b \<noteq> Some 0"
  proof
    assume "breadthFirstSearch pf g b = Some 0"
    then obtain t where "bfs_loop pf g (bfsEnqueue empty_fifo b None None, t) = Some 0"
      by (auto simp: breadthFirstSearch_def split: option.splits)
    from bfs_loop_costs [OF this] root show False by simp
  qed
  show "aStarSearch pf g b \<noteq> Some 0"
  proof
    assume "aStarSearch pf g b = Some 0"
    then obtain t where "astar_loop pf g (bfsEnqueue empty_fifo b None None, t) = Some 0"
      by (auto simp: aStarSearch_def split: option.splits)
    from astar_loop_costs [OF this] root show False by simp
  qed
  have gen: "generalDepthFirstSearch pf g b dl md \<noteq> Some 0" for dl md
  proof
    assume "generalDepthFirstSearch pf g b dl md = Some 0"
    then obtain t where "dfs_loop pf g dl md (dfsPushStack [] b None None, t) = Some 0"
      by (auto simp: generalDepthFirstSearch_def split: option.splits)
    from dfs_loop_costs [OF this] show False by (simp add: dfsPushStack_def new_node_def)
  qed
  from gen show "depthFirstSearch pf g b \<noteq> Some 0" by (simp add: depthFirstSearch_def)
  from gen show "depthLimitedSearch pf g b d \<noteq> Some 0" by (simp add: depthLimitedSearch_def)
  from interativeDeepeningSearch_result [of pf g b 0]
  show "interativeDeepeningSearch pf g b \<noteq> Some 0" by auto
qed

text \<open>
  Claim C7, as the code has it.  The goal test is applied to generated successors only,
  so no driver returns 0, on any board.  On a solved, well-formed board for which
  \<open>getAllAvailableMoves\<close> returns at least one move, every driver expands the root and
  returns path cost 1 at the first successor: breadth-first and depth-first search,
  depth-limited search with a positive limit, iterative deepening, and A* search when
  height plus width is below 1000.  This is so where the tables of \<open>normalizeState\<close> fit,
  no label is above \<open>max_block_num\<close>, and the bucket index of the root's key is inside the
  table.
\<close>

theorem solved_root_costs_one:
  "(wf_board g b \<and> checkGameComplete g b \<and> getAllAvailableMoves g b = Some (m # ms) \<and>
    tables_fit pf g \<and> 0 \<le> max_block_num g \<and> (\<forall>c \<in> set (scan g b). c \<le> max_block_num g) \<and>
    getStateHashKey g b = Some k \<and> table_slot pf k = Some i \<longrightarrow>
      breadthFirstSearch pf g b = Some 1 \<and>
      depthFirstSearch pf g b = Some 1 \<and>
      (0 < max_depth \<longrightarrow> depthLimitedSearch pf g b max_depth = Some 1) \<and>
      interativeDeepeningSearch pf g b = Some 1 \<and>
      (int (board_height g) + int (board_width g) < 1000 \<longrightarrow> aStarSearch pf g b = Some 1)) \<and>
   breadthFirstSearch pf g b \<noteq> Some 0 \<and>
   depthFirstSearch pf g b \<noteq> Some 0 \<and>
   depthLimitedSearch pf g b max_depth \<noteq> Some 0 \<and>
   interativeDeepeningSearch pf g b \<noteq> Some 0 \<and>
   aStarSearch pf g b \<noteq> Some 0"
proof -
  have one: "breadthFirstSearch pf g b = Some 1 \<and>
      depthFirstSearch pf g b = Some 1 \<and>
      (0 < max_depth \<longrightarrow> depthLimitedSearch pf g b max_depth = Some 1) \<and>
      interativeDeepeningSearch pf g b = Some 1 \<and>
      (int (board_height g) + int (board_width g) < 1000 \<longrightarrow> aStarSearch pf g b = Some 1)"
    if a: "wf_board g b \<and> checkGameComplete g b \<and> getAllAvailableMoves g b = Some (m # ms) \<and>
      tables_fit pf g \<and> 0 \<le> max_block_num g \<and> (\<forall>c \<in> set (scan g b). c \<le> max_block_num g) \<and>
      getStateHashKey g b = Some k \<and> table_slot pf k = Some i"
  proof -
    from a have wf: "wf_board g b" and solved: "checkGameComplete g b"
      and moves: "getAllAvailableMoves g b = Some (m # ms)" and fit: "tables_fit pf g"
      and m0: "0 \<le> max_block_num g" and lab: "\<forall>c \<in> set (scan g b). c \<le> max_block_num g"
      and k: "getStateHashKey g b = Some k" and slot: "table_slot pf k = Some i" by blast+
    note ins = insert_root [OF slot]
    from root_first_solved [OF wf solved moves fit m0 lab] obtain nb nbs where
      nb: "next_board g b m = Some nb" "normalizeState pf g nb = Some nbs"
          "checkGameComplete g nbs" by blast
    let ?root = "Node 0 b None None"
    have be: "bfs_expand pf g ?root (m # ms) qt = Some (Inl 1)" for qt
      using bfs_expand_first_solved [of g ?root m nb pf nbs ms qt] nb by simp
    have de: "dfs_expand pf g ?root (m # ms) st = Some (Inl 1)" for st
      using dfs_expand_first_solved [of g ?root m nb pf nbs ms st] nb by simp
    have "breadthFirstSearch pf g b = bfs_loop pf g (bfsEnqueue empty_fifo b None None, [(k, 0)])"
      by (simp add: breadthFirstSearch_def k ins)
    also have "\<dots> = Some 1"
      by (subst bfs_loop.simps)
         (simp add: bfsEnqueue_def empty_fifo_def new_node_def bfsQueueIsEmpty_def bfsDequeue_def
            moves be del: bfs_expand.simps)
    finally have bfs: "breadthFirstSearch pf g b = Some 1" .
    have dfs: "dfs_loop pf g dl md ([?root], t) = Some 1" if "\<not> dl \<or> 0 < md" for dl md t
      using that by (subst dfs_loop.simps) (auto simp: moves de simp del: dfs_expand.simps)
    have 2: "depthFirstSearch pf g b = Some 1"
      by (simp add: depthFirstSearch_def generalDepthFirstSearch_def k ins dfsPushStack_def
          new_node_def dfs)
    have 3: "depthLimitedSearch pf g b md = Some 1" if "0 < md" for md
      using that
      by (simp add: depthLimitedSearch_def generalDepthFirstSearch_def k ins dfsPushStack_def
          new_node_def dfs)
    have 4: "interativeDeepeningSearch pf g b = Some 1"
      unfolding interativeDeepeningSearch_def
      by (subst ids_loop.simps) (simp add: 3)
    have 5: "aStarSearch pf g b = Some 1" if "int (board_height g) + int (board_width g) < 1000"
    proof -
      have "f_of_n g ?root < WORST_CASE_DISTANCE"
        using get_heuristic_le [of g b] that by (simp add: f_of_n_def WORST_CASE_DISTANCE_def)
      then have best: "getBestNode g [?root] = Some ?root" by (rule getBestNode_single)
      have "aStarSearch pf g b = astar_loop pf g (bfsEnqueue empty_fifo b None None, [(k, 0)])"
        by (simp add: aStarSearch_def k ins)
      also have "\<dots> = Some 1"
        by (subst astar_loop.simps)
           (simp add: bfsEnqueue_def empty_fifo_def new_node_def bfsQueueIsEmpty_def best
              removeNode_def compareStates_refl moves be del: bfs_expand.simps)
      finally show ?thesis .
    qed
    from bfs 2 3 4 5 show ?thesis by blast
  qed
  from one drivers_never_zero(1,2,4,5) [of pf g b] drivers_never_zero(3) [of pf g b max_depth]
  show ?thesis by blast
qed

theorem solved_root_costs_one_witness:
  "wf_board ex_game5 ex_board5 \<and> checkGameComplete ex_game5 ex_board5 \<and>
   getAllAvailableMoves ex_game5 ex_board5 =
     Some [mk_move 2 RIGHT, mk_move 3 DOWN, mk_move 3 LEFT] \<and>
   tables_fit roomy_platform ex_game5 \<and>
   table_slot roomy_platform ''CAD'' = Some 401 \<and>
   breadthFirstSearch roomy_platform ex_game5 ex_board5 = Some 1 \<and>
   depthFirstSearch roomy_platform ex_game5 ex_board5 = Some 1 \<and>
   depthLimitedSearch roomy_platform ex_game5 ex_board5 1 = Some 1 \<and>
   interativeDeepeningSearch roomy_platform ex_game5 ex_board5 = Some 1 \<and>
   aStarSearch roomy_platform ex_game5 ex_board5 = Some 1 \<and>
   depthLimitedSearch roomy_platform ex_game5 ex_board5 0 \<noteq> Some 0"
proof -
  let ?pf = "roomy_platform"
  have wf: "wf_board ex_game5 ex_board5" by (simp add: wf_board_def ex_game5_def ex_board5_def)
  have solved: "checkGameComplete ex_game5 ex_board5"
    unfolding ex_game5_def ex_board5_def by code_simp
  have dims: "int (board_height ex_game5) + int (board_width ex_game5) < 1000"
    "0 \<le> max_block_num ex_game5"
    by (simp_all add: ex_game5_def)
  have moves: "getAllAvailableMoves ex_game5 ex_board5 =
     Some (mk_move 2 RIGHT # [mk_move 3 DOWN, mk_move 3 LEFT])"
    unfolding ex_game5_def ex_board5_def by code_simp
  have fit: "tables_fit ?pf ex_game5"
    by (simp add: tables_fit_def roomy_platform_def ex_game5_def)
  have "list_all (\<lambda>c. c \<le> max_block_num ex_game5) (scan ex_game5 ex_board5)"
    unfolding ex_game5_def ex_board5_def by code_simp
  then have lab: "\<forall>c \<in> set (scan ex_game5 ex_board5). c \<le> max_block_num ex_game5"
    by (simp add: list_all_iff)
  have k: "getStateHashKey ex_game5 ex_board5 = Some ''CAD''"
    unfolding ex_game5_def ex_board5_def by code_simp
  have slot: "table_slot ?pf ''CAD'' = Some 401"
    unfolding roomy_platform_def ex_game5_def by code_simp
  from solved_root_costs_one [of ex_game5 ex_board5 "mk_move 2 RIGHT"
      "[mk_move 3 DOWN, mk_move 3 LEFT]" ?pf "''CAD''" 401 1]
    wf solved moves fit dims lab k slot
  have 1: "breadthFirstSearch ?pf ex_game5 ex_board5 = Some 1 \<and>
      depthFirstSearch ?pf ex_game5 ex_board5 = Some 1 \<and>
      depthLimitedSearch ?pf ex_game5 ex_board5 1 = Some 1 \<and>
      interativeDeepeningSearch ?pf ex_game5 ex_board5 = Some 1 \<and>
      aStarSearch ?pf ex_game5 ex_board5 = Some 1"
    by simp
  from solved_root_costs_one [of ex_game5 ex_board5 "mk_move 2 RIGHT"
      "[mk_move 3 DOWN, mk_move 3 LEFT]" ?pf "''CAD''" 401 0]
  have 2: "depthLimitedSearch ?pf ex_game5 ex_board5 0 \<noteq> Some 0" by blast
  from 1 2 wf solved moves fit slot show ?thesis by simp
qed

text \<open>The claim as stated fails: where the tables fit, the drivers return 1, not 0, on
  this solved board, and a depth limit of 0 gives the no-solution result; where the
  blocks end with the entries asked for, the drivers have no result.\<close>

theorem solved_root_counterexample:
  "checkGameComplete ex_game5 ex_board5 \<and>
   breadthFirstSearch roomy_platform ex_game5 ex_board5 = Some 1 \<and>
   depthFirstSearch roomy_platform ex_game5 ex_board5 = Some 1 \<and>
   depthLimitedSearch roomy_platform ex_game5 ex_board5 0 = Some (- 1) \<and>
   depthLimitedSearch roomy_platform ex_game5 ex_board5 3 = Some 1 \<and>
   aStarSearch roomy_platform ex_game5 ex_board5 = Some 1 \<and>
   breadthFirstSearch exact_platform ex_game5 ex_board5 = None \<and>
   depthFirstSearch exact_platform ex_game5 ex_board5 = None \<and>
   aStarSearch exact_platform ex_game5 ex_board5 = None"
  unfolding roomy_platform_def exact_platform_def ex_game5_def ex_board5_def by code_simp

section \<open>Iterative deepening without a solution\<close>


lemma dfs_loop_empty: "dfs_loop pf g dl md ([], t) = Some (- 1)"
  by (subst dfs_loop.simps) simp

lemma dfs_loop_fruitless_root:
  assumes "getAllAvailableMoves g (board_state n) = Some ms"
    and "dfs_expand pf g n ms ([], t) = Some (Inr ([], t'))"
  shows "dfs_loop pf g dl md ([n], t) = Some (- 1)"
  using assms by (subst dfs_loop.simps) (simp add: dfs_loop_empty del: dfs_expand.simps)

lemma bfs_loop_empty: "chain q = [] \<Longrightarrow> bfs_loop pf g (q, t) = Some (- 1)"
  by (subst bfs_loop.simps) (simp add: bfsQueueIsEmpty_def)

lemma astar_loop_empty: "chain q = [] \<Longrightarrow> astar_loop pf g (q, t) = Some (- 1)"
  by (subst astar_loop.simps) (simp add: bfsQueueIsEmpty_def)

text \<open>A root without a move: every driver but iterative deepening returns -1, provided
  the root's key can be put into the table.\<close>

lemma no_move_root:
  assumes k: "getStateHashKey g b = Some k" and slot: "table_slot pf k = Some i"
    and m: "getAllAvailableMoves g b = Some []"
  shows "breadthFirstSearch pf g b = Some (- 1)"
    and "generalDepthFirstSearch pf g b dl md = Some (- 1)"
    and "f_of_n g (Node 0 b None None) < WORST_CASE_DISTANCE \<Longrightarrow> aStarSearch pf g b = Some (- 1)"
proof -
  note ins = insert_root [OF slot]
  let ?root = "Node 0 b None None"
  have "breadthFirstSearch pf g b = bfs_loop pf g (bfsEnqueue empty_fifo b None None, [(k, 0)])"
    by (simp add: breadthFirstSearch_def k ins)
  also have "\<dots> = Some (- 1)"
    by (subst bfs_loop.simps)
       (simp add: bfsEnqueue_def empty_fifo_def new_node_def bfsQueueIsEmpty_def bfsDequeue_def
          m bfs_loop_empty)
  finally show "breadthFirstSearch pf g b = Some (- 1)" .
  have "dfs_loop pf g dl md ([?root], [(k, 0)]) = Some (- 1)"
    by (subst dfs_loop.simps) (simp add: m dfs_loop_empty)
  then show "generalDepthFirstSearch pf g b dl md = Some (- 1)"
    by (simp add: generalDepthFirstSearch_def k ins dfsPushStack_def new_node_def)
  assume "f_of_n g ?root < WORST_CASE_DISTANCE"
  then have best: "getBestNode g [?root] = Some ?root" by (rule getBestNode_single)
  have "aStarSearch pf g b = astar_loop pf g (bfsEnqueue empty_fifo b None None, [(k, 0)])"
    by (simp add: aStarSearch_def k ins)
  also have "\<dots> = Some (- 1)"
    by (subst astar_loop.simps)
       (simp add: bfsEnqueue_def empty_fifo_def new_node_def bfsQueueIsEmpty_def best
          removeNode_def compareStates_refl m astar_loop_empty)
  finally show "aStarSearch pf g b = Some (- 1)" .
qed

lemma chars_CB: "of_char CHR ''C'' = (67 :: int)" "of_char CHR ''B'' = (66 :: int)"
  by code_simp+

lemma slot_CB: "table_slot pf ''CB'' = Some 199"
  by (simp add: table_slot_def getHashKeyIndex_def char_value_def in_int_def
      STATE_HASH_TABLE_SIZE_def chars_CB)

text \<open>
  Claim C8, at a board without solution: the primary block is walled in.  Breadth-first
  search returns -1.  Every round of depth-limited search returns -1 as well, and the
  loop of \<open>interativeDeepeningSearch\<close> ends only on a positive result: iterative
  deepening runs forever on this board.  No successor is generated and the root's key
  has bucket index 199, so this is so on every platform.
\<close>

theorem iterative_deepening_no_solution:
  "getAllAvailableMoves ex_game6 ex_board6 = Some [] \<and>
   breadthFirstSearch pf ex_game6 ex_board6 = Some (- 1) \<and>
   depthFirstSearch pf ex_game6 ex_board6 = Some (- 1) \<and>
   aStarSearch pf ex_game6 ex_board6 = Some (- 1) \<and>
   (\<forall>d. depthLimitedSearch pf ex_game6 ex_board6 d = Some (- 1)) \<and>
   interativeDeepeningSearch pf ex_game6 ex_board6 = None"
proof -
  have m: "getAllAvailableMoves ex_game6 ex_board6 = Some []"
    unfolding ex_game6_def ex_board6_def by code_simp
  have k: "getStateHashKey ex_game6 ex_board6 = Some ''CB''"
    unfolding ex_game6_def ex_board6_def by code_simp
  have "f_of_n ex_game6 (Node 0 ex_board6 None None) < WORST_CASE_DISTANCE"
    using get_heuristic_le [of ex_game6 ex_board6]
    by (simp add: f_of_n_def WORST_CASE_DISTANCE_def ex_game6_def)
  with no_move_root [OF k slot_CB m]
  have b: "breadthFirstSearch pf ex_game6 ex_board6 = Some (- 1)"
    and g: "generalDepthFirstSearch pf ex_game6 ex_board6 dl md = Some (- 1)"
    and a: "aStarSearch pf ex_game6 ex_board6 = Some (- 1)" for dl md
    by blast+
  from g have f: "depthFirstSearch pf ex_game6 ex_board6 = Some (- 1)"
    and d: "depthLimitedSearch pf ex_game6 ex_board6 d = Some (- 1)" for d
    by (simp_all add: depthFirstSearch_def depthLimitedSearch_def)
  from d have "interativeDeepeningSearch pf ex_game6 ex_board6 = None"
    by (intro interativeDeepeningSearch_never) simp
  with m b f a d show ?thesis by simp
qed

theorem iterative_deepening_no_solution_witness:
  "interativeDeepeningSearch exact_platform ex_game6 ex_board6 \<noteq> Some (- 1) \<and>
   depthLimitedSearch exact_platform ex_game6 ex_board6 1 = Some (- 1)"
  using iterative_deepening_no_solution [of "exact_platform"] by simp

section \<open>Boards with blocks on the border ring\<close>


text \<open>
  A board of two rows that is solved by moving the primary block to the right twice.
  The key covers the interior cells only, and a board of two rows has none: every board
  has the empty key.  The successor of the root is therefore taken for a visited state
  and dropped, by breadth-first search and by every round of depth-limited search.
  Where the tables of \<open>normalizeState\<close> fit, breadth-first search returns -1, and iterative
  deepening runs forever.
\<close>

lemma two_row_board_facts:
  "getStateHashKey ex_game7 ex_board7 = Some [] \<and>
   getStateHashKey ex_game7 [[1, 1, 1, 1], [0, 2, 2, - 1]] = Some [] \<and>
   getAllAvailableMoves ex_game7 ex_board7 = Some [mk_move 2 RIGHT] \<and>
   next_board ex_game7 ex_board7 (mk_move 2 RIGHT) = Some [[1, 1, 1, 1], [0, 2, 2, - 1]] \<and>
   getAllAvailableMoves ex_game7 [[1, 1, 1, 1], [0, 2, 2, - 1]]
     = Some [mk_move 2 LEFT, mk_move 2 RIGHT] \<and>
   next_board ex_game7 [[1, 1, 1, 1], [0, 2, 2, - 1]] (mk_move 2 RIGHT)
     = Some [[1, 1, 1, 1], [0, 0, 2, 2]] \<and>
   checkGameComplete ex_game7 [[1, 1, 1, 1], [0, 0, 2, 2]] \<and>
   breadthFirstSearch roomy_platform ex_game7 ex_board7 = Some (- 1) \<and>
   (\<forall>d. depthLimitedSearch roomy_platform ex_game7 ex_board7 d = Some (- 1)) \<and>
   interativeDeepeningSearch roomy_platform ex_game7 ex_board7 = None"
proof -
  let ?b1 = "[[1, 1, 1, 1], [0, 2, 2, - 1]]"
  let ?pf = "roomy_platform"
  have k: "getStateHashKey ex_game7 ex_board7 = Some []"
    unfolding ex_game7_def ex_board7_def by code_simp
  have k1: "getStateHashKey ex_game7 ?b1 = Some []"
    unfolding ex_game7_def by code_simp
  have m: "getAllAvailableMoves ex_game7 ex_board7 = Some [mk_move 2 RIGHT]"
    unfolding ex_game7_def ex_board7_def by code_simp
  have n1: "next_board ex_game7 ex_board7 (mk_move 2 RIGHT) = Some ?b1"
    unfolding ex_game7_def ex_board7_def by code_simp
  have m1: "getAllAvailableMoves ex_game7 ?b1 = Some [mk_move 2 LEFT, mk_move 2 RIGHT]"
    unfolding ex_game7_def by code_simp
  have n2: "next_board ex_game7 ?b1 (mk_move 2 RIGHT) = Some [[1, 1, 1, 1], [0, 0, 2, 2]]"
    unfolding ex_game7_def by code_simp
  have s: "checkGameComplete ex_game7 [[1, 1, 1, 1], [0, 0, 2, 2]]"
    unfolding ex_game7_def by code_simp
  have b: "breadthFirstSearch ?pf ex_game7 ex_board7 = Some (- 1)"
    unfolding roomy_platform_def ex_game7_def ex_board7_def by code_simp
  have sl: "table_slot ?pf [] = Some 0"
    by (simp add: table_slot_def getHashKeyIndex_def in_int_def STATE_HASH_TABLE_SIZE_def)
  have e: "dfs_expand ?pf ex_game7 (Node 0 ex_board7 None None) [mk_move 2 RIGHT] ([], [([], 0)])
             = Some (Inr ([], [([], 0)]))"
    unfolding roomy_platform_def ex_game7_def ex_board7_def by code_simp
  have d: "depthLimitedSearch ?pf ex_game7 ex_board7 d = Some (- 1)" for d
    unfolding depthLimitedSearch_def generalDepthFirstSearch_def
    using dfs_loop_fruitless_root [of ex_game7 "Node 0 ex_board7 None None" "[mk_move 2 RIGHT]"
        ?pf "[([], 0)]" "[([], 0)]" True d] m e
    by (simp add: k insert_root [OF sl] dfsPushStack_def new_node_def)
  then have i: "interativeDeepeningSearch ?pf ex_game7 ex_board7 = None"
    by (intro interativeDeepeningSearch_never) simp
  from k k1 m n1 m1 n2 s b d i show ?thesis by simp
qed

text \<open>
  Claim C2 as stated fails at two boards.  The board of claim C7 is solved, so the least
  number of moves is 0; where the tables of \<open>normalizeState\<close> fit, both searches return
  1: the root is never tested.  The board of two rows is solved by two moves; there
  breadth-first search returns -1 and iterative deepening does not return.  Where the
  blocks end with the entries asked for, breadth-first search has no result on either
  board.
\<close>

theorem minimum_moves_counterexample:
  "checkGameComplete ex_game5 ex_board5 \<and>
   breadthFirstSearch roomy_platform ex_game5 ex_board5 = Some 1 \<and>
   interativeDeepeningSearch roomy_platform ex_game5 ex_board5 = Some 1 \<and>
   next_board ex_game7 ex_board7 (mk_move 2 RIGHT) = Some [[1, 1, 1, 1], [0, 2, 2, - 1]] \<and>
   next_board ex_game7 [[1, 1, 1, 1], [0, 2, 2, - 1]] (mk_move 2 RIGHT)
     = Some [[1, 1, 1, 1], [0, 0, 2, 2]] \<and>
   checkGameComplete ex_game7 [[1, 1, 1, 1], [0, 0, 2, 2]] \<and>
   breadthFirstSearch roomy_platform ex_game7 ex_board7 = Some (- 1) \<and>
   interativeDeepeningSearch roomy_platform ex_game7 ex_board7 = None \<and>
   breadthFirstSearch exact_platform ex_game5 ex_board5 = None \<and>
   breadthFirstSearch exact_platform ex_game7 ex_board7 = None"
proof -
  have "checkGameComplete ex_game5 ex_board5 \<and>
   breadthFirstSearch roomy_platform ex_game5 ex_board5 = Some 1 \<and>
   interativeDeepeningSearch roomy_platform ex_game5 ex_board5 = Some 1 \<and>
   breadthFirstSearch exact_platform ex_game5 ex_board5 = None"
    unfolding roomy_platform_def exact_platform_def ex_game5_def ex_board5_def by code_simp
  moreover have "breadthFirstSearch exact_platform ex_game7 ex_board7 = None"
    unfolding exact_platform_def ex_game7_def ex_board7_def by code_simp
  ultimately show ?thesis using two_row_board_facts by simp
qed

section \<open>Further properties of the code\<close>


text \<open>The board that \<open>applyMoveCloning\<close> allocates is the board the drivers' model
  works with.\<close>

lemma applyMoveCloning_next_board:
  "input_state < length h \<Longrightarrow>
   applyMoveCloning g h input_state m =
     (case next_board g (h ! input_state) m of
        None \<Rightarrow> None
      | Some t \<Rightarrow> Some (h @ [t], length h))"
  by (simp add: applyMoveCloning_def cloneGameState_def applyMove_def next_board_def
      split: option.splits)

lemma set_entry_ok: "table_ok t \<Longrightarrow> 0 \<le> v \<Longrightarrow> table_ok (set_entry t k v)"
  by (induction t) (auto simp: table_ok_def)

lemma add_entry_ok: "table_ok t \<Longrightarrow> 0 \<le> v \<Longrightarrow> table_ok (add_entry t k v)"
  by (simp add: table_ok_def add_entry_def)

text \<open>
  Every move that \<open>getAllAvailableMoves\<close> returns, on any board, is a legal move of a
  block that is on the board.
\<close>

theorem returned_moves_are_legal:
  "getAllAvailableMoves g b = Some ms \<Longrightarrow>
     \<forall>m \<in> set ms. present g b (block_num m) \<and> legal_move g b (block_num m) (direction m)"
  using getAllAvailableMoves_legal [of g b ms] by (simp add: list_all_iff legal_on_def)

theorem returned_moves_are_legal_witness:
  "getAllAvailableMoves ex_game4 ex_board4 \<noteq> None \<and>
   legal_move ex_game4 ex_board4 2 RIGHT \<and> legal_move ex_game4 ex_board4 4 UP"
proof -
  have e: "getAllAvailableMoves ex_game4 ex_board4 =
     Some (map (mk_move 2) [UP, DOWN, LEFT, RIGHT] @ map (mk_move 2) [UP, DOWN, LEFT, RIGHT] @
           map (mk_move 4) [UP, DOWN, LEFT, RIGHT])"
    unfolding ex_game4_def ex_board4_def by code_simp
  from returned_moves_are_legal [OF e] show ?thesis by (simp add: e mk_move_def)
qed

text \<open>
  Iterative deepening returns only a positive depth, one at which the depth-limited
  search succeeded, and none of the smaller depths did; it never returns the
  no-solution value.
\<close>

theorem iterative_deepening_returns_success_depth:
  "interativeDeepeningSearch pf g b = Some y \<Longrightarrow>
     0 < y \<and> (\<exists>r. depthLimitedSearch pf g b y = Some r \<and> 0 < r)"
  by (rule interativeDeepeningSearch_result)

theorem iterative_deepening_returns_success_depth_witness:
  "interativeDeepeningSearch roomy_platform ex_game5 ex_board5 = Some 1 \<and>
   depthLimitedSearch roomy_platform ex_game5 ex_board5 1 = Some 1"
proof -
  have i: "interativeDeepeningSearch roomy_platform ex_game5 ex_board5 = Some 1"
    unfolding roomy_platform_def ex_game5_def ex_board5_def by code_simp
  have d: "depthLimitedSearch roomy_platform ex_game5 ex_board5 1 = Some 1"
    unfolding roomy_platform_def ex_game5_def ex_board5_def by code_simp
  from iterative_deepening_returns_success_depth [OF i] i d show ?thesis by simp
qed

text \<open>
  A depth-limited search with limit 0 never expands the root: it returns the
  no-solution value on every board whose key can be put into the table.
\<close>

theorem depth_limit_zero_fails:
  "getStateHashKey g b = Some k \<Longrightarrow> table_slot pf k = Some i \<Longrightarrow>
   depthLimitedSearch pf g b 0 = Some (- 1)"
  unfolding depthLimitedSearch_def generalDepthFirstSearch_def dfsPushStack_def new_node_def
  by (simp add: insert_root, subst dfs_loop.simps) (simp add: dfs_loop_empty)

theorem depth_limit_zero_fails_witness:
  "getStateHashKey ex_game8 ex_board8 = Some [] \<and>
   table_slot exact_platform [] = Some 0 \<and>
   depthLimitedSearch exact_platform ex_game8 ex_board8 0 = Some (- 1)"
proof -
  have k: "getStateHashKey ex_game8 ex_board8 = Some []"
    unfolding ex_game8_def ex_board8_def by code_simp
  have sl: "table_slot exact_platform [] = Some 0"
    by (simp add: table_slot_def getHashKeyIndex_def in_int_def STATE_HASH_TABLE_SIZE_def)
  from depth_limit_zero_fails [OF k sl] k sl show ?thesis by simp
qed

text \<open>
  Where plain \<open>char\<close> is signed, a label from 63 on gives a negative character, and the
  index of a key can be negative: the key of this board has index -189, and every driver
  starts by reading \<open>state_hashtable[-189]\<close>.  Where plain \<open>char\<close> is unsigned the
  index of the same key is 323.
\<close>

theorem signed_char_bucket_index:
  "getStateHashKey ex_game10 ex_board10 = Some [CHR ''C'', CHR 0x80] \<and>
   getHashKeyIndex roomy_platform [CHR ''C'', CHR 0x80] = Some (- 189) \<and>
   table_slot roomy_platform [CHR ''C'', CHR 0x80] = None \<and>
   breadthFirstSearch roomy_platform ex_game10 ex_board10 = None \<and>
   interativeDeepeningSearch roomy_platform ex_game10 ex_board10 = None \<and>
   table_slot (roomy_platform\<lparr>plain_char_signed := False\<rparr>) [CHR ''C'', CHR 0x80]
     = Some 323"
  unfolding roomy_platform_def ex_game10_def ex_board10_def by code_simp

text \<open>The specification's scenario: on the board \<open>[[1,1,1],[2,2,-1]]\<close> the only move is
  (2, right), and where the tables of \<open>normalizeState\<close> fit, breadth-first search returns
  path cost 1.\<close>

theorem scenario_two_by_three:
  "getAllAvailableMoves ex_game8 ex_board8 = Some [mk_move 2 RIGHT] \<and>
   next_board ex_game8 ex_board8 (mk_move 2 RIGHT) = Some [[1, 1, 1], [0, 2, 2]] \<and>
   breadthFirstSearch roomy_platform ex_game8 ex_board8 = Some 1 \<and>
   interativeDeepeningSearch roomy_platform ex_game8 ex_board8 = Some 1"
  unfolding roomy_platform_def ex_game8_def ex_board8_def by code_simp

theorem scenario_two_by_three_witness:
  "breadthFirstSearch roomy_platform ex_game8 ex_board8
     = interativeDeepeningSearch roomy_platform ex_game8 ex_board8"
  using scenario_two_by_three by simp

section \<open>The searches on boards told apart by their keys\<close>

subsection \<open>Successors and reachable boards\<close>

lemma wf_cells: "wf_board g b \<Longrightarrow> c \<in> set (concat b) \<longleftrightarrow> (\<exists>ij \<in> set (positions g). cell b (fst ij) (snd ij) = c)"
  using scan_cells [of c g b] by (simp add: scan_rows rows_wf)

lemma present_wf: "wf_board g b \<Longrightarrow> present g b l \<longleftrightarrow> l \<in> set (concat b)"
  by (simp add: present_def scan_rows rows_wf)

lemma usable_moves:
  assumes "usable g b"
  shows "getAllAvailableMoves g b = Some (all_legal_moves g b)"
  using assms by (intro getAllAvailableMoves_all_present) (simp add: usable_def)

lemma all_directions: "d \<in> set [UP, DOWN, LEFT, RIGHT]"
  by (cases d) simp_all

lemma legal_moves_set:
  "m \<in> set (legal_moves g b p) \<longleftrightarrow> block_num m = p \<and> legal_move g b p (direction m)"
proof -
  have "set (legal_moves g b p) = mk_move p ` {d. legal_move g b p d}"
    unfolding legal_moves_def set_map set_filter using all_directions by blast
  then show ?thesis by (cases m) (auto simp: mk_move_def)
qed

lemma all_legal_moves_label:
  assumes "m \<in> set (all_legal_moves g b)"
  shows "block_num m \<in> {2..max_block_num g} \<and> present g b (block_num m) \<and>
         legal_move g b (block_num m) (direction m)"
  using assms by (auto simp: all_legal_moves_def legal_moves_set)

text \<open>The board after a legal move of a block on a usable board.\<close>

lemma moved_usable:
  assumes u: "usable g b" and m: "m \<in> set (all_legal_moves g b)"
  shows "\<exists>t. next_board g b m = Some t \<and> wf_board g t \<and>
            (\<forall>c \<in> set (concat t). - 1 \<le> c \<and> c \<le> max_block_num g) \<and>
            (\<forall>l \<in> {2..max_block_num g}. l \<in> set (concat t))"
proof -
  let ?p = "block_num m" and ?d = "direction m"
  from u have wf: "wf_board g b" by (simp add: usable_def)
  from all_legal_moves_label [OF m] have p: "?p \<in> {2..max_block_num g}" "present g b ?p"
    and lm: "legal_move g b ?p ?d" by simp_all
  from moved_result [OF lm] obtain t where
    t: "moved g b m = Some t" "wf_board g t"
    and c: "\<forall>xy \<in> set (positions g). cell t (fst xy) (snd xy) =
              (if \<exists>src \<in> set (positions g). cell b (fst src) (snd src) = ?p \<and>
                    neighbour g ?d src = Some xy
               then ?p
               else if cell b (fst xy) (snd xy) = ?p then 0 else cell b (fst xy) (snd xy))"
    by blast
  have nb: "next_board g b m = Some t" using t(1) wf by (simp add: next_board_def rows_wf)
  have bounds: "\<forall>c \<in> set (concat t). - 1 \<le> c \<and> c \<le> max_block_num g"
  proof
    fix v assume "v \<in> set (concat t)"
    then obtain xy where xy: "xy \<in> set (positions g)" and v: "cell t (fst xy) (snd xy) = v"
      using wf_cells [OF t(2)] by blast
    have "cell b (fst xy) (snd xy) \<in> set (concat b)" using wf_cells [OF wf] xy by blast
    with u have "- 1 \<le> cell b (fst xy) (snd xy) \<and> cell b (fst xy) (snd xy) \<le> max_block_num g"
      unfolding usable_def by blast
    with c xy v p(1) show "- 1 \<le> v \<and> v \<le> max_block_num g" by (auto split: if_splits)
  qed
  have pres: "\<forall>l \<in> {2..max_block_num g}. l \<in> set (concat t)"
  proof
    fix l assume l: "l \<in> {2..max_block_num g}"
    with u have "present g b l" by (simp add: usable_def)
    then obtain xy where xy: "xy \<in> set (positions g)" and bl: "cell b (fst xy) (snd xy) = l"
      by (auto simp: present_positions)
    show "l \<in> set (concat t)"
    proof (cases "l = ?p")
      case True
      from legal_move_neighbour [OF lm xy] bl True obtain tgt where
        tgt: "neighbour g ?d xy = Some tgt" by auto
      from neighbour_in_grid [OF tgt xy] have tin: "tgt \<in> set (positions g)" .
      with c xy bl True tgt have "cell t (fst tgt) (snd tgt) = ?p" by auto
      with tin True show ?thesis using wf_cells [OF t(2)] by blast
    next
      case False
      have "\<not> (\<exists>src \<in> set (positions g). cell b (fst src) (snd src) = ?p \<and> neighbour g ?d src = Some xy)"
      proof
        assume "\<exists>src \<in> set (positions g). cell b (fst src) (snd src) = ?p \<and> neighbour g ?d src = Some xy"
        then obtain src where s: "src \<in> set (positions g)" "cell b (fst src) (snd src) = ?p"
          "neighbour g ?d src = Some xy" by blast
        with lm have "passable ?p (cell b (fst xy) (snd xy))"
          by (auto simp: legal_move_def split: option.splits prod.splits)
        with bl False l show False by (auto simp: passable_def)
      qed
      with c xy bl False have "cell t (fst xy) (snd xy) = l" by auto
      with xy show ?thesis using wf_cells [OF t(2)] by blast
    qed
  qed
  from nb t(2) bounds pres show ?thesis by blast
qed

lemma label_index_nth: "distinct ds \<Longrightarrow> k < length ds \<Longrightarrow> label_index ds (ds ! k) = k"
proof (induction ds arbitrary: k)
  case Nil
  then show ?case by simp
next
  case (Cons d ds)
  then show ?case by (cases k) auto
qed

lemma normalize_usable:
  assumes wf: "wf_board g t"
    and bounds: "\<forall>c \<in> set (concat t). - 1 \<le> c \<and> c \<le> max_block_num g"
    and pres: "\<forall>l \<in> {2..max_block_num g}. l \<in> set (concat t)"
  shows "usable g (normalize_fun g t)"
proof -
  let ?cs = "concat t" and ?L = "labels_in_order (concat t)"
  have N: "normalize_fun g t = map (map (relabel ?cs)) t"
    using wf by (simp add: normalize_fun_relabel rows_wf scan_rows)
  have cN: "concat (normalize_fun g t) = map (relabel ?cs) ?cs"
    by (simp add: N map_concat)
  have wfN: "wf_board g (normalize_fun g t)" by (rule wf_normalize_fun)
  have setL: "set ?L = {3..max_block_num g}"
  proof -
    have "set ?L = {c \<in> set ?cs. 2 < c}" by (rule set_labels_in_order)
    also have "\<dots> = {3..max_block_num g}" using bounds pres by auto
    finally show ?thesis .
  qed
  have lenL: "int (length ?L) = (if 3 \<le> max_block_num g then max_block_num g - 2 else 0)"
  proof -
    have "length ?L = card (set ?L)"
      using distinct_labels_in_order [of ?cs] by (simp add: distinct_card)
    then show ?thesis by (simp add: setL)
  qed
  have b: "\<forall>c \<in> set (concat (normalize_fun g t)). - 1 \<le> c \<and> c \<le> max_block_num g"
  proof
    fix v assume "v \<in> set (concat (normalize_fun g t))"
    then obtain c where c: "c \<in> set ?cs" and v: "v = relabel ?cs c" by (auto simp: cN)
    show "- 1 \<le> v \<and> v \<le> max_block_num g"
    proof (cases "2 < c")
      case True
      with c have "c \<in> set ?L" by (simp add: set_labels_in_order)
      from label_index_less [OF this] lenL True c bounds
      show ?thesis by (auto simp: v relabel_def split: if_splits)
    next
      case False
      with c bounds pres show ?thesis by (auto simp: v relabel_def)
    qed
  qed
  have p: "\<forall>l \<in> {2..max_block_num g}. present g (normalize_fun g t) l"
  proof
    fix l assume l: "l \<in> {2..max_block_num g}"
    show "present g (normalize_fun g t) l"
    proof (cases "l = 2")
      case True
      with pres l have "2 \<in> set ?cs" by auto
      then have "relabel ?cs 2 \<in> set (concat (normalize_fun g t))" unfolding cN by simp
      then show ?thesis using True by (simp add: present_wf [OF wfN] relabel_def)
    next
      case False
      with l have l3: "3 \<le> l" "l \<le> max_block_num g" by auto
      let ?k = "nat (l - 3)"
      have k: "?k < length ?L" using lenL l3 by auto
      then have in_L: "?L ! ?k \<in> set ?L" by simp
      then have in_cs: "?L ! ?k \<in> set ?cs" and gt: "2 < ?L ! ?k" by (simp_all add: set_labels_in_order)
      have "relabel ?cs (?L ! ?k) = l"
        using gt label_index_nth [OF distinct_labels_in_order k] l3 by (simp add: relabel_def)
      moreover have "relabel ?cs (?L ! ?k) \<in> set (concat (normalize_fun g t))"
        unfolding cN using in_cs by simp
      ultimately show ?thesis by (simp add: present_wf [OF wfN])
    qed
  qed
  from wfN b p show ?thesis by (simp add: usable_def)
qed

lemma successors_iff:
  assumes "usable g b"
  shows "b' \<in> set (successors g b) \<longleftrightarrow>
         (\<exists>m \<in> set (all_legal_moves g b). \<exists>t. next_board g b m = Some t \<and> b' = normalize_fun g t)"
proof -
  have "b' \<in> set (successors g b) \<longleftrightarrow>
        (\<exists>m \<in> set (all_legal_moves g b).
           b' \<in> set (case next_board g b m of None \<Rightarrow> [] | Some nb \<Rightarrow> [normalize_fun g nb]))"
    by (simp add: successors_def usable_moves [OF assms])
  also have "\<dots> \<longleftrightarrow> (\<exists>m \<in> set (all_legal_moves g b). \<exists>t. next_board g b m = Some t \<and> b' = normalize_fun g t)"
  proof (rule bex_cong [OF refl])
    fix m
    show "b' \<in> set (case next_board g b m of None \<Rightarrow> [] | Some nb \<Rightarrow> [normalize_fun g nb]) \<longleftrightarrow>
          (\<exists>t. next_board g b m = Some t \<and> b' = normalize_fun g t)"
      by (cases "next_board g b m") auto
  qed
  finally show ?thesis .
qed

lemma successors_usable:
  assumes "usable g b" and "b' \<in> set (successors g b)"
  shows "usable g b'"
proof -
  from assms obtain m t where m: "m \<in> set (all_legal_moves g b)"
    and t: "next_board g b m = Some t" and b': "b' = normalize_fun g t"
    by (auto simp: successors_iff)
  from moved_usable [OF assms(1) m] t have "wf_board g t"
    and "\<forall>c \<in> set (concat t). - 1 \<le> c \<and> c \<le> max_block_num g"
    and "\<forall>l \<in> {2..max_block_num g}. l \<in> set (concat t)"
    by auto
  then show ?thesis unfolding b' by (rule normalize_usable)
qed

lemma reach_nonneg: "(k, b) \<in> reach g b0 \<Longrightarrow> 0 \<le> k"
  by (induction rule: reach.induct) auto

lemma reach_zero:
  assumes "(0, b) \<in> reach g b0"
  shows "b = b0"
  using assms
proof (cases rule: reach.cases)
  case root
  then show ?thesis by simp
next
  case (step n b1)
  with reach_nonneg [OF step(2)] show ?thesis by simp
qed

lemma reach_usable:
  assumes "usable g b0" and "(k, b) \<in> reach g b0"
  shows "usable g b"
  using assms(2,1) by (induction rule: reach.induct) (auto intro: successors_usable)

lemma usable_finite: "finite {b. usable g b}"
proof -
  let ?R = "{r. set r \<subseteq> {- 1..max_block_num g} \<and> length r = board_width g}"
  have fr: "finite ?R" by (rule finite_lists_length_eq) simp
  have "{b. usable g b} \<subseteq> {b. set b \<subseteq> ?R \<and> length b = board_height g}"
    by (auto simp: usable_def wf_board_def)
  moreover have "finite {b. set b \<subseteq> ?R \<and> length b = board_height g}"
    using fr by (rule finite_lists_length_eq)
  ultimately show ?thesis by (rule finite_subset)
qed

lemma reach_keys_finite:
  assumes "usable g b0"
  shows "finite (reach_keys g b0)"
proof -
  have "snd ` reach g b0 \<subseteq> {b. usable g b}"
    using reach_usable [OF assms] by auto
  then have "finite (snd ` reach g b0)" using usable_finite by (rule finite_subset)
  then show ?thesis by (simp add: reach_keys_def)
qed

lemma key_of_Some:
  "2 \<le> board_height g \<Longrightarrow> 2 \<le> board_width g \<Longrightarrow> getStateHashKey g b = Some (key_of g b)"
  using getStateHashKey_Some [of g b] by (auto simp: key_of_def)

lemma unique_keysD:
  assumes "unique_keys g b0" and "2 \<le> board_height g" and "2 \<le> board_width g"
    and "(k, b) \<in> reach g b0" and "(k', b') \<in> reach g b0" and "key_of g b = key_of g b'"
  shows "b = b'"
  using assms unfolding unique_keys_def
  by (metis key_of_Some)

subsection \<open>The table and the tables of normalizeState on usable boards\<close>

lemma of_char_range: "0 \<le> (of_char ch :: int) \<and> (of_char ch :: int) \<le> 255"
  using pos_mod_sign [of 256 "of_char ch :: int"] pos_mod_bound [of 256 "of_char ch :: int"] by simp

lemma char_value_unsigned: "\<not> plain_char_signed pf \<Longrightarrow> 0 \<le> char_value pf ch \<and> char_value pf ch \<le> 255"
  using of_char_range [of ch] by (simp add: char_value_def)

lemma char_value_key_char:
  assumes "- 1 \<le> c" and "c < 63"
  shows "0 \<le> char_value pf (key_char c) \<and> char_value pf (key_char c) \<le> 255"
proof -
  have "(of_char (key_char c) :: int) = c + 65"
    using assms by (simp add: key_char_def)
  with assms show ?thesis by (simp add: char_value_def)
qed

lemma running_total_Some:
  assumes "\<forall>ch \<in> set cs. 0 \<le> char_value pf ch \<and> char_value pf ch \<le> 255"
    and "0 \<le> i" and "i + int (length cs) \<le> 4000"
    and "0 \<le> tot" and "2 * tot \<le> 255 * (i * (i + 1))"
  shows "\<exists>r. running_total pf cs i tot = Some r \<and> 0 \<le> r"
  using assms
proof (induction cs arbitrary: i tot)
  case Nil
  then show ?case by simp
next
  case (Cons ch cs)
  let ?v = "char_value pf ch"
  from Cons.prems(1) have v: "0 \<le> ?v" "?v \<le> 255" by simp_all
  from Cons.prems(2,3) have i: "0 \<le> i" "i + 1 \<le> 4000" by simp_all
  have p0: "0 \<le> ?v * (i + 1)" using v i by simp
  have p1: "?v * (i + 1) \<le> 255 * (i + 1)" using v i by (intro mult_right_mono) simp_all
  have sq: "(i + 1) * (i + 2) \<le> 4000 * 4001" using i by (intro mult_mono) simp_all
  have inv: "2 * (tot + ?v * (i + 1)) \<le> 255 * ((i + 1) * (i + 1 + 1))"
    using Cons.prems(5) p1 by (simp add: algebra_simps)
  have t0: "0 \<le> tot + ?v * (i + 1)" using Cons.prems(4) p0 by simp
  have small: "tot + ?v * (i + 1) \<le> 2147483647" using inv sq by (simp add: algebra_simps)
  have small1: "?v * (i + 1) \<le> 2147483647" using p1 i by simp
  have len: "i + 1 + int (length cs) \<le> 4000" using Cons.prems(3) by simp
  have rest: "\<forall>ch \<in> set cs. 0 \<le> char_value pf ch \<and> char_value pf ch \<le> 255"
    using Cons.prems(1) by simp
  have i1: "0 \<le> i + 1" using i by simp
  from Cons.IH [OF rest i1 len t0 inv] p0 small small1 t0
  show ?case by (simp add: in_int_def)
qed

lemma table_slot_Some:
  assumes "\<forall>ch \<in> set k. 0 \<le> char_value pf ch \<and> char_value pf ch \<le> 255"
    and "length k \<le> 4000"
  shows "\<exists>i. table_slot pf k = Some i"
proof -
  from running_total_Some [OF assms(1), of 0 0] assms(2)
  obtain r where r: "running_total pf k 0 0 = Some r" "0 \<le> r" by auto
  have "0 \<le> r mod 1000" "r mod 1000 < 1000" by simp_all
  with r assms(2) show ?thesis
    by (simp add: table_slot_def getHashKeyIndex_def in_int_def STATE_HASH_TABLE_SIZE_def)
qed

lemma set_interior: "wf_board g b \<Longrightarrow> c \<in> set (interior g b) \<Longrightarrow> c \<in> set (concat b)"
proof -
  assume wf: "wf_board g b" and "c \<in> set (interior g b)"
  then have "\<exists>i j. i < board_height g \<and> j < board_width g \<and> c = cell b i j"
  proof (clarsimp simp: interior_def)
    fix i j assume "i < board_height g - Suc 0" "j < board_width g - Suc 0"
    then have "i < board_height g \<and> j < board_width g \<and> cell b i j = cell b i j" by arith
    then show "\<exists>i'<board_height g. \<exists>j'<board_width g. cell b i j = cell b i' j'" by blast
  qed
  then obtain i j where "i < board_height g" "j < board_width g" "c = cell b i j" by blast
  then have "\<exists>ij \<in> set (positions g). cell b (fst ij) (snd ij) = c"
    by (intro bexI [of _ "(i, j)"]) (simp_all add: positions_def)
  then show "c \<in> set (concat b)" using scan_cells [of c g b] wf by (simp add: wf_scan)
qed

lemma usable_slot:
  assumes ix: "indexable pf g" and u: "usable g b"
  shows "\<exists>i. table_slot pf (key_of g b) = Some i"
proof -
  let ?cs = "map key_char (interior g b)"
  let ?k = "takeWhile (\<lambda>ch. ch \<noteq> CHR 0x00) ?cs"
  have k: "key_of g b = ?k \<or> key_of g b = []"
    by (simp add: key_of_def getStateHashKey_def)
  have chars: "\<forall>ch \<in> set ?cs. 0 \<le> char_value pf ch \<and> char_value pf ch \<le> 255"
  proof (cases "plain_char_signed pf")
    case False
    then show ?thesis by (simp add: char_value_unsigned)
  next
    case True
    with ix have m: "max_block_num g < 63" by (simp add: indexable_def)
    show ?thesis
    proof
      fix ch assume "ch \<in> set ?cs"
      then obtain c where c: "c \<in> set (interior g b)" and ch: "ch = key_char c" by auto
      from u have wf: "wf_board g b" by (simp add: usable_def)
      from set_interior [OF wf c] have "c \<in> set (concat b)" .
      with u have "- 1 \<le> c \<and> c \<le> max_block_num g" unfolding usable_def by blast
      with m have "- 1 \<le> c" "c < 63" by simp_all
      then show "0 \<le> char_value pf ch \<and> char_value pf ch \<le> 255"
        unfolding ch by (rule char_value_key_char)
    qed
  qed
  have "set ?k \<subseteq> set ?cs" using set_takeWhileD by fastforce
  with chars have ck: "\<forall>ch \<in> set ?k. 0 \<le> char_value pf ch \<and> char_value pf ch \<le> 255" by blast
  have "length ?k \<le> length ?cs" by (rule length_takeWhile_le)
  also have "\<dots> \<le> 4000" using ix by (simp add: length_interior indexable_def)
  finally have lk: "length ?k \<le> 4000" .
  from k show ?thesis
  proof
    assume "key_of g b = ?k"
    with table_slot_Some [OF ck lk] show ?thesis by simp
  next
    assume "key_of g b = []"
    with table_slot_Some [of "[]" pf] show ?thesis by simp
  qed
qed

text \<open>On a usable board the three table functions find the chain of the board's key and
  do what the walks along the chain do.\<close>

lemma usable_ops:
  assumes "indexable pf g" and "usable g b"
  shows "getHashTableValue pf t (key_of g b) = Some (entry_value t (key_of g b))"
    and "insertIntoStateHashTable pf t (key_of g b) v = Some (add_entry t (key_of g b) v)"
    and "updateHashTableValue pf t (key_of g b) v = Some (set_entry t (key_of g b) v)"
  using usable_slot [OF assms]
  by (auto simp: getHashTableValue_def insertIntoStateHashTable_def updateHashTableValue_def)

subsection \<open>Framed boards have distinct keys\<close>

text \<open>The characters of a key are distinct and not NUL for labels below 191.\<close>

lemma zero_is_char_of: "CHR 0x00 = char_of (0::int)"
  by (simp add: char_of_def)

lemma key_char_nonzero:
  assumes "- 1 \<le> c" and "c < 191"
  shows "key_char c \<noteq> CHR 0x00"
proof -
  have "(c + 65) mod 256 = c + 65" using assms by simp
  then have "(c + 65) mod 256 \<noteq> 0 mod 256" using assms by simp
  then show ?thesis unfolding key_char_def zero_is_char_of char_of_quasi_inj .
qed

lemma key_char_inj:
  assumes "- 1 \<le> c" "c < 191" "- 1 \<le> c'" "c' < 191" "key_char c = key_char c'"
  shows "c = c'"
proof -
  from assms(5) have "(c + 65) mod 256 = (c' + 65) mod 256" by (simp add: key_char_def)
  moreover have "(c + 65) mod 256 = c + 65" "(c' + 65) mod 256 = c' + 65" using assms by simp_all
  ultimately show ?thesis by simp
qed

text \<open>A move cannot enter a wall cell, and a move into the goal cell solves the board: an
  unsolved successor of a framed board is framed.\<close>

lemma cell_normalize_fun_relabel:
  assumes "wf_board g t" and "ij \<in> set (positions g)"
  shows "cell (normalize_fun g t) (fst ij) (snd ij) = relabel (scan g t) (cell t (fst ij) (snd ij))"
proof -
  from assms(2) have i: "fst ij < board_height g" and j: "snd ij < board_width g"
    by (simp_all add: fst_snd_positions)
  from assms(1) i have li: "fst ij < length t" by (simp add: wf_board_def)
  with assms(1) j have lj: "snd ij < length (t ! fst ij)" by (simp add: wf_board_def)
  have "normalize_fun g t = map (map (relabel (scan g t))) t"
    using assms(1) by (simp add: normalize_fun_relabel rows_wf)
  with li lj show ?thesis by (simp add: cell_def)
qed

lemma legal_move_passable:
  assumes "legal_move g b p d" and "src \<in> set (positions g)"
    and "cell b (fst src) (snd src) = p" and "neighbour g d src = Some xy"
  shows "passable p (cell b (fst xy) (snd xy))"
  using assms by (cases xy) (auto simp: legal_move_def split: option.splits)

lemma framed_step:
  assumes u: "usable g b" and f: "framed g p b"
    and m: "m \<in> set (all_legal_moves g b)" and t: "next_board g b m = Some t"
    and un: "\<not> checkGameComplete g (normalize_fun g t)"
  shows "framed g p (normalize_fun g t)"
proof -
  let ?l = "block_num m" and ?d = "direction m"
  from u have wf: "wf_board g b" by (simp add: usable_def)
  from all_legal_moves_label [OF m] have l: "2 \<le> ?l" and lm: "legal_move g b ?l ?d" by simp_all
  let ?target = "\<lambda>xy. \<exists>src \<in> set (positions g). cell b (fst src) (snd src) = ?l \<and>
                    neighbour g ?d src = Some xy"
  from moved_result [OF lm] t wf have wft: "wf_board g t"
    and c: "\<forall>xy \<in> set (positions g). cell t (fst xy) (snd xy) =
              (if ?target xy then ?l
               else if cell b (fst xy) (snd xy) = ?l then 0 else cell b (fst xy) (snd xy))"
    by (auto simp: next_board_def rows_wf)
  have goal_t: "cell t (fst xy) (snd xy) = - 1 \<longleftrightarrow> xy = p \<and> \<not> ?target p"
    if "xy \<in> set (positions g)" for xy
  proof -
    from f that have "cell b (fst xy) (snd xy) = - 1 \<longleftrightarrow> xy = p" by (simp add: framed_def)
    with c that l show ?thesis by auto
  qed
  from un have "\<not> checkGameComplete g t" by (simp add: checkGameComplete_normalize_fun)
  then obtain xy where "xy \<in> set (positions g)" "cell t (fst xy) (snd xy) = - 1"
    by (auto simp: checkGameComplete_iff scan_cells)
  with goal_t have free: "\<not> ?target p" by blast
  show ?thesis
    unfolding framed_def
  proof
    fix ij assume ij: "ij \<in> set (positions g)"
    let ?c = "cell t (fst ij) (snd ij)"
    have n: "cell (normalize_fun g t) (fst ij) (snd ij) = relabel (scan g t) ?c"
      using wft ij by (rule cell_normalize_fun_relabel)
    have 1: "?c = - 1 \<longleftrightarrow> ij = p" using goal_t [OF ij] free by simp
    have 2: "?c = 1" if b: "on_border g ij" "ij \<noteq> p"
    proof -
      from f ij b have one: "cell b (fst ij) (snd ij) = 1" by (simp add: framed_def)
      have "\<not> ?target ij"
      proof
        assume "?target ij"
        then obtain src where "src \<in> set (positions g)" "cell b (fst src) (snd src) = ?l"
          "neighbour g ?d src = Some ij" by blast
        from legal_move_passable [OF lm this] one l show False by (simp add: passable_def)
      qed
      with c ij one l show ?thesis by simp
    qed
    have "relabel (scan g t) ?c = 1 \<longleftrightarrow> ?c = 1" by (auto simp: relabel_def)
    with 1 2 n
    show "(cell (normalize_fun g t) (fst ij) (snd ij) = - 1 \<longleftrightarrow> ij = p) \<and>
        (on_border g ij \<and> ij \<noteq> p \<longrightarrow> cell (normalize_fun g t) (fst ij) (snd ij) = 1)"
      by (auto simp: relabel_goal)
  qed
qed

lemma reach_framed:
  assumes u: "usable g b0" and f: "framed g p b0" and r: "(k, b) \<in> reach g b0"
  shows "framed g p b"
  using r
proof (induction rule: reach.induct)
  case root
  show ?case by (rule f)
next
  case (step n b b')
  have ub: "usable g b" using reach_usable [OF u step.hyps(1)] .
  from step.hyps(2) obtain m t where "m \<in> set (all_legal_moves g b)" "next_board g b m = Some t"
    "b' = normalize_fun g t" using successors_iff [OF ub] by blast
  with framed_step [OF ub step.IH] step.hyps(3) show ?case by blast
qed

text \<open>The key lists the interior cells; two framed boards with the same key are the same
  board.\<close>

lemma interior_eq_cells:
  assumes "interior g b = interior g b'"
    and "1 \<le> i" "i + 1 < board_height g" "1 \<le> j" "j + 1 < board_width g"
  shows "cell b i j = cell b' i j"
proof -
  let ?r = "\<lambda>b i. map (\<lambda>j. cell b i j) [1..<board_width g - 1]"
  have "concat (map (?r b) [1..<board_height g - 1]) = concat (map (?r b') [1..<board_height g - 1])"
    using assms(1) by (simp add: interior_def)
  moreover have "\<forall>(x, y) \<in> set (zip (map (?r b) [1..<board_height g - 1])
        (map (?r b') [1..<board_height g - 1])). length x = length y"
    by (auto simp: zip_map_map)
  ultimately have "map (?r b) [1..<board_height g - 1] = map (?r b') [1..<board_height g - 1]"
    by (subst (asm) concat_eq_concat_iff) simp_all
  then have "\<forall>i \<in> set [1..<board_height g - 1]. ?r b i = ?r b' i"
    by (rule map_eq_conv [THEN iffD1])
  moreover have "i \<in> set [1..<board_height g - 1]" using assms(2,3) by simp
  ultimately have "?r b i = ?r b' i" by blast
  then have "\<forall>j \<in> set [1..<board_width g - 1]. cell b i j = cell b' i j"
    by (rule map_eq_conv [THEN iffD1])
  moreover have "j \<in> set [1..<board_width g - 1]" using assms(4,5) by simp
  ultimately show ?thesis by blast
qed

lemma interior_cells:
  assumes "wf_board g b"
  shows "set (interior g b) \<subseteq> set (concat b)"
proof
  fix c assume "c \<in> set (interior g b)"
  then obtain i j where "i \<in> set [1..<board_height g - 1]" "j \<in> set [1..<board_width g - 1]"
    "c = cell b i j"
    unfolding interior_def by auto
  then have "i < board_height g" "j < board_width g" "c = cell b i j" by auto
  then have "(i, j) \<in> set (positions g)" "cell b (fst (i, j)) (snd (i, j)) = c"
    by (simp_all add: mem_positions)
  then show "c \<in> set (concat b)" using wf_cells [OF assms] by blast
qed

lemma key_of_interior:
  assumes "2 \<le> board_height g" and "2 \<le> board_width g"
    and "\<forall>c \<in> set (interior g b). - 1 \<le> c \<and> c < 191"
  shows "key_of g b = map key_char (interior g b)"
proof -
  have "int ((board_height g - 2) * (board_width g - 2))
          = (int (board_height g) - 2) * (int (board_width g) - 2)"
    using assms(1,2) by simp
  then have "key_of g b = takeWhile (\<lambda>ch. ch \<noteq> CHR 0x00) (map key_char (interior g b))"
    by (simp add: key_of_def getStateHashKey_def length_interior)
  moreover have "\<forall>ch \<in> set (map key_char (interior g b)). ch \<noteq> CHR 0x00"
    using assms(3) key_char_nonzero by auto
  ultimately show ?thesis by (simp only: takeWhile_eq_all_conv [THEN iffD2])
qed

lemma framed_D:
  assumes "framed g p b" and "ij \<in> set (positions g)"
  shows "cell b (fst ij) (snd ij) = - 1 \<longleftrightarrow> ij = p"
    and "on_border g ij \<Longrightarrow> ij \<noteq> p \<Longrightarrow> cell b (fst ij) (snd ij) = 1"
  using assms unfolding framed_def by blast+

lemma usable_interior:
  assumes "usable g b" and "max_block_num g < 191"
  shows "\<forall>c \<in> set (interior g b). - 1 \<le> c \<and> c < 191"
proof
  fix c assume "c \<in> set (interior g b)"
  moreover from assms(1) have wf: "wf_board g b"
    and bounds: "\<forall>c \<in> set (concat b). - 1 \<le> c \<and> c \<le> max_block_num g"
    unfolding usable_def by blast+
  ultimately have "c \<in> set (concat b)" using interior_cells [OF wf] by blast
  with bounds have "- 1 \<le> c \<and> c \<le> max_block_num g" by blast
  with assms(2) show "- 1 \<le> c \<and> c < 191" by simp
qed

lemma framed_key_inj:
  assumes dims: "2 \<le> board_height g" "2 \<le> board_width g" and mx: "max_block_num g < 191"
    and u: "usable g b" and u': "usable g b'"
    and f: "framed g p b" and f': "framed g p b'"
    and k: "key_of g b = key_of g b'"
  shows "b = b'"
proof -
  from u u' have wf: "wf_board g b" and wf': "wf_board g b'" unfolding usable_def by blast+
  note r = usable_interior [OF u mx] and r' = usable_interior [OF u' mx]
  have "map key_char (interior g b) = map key_char (interior g b')"
    using k unfolding key_of_interior [OF dims r] key_of_interior [OF dims r'] .
  moreover have "inj_on key_char (set (interior g b) \<union> set (interior g b'))"
  proof (rule inj_onI)
    fix c c' assume "c \<in> set (interior g b) \<union> set (interior g b')"
      "c' \<in> set (interior g b) \<union> set (interior g b')" and e: "key_char c = key_char c'"
    with r r' have "- 1 \<le> c" "c < 191" "- 1 \<le> c'" "c' < 191" by blast+
    then show "c = c'" using e by (rule key_char_inj)
  qed
  ultimately have int: "interior g b = interior g b'" by (rule map_inj_on)
  have eq: "cell b i j = cell b' i j" if "i < board_height g" "j < board_width g" for i j
  proof (cases "on_border g (i, j)")
    case True
    from that have ij: "(i, j) \<in> set (positions g)" by (simp add: mem_positions)
    show ?thesis
    proof (cases "(i, j) = p")
      case True
      with framed_D(1) [OF f ij] framed_D(1) [OF f' ij] show ?thesis by auto
    next
      case False
      with framed_D(2) [OF f ij True] framed_D(2) [OF f' ij True] show ?thesis by auto
    qed
  next
    case False
    with that have "1 \<le> i" "i + 1 < board_height g" "1 \<le> j" "j + 1 < board_width g"
      by (auto simp: on_border_def)
    with int show ?thesis by (rule interior_eq_cells)
  qed
  have "rows g b = rows g b'"
    unfolding rows_def
  proof (rule map_cong [OF refl], rule map_cong [OF refl])
    fix i j assume "i \<in> set [0..<board_height g]" "j \<in> set [0..<board_width g]"
    then have "i < board_height g" "j < board_width g" by simp_all
    then show "cell b i j = cell b' i j" by (rule eq)
  qed
  then show ?thesis unfolding rows_wf [OF wf] rows_wf [OF wf'] .
qed

lemma framed_unique_keys:
  assumes "2 \<le> board_height g" "2 \<le> board_width g" and "max_block_num g < 191"
    and "usable g b0" and "framed g p b0"
  shows "unique_keys g b0"
  unfolding unique_keys_def
proof (intro allI impI)
  fix k b k' b'
  assume r: "(k, b) \<in> reach g b0" and r': "(k', b') \<in> reach g b0"
    and e: "getStateHashKey g b = getStateHashKey g b'"
  from e have "key_of g b = key_of g b'" by (simp add: key_of_def)
  with assms(1-3) reach_usable [OF assms(4) r] reach_usable [OF assms(4) r']
    reach_framed [OF assms(4,5) r] reach_framed [OF assms(4,5) r']
  show "b = b'" by (rule framed_key_inj)
qed

subsection \<open>Breadth-first search\<close>

lemma present_key:
  assumes "table_ok t"
  shows "0 \<le> entry_value t k \<longleftrightarrow> k \<in> dkeys t"
proof (cases "k \<in> fst ` set t")
  case True
  with entry_value_present [OF True assms] show ?thesis by (simp add: dkeys_def)
next
  case False
  with entry_value_absent [OF False] show ?thesis by (simp add: dkeys_def)
qed

lemma closed_mono: "closed g t b \<Longrightarrow> dkeys t \<subseteq> dkeys t' \<Longrightarrow> closed g t' b"
  by (auto simp: closed_def)

lemma dkeys_insert [simp]: "dkeys (add_entry t k v) = insert k (dkeys t)"
  by (auto simp: dkeys_def add_entry_def)

lemma chain_bfsEnqueue:
  "tail_linked q \<Longrightarrow> chain (bfsEnqueue q b m par) = chain q @ [new_node b m par] \<and>
                      tail_linked (bfsEnqueue q b m par)"
  by (simp add: bfsEnqueue_def)

lemma bfs_J_enqueue:
  assumes dims: "2 \<le> board_height g" "2 \<le> board_width g"
    and uq: "unique_keys g b0"
    and J: "bfs_J g b0 (path_cost cur) X (q, t)"
    and new: "(path_cost cur + 1, b') \<in> reach g b0"
    and fresh: "key_of g b' \<notin> dkeys t"
  shows "bfs_J g b0 (path_cost cur) X
           (bfsEnqueue q b' mv (Some cur),
            add_entry t (key_of g b') (path_cost cur + 1))"
proof -
  let ?c = "path_cost cur"
  let ?n = "new_node b' mv (Some cur)"
  let ?t = "add_entry t (key_of g b') (?c + 1)"
  from J have tl: "tail_linked q" and ok: "table_ok t" and c0: "0 \<le> ?c"
    and nodes: "\<forall>n \<in> set (chain q). ?c \<le> path_cost n \<and> path_cost n \<le> ?c + 1 \<and>
        (path_cost n, board_state n) \<in> reach g b0 \<and>
        (\<forall>k. (k, board_state n) \<in> reach g b0 \<longrightarrow> path_cost n \<le> k) \<and>
        key_of g (board_state n) \<in> dkeys t"
    and srt: "sorted (map path_cost (chain q))"
    and J4: "\<forall>k b. (k, b) \<in> reach g b0 \<longrightarrow> key_of g b \<in> dkeys t \<longrightarrow>
        b \<in> board_state ` set (chain q) \<or> closed g t b \<or> b \<in> X"
    and J5: "\<forall>k b. (k, b) \<in> reach g b0 \<longrightarrow> k \<le> ?c \<longrightarrow> key_of g b \<in> dkeys t"
    and J6: "\<forall>k b. (k, b) \<in> reach g b0 \<longrightarrow> k < ?c \<longrightarrow> closed g t b"
    by (simp_all add: bfs_J_def)
  have ch: "chain (bfsEnqueue q b' mv (Some cur)) = chain q @ [?n]"
    and tl': "tail_linked (bfsEnqueue q b' mv (Some cur))"
    using chain_bfsEnqueue [OF tl] by simp_all
  have n: "path_cost ?n = ?c + 1" "board_state ?n = b'" by (simp_all add: new_node_def)
  have sub: "dkeys t \<subseteq> dkeys ?t" by auto
  have minimal: "\<forall>k. (k, b') \<in> reach g b0 \<longrightarrow> ?c + 1 \<le> k"
  proof (intro allI impI)
    fix k assume k: "(k, b') \<in> reach g b0"
    show "?c + 1 \<le> k"
    proof (rule ccontr)
      assume "\<not> ?c + 1 \<le> k"
      then have "k \<le> ?c" by simp
      with J5 k have "key_of g b' \<in> dkeys t" by blast
      with fresh show False by simp
    qed
  qed
  have 1: "\<forall>n \<in> set (chain q @ [?n]). ?c \<le> path_cost n \<and> path_cost n \<le> ?c + 1 \<and>
        (path_cost n, board_state n) \<in> reach g b0 \<and>
        (\<forall>k. (k, board_state n) \<in> reach g b0 \<longrightarrow> path_cost n \<le> k) \<and>
        key_of g (board_state n) \<in> dkeys ?t"
    using nodes new minimal n by auto
  have 2: "sorted (map path_cost (chain q @ [?n]))"
    using srt nodes n by (auto simp: sorted_append)
  have 3: "\<forall>k b. (k, b) \<in> reach g b0 \<longrightarrow> key_of g b \<in> dkeys ?t \<longrightarrow>
        b \<in> board_state ` set (chain q @ [?n]) \<or> closed g ?t b \<or> b \<in> X"
  proof (intro allI impI)
    fix k b assume r: "(k, b) \<in> reach g b0" and d: "key_of g b \<in> dkeys ?t"
    show "b \<in> board_state ` set (chain q @ [?n]) \<or> closed g ?t b \<or> b \<in> X"
    proof (cases "key_of g b \<in> dkeys t")
      case True
      with J4 r have "b \<in> board_state ` set (chain q) \<or> closed g t b \<or> b \<in> X" by blast
      then show ?thesis using closed_mono [OF _ sub] by auto
    next
      case False
      with d have "key_of g b = key_of g b'" by simp
      from unique_keysD [OF uq dims r new this] have "b = b'" .
      then show ?thesis using n by force
    qed
  qed
  have 4: "\<forall>k b. (k, b) \<in> reach g b0 \<longrightarrow> k \<le> ?c \<longrightarrow> key_of g b \<in> dkeys ?t"
    using J5 by auto
  have 5: "\<forall>k b. (k, b) \<in> reach g b0 \<longrightarrow> k < ?c \<longrightarrow> closed g ?t b"
    using J6 closed_mono [OF _ sub] by blast
  have 6: "table_ok ?t" using ok c0 by (intro add_entry_ok) simp_all
  show ?thesis
    unfolding bfs_J_def prod.case ch
    using tl' 6 c0 1 2 3 4 5 by blast
qed

lemma bfs_measure_enqueue:
  assumes "finite (reach_keys g b0)" and "k \<in> reach_keys g b0" and "k \<notin> dkeys t"
    and "tail_linked q"
  shows "bfs_measure g b0 (bfsEnqueue q b' mv par, add_entry t k v)
           < bfs_measure g b0 (q, t)"
proof -
  let ?A = "reach_keys g b0 - dkeys t"
  have "k \<in> ?A" using assms(2,3) by simp
  moreover have fin: "finite ?A" using assms(1) by simp
  ultimately have pos: "0 < card ?A" by (auto simp: card_gt_0_iff)
  have "reach_keys g b0 - insert k (dkeys t) = ?A - {k}" by auto
  then have "card (reach_keys g b0 - insert k (dkeys t)) = card ?A - 1"
    using \<open>k \<in> ?A\<close> fin by simp
  with pos show ?thesis
    using chain_bfsEnqueue [OF assms(4), of b' mv par]
    by (simp add: bfs_measure_def)
qed

lemma bfs_J_close:
  assumes "bfs_J g b0 c {b} (q, t)" and "closed g t b"
  shows "bfs_J g b0 c {} (q, t)"
  using assms unfolding bfs_J_def prod.case by blast

lemma bfs_expand_inv:
  assumes fit: "tables_fit pf g" and ix: "indexable pf g"
    and dims: "2 \<le> board_height g" "2 \<le> board_width g"
    and uq: "unique_keys g b0" and ub0: "usable g b0"
    and cur: "(path_cost cur, board_state cur) \<in> reach g b0"
    and ms: "set ms \<subseteq> set (all_legal_moves g (board_state cur))"
    and dn: "\<forall>m \<in> set (all_legal_moves g (board_state cur)) - set ms.
               \<forall>tb. next_board g (board_state cur) m = Some tb \<longrightarrow>
                 \<not> checkGameComplete g (normalize_fun g tb) \<and>
                 key_of g (normalize_fun g tb) \<in> dkeys t"
    and J: "bfs_J g b0 (path_cost cur) {board_state cur} (q, t)"
  shows "(bfs_expand pf g cur ms (q, t) = Some (Inl (path_cost cur + 1)) \<and>
          (\<exists>b' \<in> set (successors g (board_state cur)). checkGameComplete g b')) \<or>
         (\<exists>q' t'. bfs_expand pf g cur ms (q, t) = Some (Inr (q', t')) \<and>
             bfs_J g b0 (path_cost cur) {} (q', t') \<and>
             bfs_measure g b0 (q', t') \<le> bfs_measure g b0 (q, t))"
  using ms dn J
proof (induction ms arbitrary: q t)
  case Nil
  let ?b = "board_state cur"
  have u: "usable g ?b" using reach_usable [OF ub0 cur] .
  have "closed g t ?b"
    unfolding closed_def
  proof
    fix b' assume "b' \<in> set (successors g ?b)"
    then obtain m tb where "m \<in> set (all_legal_moves g ?b)" "next_board g ?b m = Some tb"
      "b' = normalize_fun g tb"
      using successors_iff [OF u] by blast
    with Nil.prems(2) show "\<not> checkGameComplete g b' \<and> key_of g b' \<in> dkeys t" by auto
  qed
  from bfs_J_close [OF Nil.prems(3) this] show ?case by simp
next
  case (Cons m ms)
  let ?b = "board_state cur" and ?c = "path_cost cur"
  have u: "usable g ?b" using reach_usable [OF ub0 cur] .
  have m: "m \<in> set (all_legal_moves g ?b)" and ms: "set ms \<subseteq> set (all_legal_moves g ?b)"
    using Cons.prems(1) by simp_all
  from moved_usable [OF u m] obtain tb where tb: "next_board g ?b m = Some tb"
    and wtb: "wf_board g tb"
    and btb: "\<forall>c \<in> set (concat tb). - 1 \<le> c \<and> c \<le> max_block_num g"
    by blast
  have norm: "normalizeState pf g tb = Some (normalize_fun g tb)"
    using fit wtb btb by (intro normalizeState_fit) (simp_all add: wf_scan)
  let ?b' = "normalize_fun g tb"
  have succ: "?b' \<in> set (successors g ?b)" using successors_iff [OF u] m tb by blast
  note ops = usable_ops [OF ix successors_usable [OF u succ]]
  have key: "getStateHashKey g ?b' = Some (key_of g ?b')" using dims by (rule key_of_Some)
  from Cons.prems(3) have ok: "table_ok t" and tl: "tail_linked q" by (simp_all add: bfs_J_def)
  show ?case
  proof (cases "checkGameComplete g ?b'")
    case True
    then have "bfs_expand pf g cur (m # ms) (q, t) = Some (Inl (?c + 1))"
      using tb norm by (simp add: Let_def)
    with True succ show ?thesis by blast
  next
    case unsolved: False
    have new: "(?c + 1, ?b') \<in> reach g b0" using cur succ unsolved by (rule reach.step)
    show ?thesis
    proof (cases "key_of g ?b' \<in> dkeys t")
      case True
      then have hit: "0 \<le> entry_value t (key_of g ?b')" using present_key [OF ok] by simp
      have eq: "bfs_expand pf g cur (m # ms) (q, t) = bfs_expand pf g cur ms (q, t)"
        using tb norm unsolved key hit by (simp add: Let_def ops)
      have dn': "\<forall>m' \<in> set (all_legal_moves g ?b) - set ms.
               \<forall>tb'. next_board g ?b m' = Some tb' \<longrightarrow>
                 \<not> checkGameComplete g (normalize_fun g tb') \<and>
                 key_of g (normalize_fun g tb') \<in> dkeys t"
        using Cons.prems(2) tb unsolved True by auto
      from Cons.IH [OF ms dn' Cons.prems(3)] show ?thesis unfolding eq .
    next
      case False
      then have miss: "\<not> 0 \<le> entry_value t (key_of g ?b')" using present_key [OF ok] by simp
      let ?q = "bfsEnqueue q ?b' (Some m) (Some cur)"
      let ?t = "add_entry t (key_of g ?b') (?c + 1)"
      have eq: "bfs_expand pf g cur (m # ms) (q, t) = bfs_expand pf g cur ms (?q, ?t)"
        using tb norm unsolved key miss by (simp add: Let_def ops)
      have J': "bfs_J g b0 ?c {?b} (?q, ?t)"
        using dims uq Cons.prems(3) new False by (rule bfs_J_enqueue)
      have dn': "\<forall>m' \<in> set (all_legal_moves g ?b) - set ms.
               \<forall>tb'. next_board g ?b m' = Some tb' \<longrightarrow>
                 \<not> checkGameComplete g (normalize_fun g tb') \<and>
                 key_of g (normalize_fun g tb') \<in> dkeys ?t"
        using Cons.prems(2) tb unsolved by auto
      have "key_of g ?b' \<in> reach_keys g b0"
        using new by (force simp: reach_keys_def)
      from bfs_measure_enqueue [OF reach_keys_finite [OF ub0] this False tl]
      have less: "bfs_measure g b0 (?q, ?t) < bfs_measure g b0 (q, t)" .
      from Cons.IH [OF ms dn' J'] less show ?thesis unfolding eq by force
    qed
  qed
qed

lemma bfs_J_D:
  assumes "bfs_J g b0 c X (q, t)"
  shows "tail_linked q" and "table_ok t" and "0 \<le> c"
    and "\<forall>n \<in> set (chain q). c \<le> path_cost n \<and> path_cost n \<le> c + 1 \<and>
        (path_cost n, board_state n) \<in> reach g b0 \<and>
        (\<forall>k. (k, board_state n) \<in> reach g b0 \<longrightarrow> path_cost n \<le> k) \<and>
        key_of g (board_state n) \<in> dkeys t"
    and "sorted (map path_cost (chain q))"
    and "\<forall>k b. (k, b) \<in> reach g b0 \<longrightarrow> key_of g b \<in> dkeys t \<longrightarrow>
        b \<in> board_state ` set (chain q) \<or> closed g t b \<or> b \<in> X"
    and "\<forall>k b. (k, b) \<in> reach g b0 \<longrightarrow> k \<le> c \<longrightarrow> key_of g b \<in> dkeys t"
    and "\<forall>k b. (k, b) \<in> reach g b0 \<longrightarrow> k < c \<longrightarrow> closed g t b"
  using assms unfolding bfs_J_def prod.case by blast+

lemma bfs_J_I:
  assumes "tail_linked q" and "table_ok t" and "0 \<le> c"
    and "\<forall>n \<in> set (chain q). c \<le> path_cost n \<and> path_cost n \<le> c + 1 \<and>
        (path_cost n, board_state n) \<in> reach g b0 \<and>
        (\<forall>k. (k, board_state n) \<in> reach g b0 \<longrightarrow> path_cost n \<le> k) \<and>
        key_of g (board_state n) \<in> dkeys t"
    and "sorted (map path_cost (chain q))"
    and "\<forall>k b. (k, b) \<in> reach g b0 \<longrightarrow> key_of g b \<in> dkeys t \<longrightarrow>
        b \<in> board_state ` set (chain q) \<or> closed g t b \<or> b \<in> X"
    and "\<forall>k b. (k, b) \<in> reach g b0 \<longrightarrow> k \<le> c \<longrightarrow> key_of g b \<in> dkeys t"
    and "\<forall>k b. (k, b) \<in> reach g b0 \<longrightarrow> k < c \<longrightarrow> closed g t b"
  shows "bfs_J g b0 c X (q, t)"
  using assms unfolding bfs_J_def prod.case by blast

lemma bfs_J_all_closed:
  assumes J: "bfs_J g b0 c {} (q, t)" and empty: "chain q = []" and r: "(k, b) \<in> reach g b0"
  shows "key_of g b \<in> dkeys t \<and> closed g t b"
  using r
proof (induction rule: reach.induct)
  case root
  have r0: "(0, b0) \<in> reach g b0" by (rule reach.root)
  from bfs_J_D(7) [OF J] bfs_J_D(3) [OF J] r0 have k: "key_of g b0 \<in> dkeys t" by blast
  from bfs_J_D(6) [OF J] r0 k empty have "closed g t b0" by auto
  with k show ?case by simp
next
  case (step n b b')
  then have "key_of g b' \<in> dkeys t" by (auto simp: closed_def)
  moreover have "(n + 1, b') \<in> reach g b0" using step(1,2,3) by (rule reach.step)
  ultimately show ?case using bfs_J_D(6) [OF J] empty by auto
qed

lemma bfs_J_level:
  assumes J: "bfs_J g b0 c {} (q, t)" and ch: "chain q = cur # rest"
  shows "bfs_J g b0 (path_cost cur) {} (q, t)"
proof -
  note tl = bfs_J_D(1) [OF J] and ok = bfs_J_D(2) [OF J] and c0 = bfs_J_D(3) [OF J]
    and nodes = bfs_J_D(4) [OF J] and srt = bfs_J_D(5) [OF J] and J4 = bfs_J_D(6) [OF J]
    and J5 = bfs_J_D(7) [OF J] and J6 = bfs_J_D(8) [OF J]
  from nodes ch have range: "c \<le> path_cost cur" "path_cost cur \<le> c + 1" by auto
  show ?thesis
  proof (cases "path_cost cur = c")
    case True
    with J show ?thesis by simp
  next
    case False
    with range have pc: "path_cost cur = c + 1" by simp
    have all: "\<forall>n \<in> set (chain q). path_cost n = c + 1"
    proof
      fix n assume n: "n \<in> set (chain q)"
      then have "path_cost cur \<le> path_cost n" using srt ch by auto
      with nodes n pc show "path_cost n = c + 1" by force
    qed
    have lvl: "closed g t b" if "(c, b) \<in> reach g b0" for b
    proof -
      from J5 that have "key_of g b \<in> dkeys t" by blast
      with J4 that have "b \<in> board_state ` set (chain q) \<or> closed g t b" by blast
      moreover have "b \<notin> board_state ` set (chain q)"
      proof
        assume "b \<in> board_state ` set (chain q)"
        then obtain n where n: "n \<in> set (chain q)" "board_state n = b" by auto
        with nodes that have "path_cost n \<le> c" by blast
        with all n show False by auto
      qed
      ultimately show ?thesis by simp
    qed
    have J5': "\<forall>k b. (k, b) \<in> reach g b0 \<longrightarrow> k \<le> c + 1 \<longrightarrow> key_of g b \<in> dkeys t"
    proof (intro allI impI)
      fix k b assume r: "(k, b) \<in> reach g b0" and k: "k \<le> c + 1"
      show "key_of g b \<in> dkeys t"
      proof (cases "k \<le> c")
        case True
        with J5 r show ?thesis by blast
      next
        case False
        with k have kc: "k = c + 1" by simp
        from r show ?thesis
        proof (cases rule: reach.cases)
          case root
          with kc c0 show ?thesis by simp
        next
          case (step n p)
          with kc have "(c, p) \<in> reach g b0" by simp
          from lvl [OF this] step(3) show ?thesis by (auto simp: closed_def)
        qed
      qed
    qed
    have J6': "\<forall>k b. (k, b) \<in> reach g b0 \<longrightarrow> k < c + 1 \<longrightarrow> closed g t b"
    proof (intro allI impI)
      fix k b assume r: "(k, b) \<in> reach g b0" and k: "k < c + 1"
      show "closed g t b"
      proof (cases "k < c")
        case True
        with J6 r show ?thesis by blast
      next
        case False
        with k have "k = c" by simp
        with r lvl show ?thesis by simp
      qed
    qed
    have nodes': "\<forall>n \<in> set (chain q). c + 1 \<le> path_cost n \<and> path_cost n \<le> c + 1 + 1 \<and>
        (path_cost n, board_state n) \<in> reach g b0 \<and>
        (\<forall>k. (k, board_state n) \<in> reach g b0 \<longrightarrow> path_cost n \<le> k) \<and>
        key_of g (board_state n) \<in> dkeys t"
      using nodes all by auto
    have c1: "0 \<le> c + 1" using c0 by simp
    show ?thesis
      unfolding pc using tl ok c1 nodes' srt J4 J5' J6' by (rule bfs_J_I)
  qed
qed

lemma bfs_J_dequeue:
  assumes J: "bfs_J g b0 c {} (q, t)" and ch: "chain q = cur # rest"
  shows "bfs_J g b0 c {board_state cur} (q\<lparr>chain := rest\<rparr>, t)"
proof (rule bfs_J_I)
  show "tail_linked (q\<lparr>chain := rest\<rparr>)" using bfs_J_D(1) [OF J] by simp
  show "table_ok t" using J by (rule bfs_J_D)
  show "0 \<le> c" using J by (rule bfs_J_D)
  show "\<forall>n \<in> set (chain (q\<lparr>chain := rest\<rparr>)). c \<le> path_cost n \<and> path_cost n \<le> c + 1 \<and>
        (path_cost n, board_state n) \<in> reach g b0 \<and>
        (\<forall>k. (k, board_state n) \<in> reach g b0 \<longrightarrow> path_cost n \<le> k) \<and>
        key_of g (board_state n) \<in> dkeys t"
    using bfs_J_D(4) [OF J] ch by simp
  show "sorted (map path_cost (chain (q\<lparr>chain := rest\<rparr>)))"
    using bfs_J_D(5) [OF J] ch by simp
  show "\<forall>k b. (k, b) \<in> reach g b0 \<longrightarrow> key_of g b \<in> dkeys t \<longrightarrow>
        b \<in> board_state ` set (chain (q\<lparr>chain := rest\<rparr>)) \<or> closed g t b \<or> b \<in> {board_state cur}"
    using bfs_J_D(6) [OF J] ch by auto
  show "\<forall>k b. (k, b) \<in> reach g b0 \<longrightarrow> k \<le> c \<longrightarrow> key_of g b \<in> dkeys t" using J by (rule bfs_J_D)
  show "\<forall>k b. (k, b) \<in> reach g b0 \<longrightarrow> k < c \<longrightarrow> closed g t b" using J by (rule bfs_J_D)
qed

lemma bfs_loop_correct:
  assumes fit: "tables_fit pf g" and ix: "indexable pf g"
    and dims: "2 \<le> board_height g" "2 \<le> board_width g"
    and uq: "unique_keys g b0" and ub0: "usable g b0"
    and J: "bfs_J g b0 c {} (q, t)"
  shows "\<exists>r. bfs_loop pf g (q, t) = Some r \<and> complete_result g b0 r"
  using J
proof (induction "bfs_measure g b0 (q, t)" arbitrary: q t c rule: less_induct)
  case less
  show ?case
  proof (cases "chain q")
    case Nil
    have "\<not> solvable_in g b0 n" for n
    proof
      assume "solvable_in g b0 n"
      then obtain b b' where "(n - 1, b) \<in> reach g b0" "b' \<in> set (successors g b)"
        "checkGameComplete g b'" by (auto simp: solvable_in_def)
      with bfs_J_all_closed [OF less.prems Nil] show False by (auto simp: closed_def)
    qed
    moreover have "bfs_loop pf g (q, t) = Some (- 1)"
      using Nil by (subst bfs_loop.simps) (simp add: bfsQueueIsEmpty_def)
    ultimately show ?thesis by (simp add: complete_result_def)
  next
    case (Cons cur rest)
    let ?c = "path_cost cur" and ?b = "board_state cur"
    let ?q = "q\<lparr>chain := rest\<rparr>"
    have Jc: "bfs_J g b0 ?c {} (q, t)" using less.prems Cons by (rule bfs_J_level)
    have Jd: "bfs_J g b0 ?c {?b} (?q, t)" using Jc Cons by (rule bfs_J_dequeue)
    have cur: "(?c, ?b) \<in> reach g b0" using bfs_J_D(4) [OF Jc] Cons by simp
    have J6: "\<forall>k b. (k, b) \<in> reach g b0 \<longrightarrow> k < ?c \<longrightarrow> closed g t b"
      using Jc by (rule bfs_J_D)
    have u: "usable g ?b" using reach_usable [OF ub0 cur] .
    have moves: "getAllAvailableMoves g ?b = Some (all_legal_moves g ?b)" using u by (rule usable_moves)
    have unf: "bfs_loop pf g (q, t) =
      (case bfs_expand pf g cur (all_legal_moves g ?b) (?q, t) of
         None \<Rightarrow> None | Some (Inl cost) \<Rightarrow> Some cost | Some (Inr qt') \<Rightarrow> bfs_loop pf g qt')"
      using Cons moves
      by (subst bfs_loop.simps) (simp add: bfsQueueIsEmpty_def bfsDequeue_def del: bfs_expand.simps)
    have m0: "bfs_measure g b0 (?q, t) < bfs_measure g b0 (q, t)"
      using Cons by (simp add: bfs_measure_def)
    from bfs_expand_inv [OF fit ix dims uq ub0 cur subset_refl _ Jd]
    consider
      (found) "bfs_expand pf g cur (all_legal_moves g ?b) (?q, t) = Some (Inl (?c + 1))"
        "\<exists>b' \<in> set (successors g ?b). checkGameComplete g b'"
    | (more) q' t' where "bfs_expand pf g cur (all_legal_moves g ?b) (?q, t) = Some (Inr (q', t'))"
        "bfs_J g b0 ?c {} (q', t')" "bfs_measure g b0 (q', t') \<le> bfs_measure g b0 (?q, t)"
      by auto
    then show ?thesis
    proof cases
      case found
      have c0: "0 \<le> ?c" using reach_nonneg [OF cur] .
      have sol: "solvable_in g b0 (?c + 1)"
        using cur found(2) by (auto simp: solvable_in_def)
      have "\<not> solvable_in g b0 k" if "k < ?c + 1" for k
      proof
        assume "solvable_in g b0 k"
        then obtain b b' where r: "(k - 1, b) \<in> reach g b0" and "b' \<in> set (successors g b)"
          "checkGameComplete g b'" by (auto simp: solvable_in_def)
        moreover from r that J6 have "closed g t b" by auto
        ultimately show False by (auto simp: closed_def)
      qed
      with sol c0 found(1) show ?thesis by (simp add: unf complete_result_def)
    next
      case more
      from more(3) m0 have "bfs_measure g b0 (q', t') < bfs_measure g b0 (q, t)" by simp
      from less.hyps [OF this more(2)] more(1) show ?thesis by (simp add: unf)
    qed
  qed
qed

lemma bfs_J_initial:
  assumes dims: "2 \<le> board_height g" "2 \<le> board_width g" and uq: "unique_keys g b0"
  shows "bfs_J g b0 0 {} (bfsEnqueue empty_fifo b0 None None, add_entry [] (key_of g b0) 0)"
proof -
  have q: "chain (bfsEnqueue empty_fifo b0 None None) = [Node 0 b0 None None]"
    "tail_linked (bfsEnqueue empty_fifo b0 None None)"
    by (simp_all add: bfsEnqueue_def empty_fifo_def new_node_def)
  have dk: "dkeys (add_entry [] (key_of g b0) 0) = {key_of g b0}"
    by (simp add: dkeys_def add_entry_def)
  have J4: "\<forall>k b. (k, b) \<in> reach g b0 \<longrightarrow> key_of g b \<in> {key_of g b0} \<longrightarrow> b = b0"
    using unique_keysD [OF uq dims _ reach.root] by blast
  have J5: "\<forall>k b. (k, b) \<in> reach g b0 \<longrightarrow> k \<le> 0 \<longrightarrow> key_of g b = key_of g b0"
  proof (intro allI impI)
    fix k b assume r: "(k, b) \<in> reach g b0" and "k \<le> 0"
    with reach_nonneg [OF r] have "k = 0" by simp
    with r reach_zero show "key_of g b = key_of g b0" by blast
  qed
  have J6: "\<forall>k b. (k, b) \<in> reach g b0 \<longrightarrow> k < 0 \<longrightarrow> closed g t b" for t
    using reach_nonneg by fastforce
  have min: "\<forall>k. (k, b0) \<in> reach g b0 \<longrightarrow> 0 \<le> k" using reach_nonneg by blast
  have ok: "table_ok (add_entry [] (key_of g b0) 0)"
    by (simp add: table_ok_def add_entry_def)
  have r0: "(0, b0) \<in> reach g b0" by (rule reach.root)
  show ?thesis
  proof (rule bfs_J_I)
    show "tail_linked (bfsEnqueue empty_fifo b0 None None)" by (rule q)
    show "table_ok (add_entry [] (key_of g b0) 0)" by (rule ok)
    show "(0::int) \<le> 0" by simp
    show "\<forall>n \<in> set (chain (bfsEnqueue empty_fifo b0 None None)). 0 \<le> path_cost n \<and> path_cost n \<le> 0 + 1 \<and>
        (path_cost n, board_state n) \<in> reach g b0 \<and>
        (\<forall>k. (k, board_state n) \<in> reach g b0 \<longrightarrow> path_cost n \<le> k) \<and>
        key_of g (board_state n) \<in> dkeys (add_entry [] (key_of g b0) 0)"
      unfolding q(1) dk using r0 min by simp
    show "sorted (map path_cost (chain (bfsEnqueue empty_fifo b0 None None)))"
      unfolding q(1) by simp
    show "\<forall>k b. (k, b) \<in> reach g b0 \<longrightarrow> key_of g b \<in> dkeys (add_entry [] (key_of g b0) 0) \<longrightarrow>
        b \<in> board_state ` set (chain (bfsEnqueue empty_fifo b0 None None)) \<or>
        closed g (add_entry [] (key_of g b0) 0) b \<or> b \<in> {}"
      unfolding q(1) dk using J4 by simp
    show "\<forall>k b. (k, b) \<in> reach g b0 \<longrightarrow> k \<le> 0 \<longrightarrow> key_of g b \<in> dkeys (add_entry [] (key_of g b0) 0)"
      unfolding dk using J5 by simp
    show "\<forall>k b. (k, b) \<in> reach g b0 \<longrightarrow> k < 0 \<longrightarrow> closed g (add_entry [] (key_of g b0) 0) b"
      by (rule J6)
  qed
qed

text \<open>On a usable board whose reachable boards have distinct keys, breadth-first search
  returns: -1 when no solved board is reachable, and otherwise the least number of moves to
  a solved board, counted from the first move.\<close>

theorem breadthFirstSearch_minimal:
  assumes fit: "tables_fit pf g" and ix: "indexable pf g"
    and dims: "2 \<le> board_height g" "2 \<le> board_width g"
    and ub0: "usable g b0" and uq: "unique_keys g b0"
  shows "\<exists>r. breadthFirstSearch pf g b0 = Some r \<and> complete_result g b0 r"
proof -
  have "breadthFirstSearch pf g b0 =
          bfs_loop pf g (bfsEnqueue empty_fifo b0 None None, add_entry [] (key_of g b0) 0)"
    by (simp add: breadthFirstSearch_def key_of_Some [OF dims] usable_ops [OF ix ub0])
  with bfs_loop_correct [OF fit ix dims uq ub0 bfs_J_initial [OF dims uq]] show ?thesis by simp
qed

subsection \<open>Depth-limited search\<close>

lemma dfs_K_D:
  assumes "dfs_K g b0 d X (stack, t)"
  shows "table_ok t"
    and "\<forall>n \<in> set stack. (path_cost n, board_state n) \<in> reach g b0 \<and> path_cost n \<le> d \<and>
        key_of g (board_state n) \<in> dkeys t \<and> val g t (board_state n) \<le> path_cost n"
    and "\<forall>k b. (k, b) \<in> reach g b0 \<longrightarrow> key_of g b \<in> dkeys t \<longrightarrow>
        (val g t b, b) \<in> reach g b0 \<and>
        ((\<exists>n \<in> set stack. board_state n = b \<and> path_cost n = val g t b) \<or>
         settled g d t b \<or> (b, val g t b) \<in> X)"
    and "key_of g b0 \<in> dkeys t" and "val g t b0 = 0"
  using assms unfolding dfs_K_def prod.case by blast+

lemma dfs_K_I:
  assumes "table_ok t"
    and "\<forall>n \<in> set stack. (path_cost n, board_state n) \<in> reach g b0 \<and> path_cost n \<le> d \<and>
        key_of g (board_state n) \<in> dkeys t \<and> val g t (board_state n) \<le> path_cost n"
    and "\<forall>k b. (k, b) \<in> reach g b0 \<longrightarrow> key_of g b \<in> dkeys t \<longrightarrow>
        (val g t b, b) \<in> reach g b0 \<and>
        ((\<exists>n \<in> set stack. board_state n = b \<and> path_cost n = val g t b) \<or>
         settled g d t b \<or> (b, val g t b) \<in> X)"
    and "key_of g b0 \<in> dkeys t" and "val g t b0 = 0"
  shows "dfs_K g b0 d X (stack, t)"
  using assms unfolding dfs_K_def prod.case by blast

lemma val_insert_old:
  "k \<in> dkeys t \<Longrightarrow> entry_value (add_entry t k' v) k = entry_value t k"
proof -
  assume "k \<in> dkeys t"
  then obtain w where "map_of t k = Some w"
    unfolding dkeys_def by (metis map_of_eq_None_iff not_Some_eq)
  then show ?thesis
    by (simp add: entry_value_def add_entry_def map_add_def)
qed

lemma val_insert_new:
  "k \<notin> dkeys t \<Longrightarrow> entry_value (add_entry t k v) k = v"
proof -
  assume "k \<notin> dkeys t"
  then have "map_of t k = None" unfolding dkeys_def by (simp add: map_of_eq_None_iff)
  then show ?thesis
    by (simp add: entry_value_def add_entry_def map_add_def)
qed

lemma val_insert_other:
  "k \<noteq> k' \<Longrightarrow> entry_value (add_entry t k' v) k = entry_value t k"
  by (simp add: entry_value_def add_entry_def map_add_def split: option.splits)

lemma map_fst_update: "map fst (set_entry t k v) = map fst t"
  by (induction t) auto

lemma dkeys_update [simp]: "dkeys (set_entry t k v) = dkeys t"
proof -
  have "set (map fst (set_entry t k v)) = set (map fst t)"
    by (simp only: map_fst_update)
  then show ?thesis unfolding dkeys_def by (simp only: set_map)
qed

lemma sum_one_smaller:
  fixes f f' :: "'a \<Rightarrow> nat"
  assumes "finite A" and "k \<in> A" and "f' k < f k" and "\<forall>x \<in> A. x \<noteq> k \<longrightarrow> f' x = f x"
  shows "sum f' A < sum f A"
proof -
  have "sum f A = f k + sum f (A - {k})" using assms(1,2) by (rule sum.remove)
  moreover have "sum f' A = f' k + sum f' (A - {k})" using assms(1,2) by (rule sum.remove)
  moreover have "sum f' (A - {k}) = sum f (A - {k})" using assms(4) by (intro sum.cong) auto
  ultimately show ?thesis using assms(3) by simp
qed

lemma weight_insert:
  assumes "finite (reach_keys g b0)" and "k \<in> reach_keys g b0" and "k \<notin> dkeys t"
    and "0 \<le> v" and "v \<le> d"
  shows "sum (weight d (add_entry t k v)) (reach_keys g b0)
           < sum (weight d t) (reach_keys g b0)"
proof (rule sum_one_smaller [OF assms(1,2)])
  show "weight d (add_entry t k v) k < weight d t k"
    using assms(3,4,5) by (simp add: weight_def val_insert_new)
  show "\<forall>x \<in> reach_keys g b0. x \<noteq> k \<longrightarrow> weight d (add_entry t k v) x = weight d t x"
    by (simp add: weight_def val_insert_other)
qed

lemma weight_update:
  assumes "finite (reach_keys g b0)" and "k \<in> reach_keys g b0" and "k \<in> dkeys t"
    and "0 \<le> v" and "v < entry_value t k"
  shows "sum (weight d (set_entry t k v)) (reach_keys g b0)
           < sum (weight d t) (reach_keys g b0)"
proof (rule sum_one_smaller [OF assms(1,2)])
  have "k \<in> fst ` set t" using assms(3) by (simp add: dkeys_def)
  then show "weight d (set_entry t k v) k < weight d t k"
    using assms(3,4,5) by (simp add: weight_def entry_value_update)
  show "\<forall>x \<in> reach_keys g b0. x \<noteq> k \<longrightarrow> weight d (set_entry t k v) x = weight d t x"
    by (simp add: weight_def entry_value_update_other)
qed

lemma settled_mono:
  assumes "settled g d t b" and "table_le t t'" and "val g t' b = val g t b"
  shows "settled g d t' b"
proof (cases "d \<le> val g t b")
  case True
  with assms(3) show ?thesis by (simp add: settled_def)
next
  case False
  with assms(1) have s: "\<forall>b' \<in> set (successors g b).
        \<not> checkGameComplete g b' \<and> key_of g b' \<in> dkeys t \<and> val g t b' \<le> val g t b + 1"
    by (simp add: settled_def)
  have "\<forall>b' \<in> set (successors g b).
        \<not> checkGameComplete g b' \<and> key_of g b' \<in> dkeys t' \<and> val g t' b' \<le> val g t' b + 1"
  proof
    fix b' assume "b' \<in> set (successors g b)"
    with s have 1: "\<not> checkGameComplete g b'" and 2: "key_of g b' \<in> dkeys t"
      and 3: "val g t b' \<le> val g t b + 1" by auto
    from 2 assms(2) have "key_of g b' \<in> dkeys t'" and "val g t' b' \<le> val g t b'"
      by (auto simp: table_le_def val_def)
    with 1 3 assms(3) show "\<not> checkGameComplete g b' \<and> key_of g b' \<in> dkeys t' \<and> val g t' b' \<le> val g t' b + 1"
      by simp
  qed
  then show ?thesis by (simp add: settled_def)
qed

lemma table_le_insert: "k \<notin> dkeys t \<Longrightarrow> table_le t (add_entry t k v)"
  by (auto simp: table_le_def val_insert_old)

lemma table_le_update:
  assumes "k \<in> dkeys t" and "v \<le> entry_value t k"
  shows "table_le t (set_entry t k v)"
proof -
  have "entry_value (set_entry t k v) k' \<le> entry_value t k'" for k'
  proof (cases "k' = k")
    case True
    from assms(1) have "k \<in> fst ` set t" by (simp add: dkeys_def)
    with True assms(2) show ?thesis by (simp add: entry_value_update)
  next
    case False
    then show ?thesis by (simp add: entry_value_update_other)
  qed
  then show ?thesis by (simp add: table_le_def)
qed

text \<open>The common part of the two pushes: the table becomes \<open>t'\<close>, in which the pushed
  board has the pushed cost and every other key its old value.\<close>

lemma dfs_K_push:
  assumes dims: "2 \<le> board_height g" "2 \<le> board_width g"
    and uq: "unique_keys g b0"
    and K: "dfs_K g b0 d X (stack, t)"
    and new: "(c + 1, b') \<in> reach g b0" and le: "c + 1 \<le> d" and c0: "0 \<le> c"
    and n: "path_cost n = c + 1" "board_state n = b'"
    and ok': "table_ok t'"
    and tle: "table_le t t'"
    and dk: "dkeys t' = insert (key_of g b') (dkeys t)"
    and v': "entry_value t' (key_of g b') = c + 1"
    and other: "\<forall>k. k \<noteq> key_of g b' \<longrightarrow> k \<in> dkeys t \<longrightarrow> entry_value t' k = entry_value t k"
  shows "dfs_K g b0 d X (n # stack, t')"
proof (rule dfs_K_I)
  note K1 = dfs_K_D(2) [OF K] and K2 = dfs_K_D(3) [OF K] and K3 = dfs_K_D(4) [OF K]
    and K4 = dfs_K_D(5) [OF K]
  have other_val: "val g t' b = val g t b"
    if "(k, b) \<in> reach g b0" "key_of g b \<in> dkeys t" "b \<noteq> b'" for k b
  proof -
    have "key_of g b \<noteq> key_of g b'"
      using unique_keysD [OF uq dims that(1) new] that(3) by blast
    with other that(2) show ?thesis by (simp add: val_def)
  qed
  show "table_ok t'" by (rule ok')
  show "\<forall>m \<in> set (n # stack). (path_cost m, board_state m) \<in> reach g b0 \<and> path_cost m \<le> d \<and>
        key_of g (board_state m) \<in> dkeys t' \<and> val g t' (board_state m) \<le> path_cost m"
  proof
    fix m assume "m \<in> set (n # stack)"
    then consider "m = n" | "m \<in> set stack" by auto
    then show "(path_cost m, board_state m) \<in> reach g b0 \<and> path_cost m \<le> d \<and>
        key_of g (board_state m) \<in> dkeys t' \<and> val g t' (board_state m) \<le> path_cost m"
    proof cases
      case 1
      with n new le dk v' show ?thesis by (simp add: val_def)
    next
      case 2
      with K1 have m: "(path_cost m, board_state m) \<in> reach g b0" "path_cost m \<le> d"
        "key_of g (board_state m) \<in> dkeys t" "val g t (board_state m) \<le> path_cost m" by auto
      from m(3) tle have "val g t' (board_state m) \<le> val g t (board_state m)"
        by (simp add: table_le_def val_def)
      with m dk show ?thesis by simp
    qed
  qed
  show "\<forall>k b. (k, b) \<in> reach g b0 \<longrightarrow> key_of g b \<in> dkeys t' \<longrightarrow>
        (val g t' b, b) \<in> reach g b0 \<and>
        ((\<exists>m \<in> set (n # stack). board_state m = b \<and> path_cost m = val g t' b) \<or>
         settled g d t' b \<or> (b, val g t' b) \<in> X)"
  proof (intro allI impI)
    fix k b assume r: "(k, b) \<in> reach g b0" and d': "key_of g b \<in> dkeys t'"
    show "(val g t' b, b) \<in> reach g b0 \<and>
        ((\<exists>m \<in> set (n # stack). board_state m = b \<and> path_cost m = val g t' b) \<or>
         settled g d t' b \<or> (b, val g t' b) \<in> X)"
    proof (cases "b = b'")
      case True
      with v' new n show ?thesis by (simp add: val_def)
    next
      case False
      have "key_of g b \<noteq> key_of g b'"
        using unique_keysD [OF uq dims r new] False by blast
      with d' dk have old: "key_of g b \<in> dkeys t" by simp
      have same: "val g t' b = val g t b" using r old False by (rule other_val)
      from K2 r old have "(val g t b, b) \<in> reach g b0"
        and cases: "(\<exists>m \<in> set stack. board_state m = b \<and> path_cost m = val g t b) \<or>
         settled g d t b \<or> (b, val g t b) \<in> X" by blast+
      from cases settled_mono [OF _ tle same] have
        "(\<exists>m \<in> set (n # stack). board_state m = b \<and> path_cost m = val g t b) \<or>
         settled g d t' b \<or> (b, val g t b) \<in> X" by auto
      with \<open>(val g t b, b) \<in> reach g b0\<close> show ?thesis by (simp add: same)
    qed
  qed
  show "key_of g b0 \<in> dkeys t'" using K3 dk by simp
  show "val g t' b0 = 0"
  proof (cases "b0 = b'")
    case True
    have "val g t' b0 \<le> val g t b0" using K3 tle by (simp add: table_le_def val_def)
    moreover have "0 \<le> val g t' b0"
      using entry_value_present [OF _ ok', of "key_of g b0"] K3 dk
      by (simp add: val_def dkeys_def)
    ultimately show ?thesis using K4 by simp
  next
    case False
    from other_val [OF reach.root K3 False] K4 show ?thesis by simp
  qed
qed

lemma dfs_measure_push:
  assumes "sum (weight d t') (reach_keys g b0) < sum (weight d t) (reach_keys g b0)"
  shows "dfs_measure g b0 d (n # stack, t') \<le> dfs_measure g b0 d (stack, t)"
  using assms by (simp add: dfs_measure_def)

lemma dfs_K_settle:
  assumes K: "dfs_K g b0 d {(b, c)} (stack, t)"
    and s: "val g t b = c \<longrightarrow> settled g d t b"
  shows "dfs_K g b0 d {} (stack, t)"
proof (rule dfs_K_I)
  show "table_ok t" using K by (rule dfs_K_D)
  show "\<forall>n \<in> set stack. (path_cost n, board_state n) \<in> reach g b0 \<and> path_cost n \<le> d \<and>
        key_of g (board_state n) \<in> dkeys t \<and> val g t (board_state n) \<le> path_cost n"
    using K by (rule dfs_K_D)
  show "key_of g b0 \<in> dkeys t" using K by (rule dfs_K_D)
  show "val g t b0 = 0" using K by (rule dfs_K_D)
  show "\<forall>k b'. (k, b') \<in> reach g b0 \<longrightarrow> key_of g b' \<in> dkeys t \<longrightarrow>
        (val g t b', b') \<in> reach g b0 \<and>
        ((\<exists>n \<in> set stack. board_state n = b' \<and> path_cost n = val g t b') \<or>
         settled g d t b' \<or> (b', val g t b') \<in> {})"
  proof (intro allI impI)
    fix k b' assume "(k, b') \<in> reach g b0" "key_of g b' \<in> dkeys t"
    with dfs_K_D(3) [OF K] have 1: "(val g t b', b') \<in> reach g b0"
      and 2: "(\<exists>n \<in> set stack. board_state n = b' \<and> path_cost n = val g t b') \<or>
         settled g d t b' \<or> (b', val g t b') \<in> {(b, c)}" by blast+
    from 2 s have "(\<exists>n \<in> set stack. board_state n = b' \<and> path_cost n = val g t b') \<or>
         settled g d t b'" by auto
    with 1 show "(val g t b', b') \<in> reach g b0 \<and>
        ((\<exists>n \<in> set stack. board_state n = b' \<and> path_cost n = val g t b') \<or>
         settled g d t b' \<or> (b', val g t b') \<in> {})" by simp
  qed
qed

lemma dfs_expand_inv:
  assumes fit: "tables_fit pf g" and ix: "indexable pf g"
    and dims: "2 \<le> board_height g" "2 \<le> board_width g"
    and uq: "unique_keys g b0" and ub0: "usable g b0"
    and cur: "(path_cost cur, board_state cur) \<in> reach g b0"
    and lt: "path_cost cur < d"
    and ms: "set ms \<subseteq> set (all_legal_moves g (board_state cur))"
    and dn: "\<forall>m \<in> set (all_legal_moves g (board_state cur)) - set ms.
               \<forall>tb. next_board g (board_state cur) m = Some tb \<longrightarrow>
                 \<not> checkGameComplete g (normalize_fun g tb) \<and>
                 key_of g (normalize_fun g tb) \<in> dkeys t \<and>
                 val g t (normalize_fun g tb) \<le> path_cost cur + 1"
    and K: "dfs_K g b0 d {(board_state cur, path_cost cur)} (stack, t)"
  shows "(dfs_expand pf g cur ms (stack, t) = Some (Inl (path_cost cur + 1)) \<and>
          (\<exists>b' \<in> set (successors g (board_state cur)). checkGameComplete g b')) \<or>
         (\<exists>st' t'. dfs_expand pf g cur ms (stack, t) = Some (Inr (st', t')) \<and>
             dfs_K g b0 d {} (st', t') \<and>
             dfs_measure g b0 d (st', t') \<le> dfs_measure g b0 d (stack, t))"
  using ms dn K
proof (induction ms arbitrary: stack t)
  case Nil
  let ?b = "board_state cur" and ?c = "path_cost cur"
  have u: "usable g ?b" using reach_usable [OF ub0 cur] .
  have "val g t ?b = ?c \<longrightarrow> settled g d t ?b"
  proof
    assume v: "val g t ?b = ?c"
    have "\<forall>b' \<in> set (successors g ?b).
        \<not> checkGameComplete g b' \<and> key_of g b' \<in> dkeys t \<and> val g t b' \<le> val g t ?b + 1"
    proof
      fix b' assume "b' \<in> set (successors g ?b)"
      then obtain m tb where "m \<in> set (all_legal_moves g ?b)" "next_board g ?b m = Some tb"
        "b' = normalize_fun g tb"
        using successors_iff [OF u] by blast
      with Nil.prems(2) v
      show "\<not> checkGameComplete g b' \<and> key_of g b' \<in> dkeys t \<and> val g t b' \<le> val g t ?b + 1"
        by auto
    qed
    then show "settled g d t ?b" by (simp add: settled_def)
  qed
  from dfs_K_settle [OF Nil.prems(3) this] show ?case by simp
next
  case (Cons m ms)
  let ?b = "board_state cur" and ?c = "path_cost cur"
  have u: "usable g ?b" using reach_usable [OF ub0 cur] .
  have c0: "0 \<le> ?c" using reach_nonneg [OF cur] .
  have m: "m \<in> set (all_legal_moves g ?b)" and ms: "set ms \<subseteq> set (all_legal_moves g ?b)"
    using Cons.prems(1) by simp_all
  from moved_usable [OF u m] obtain tb where tb: "next_board g ?b m = Some tb"
    and wtb: "wf_board g tb"
    and btb: "\<forall>c \<in> set (concat tb). - 1 \<le> c \<and> c \<le> max_block_num g"
    by blast
  have norm: "normalizeState pf g tb = Some (normalize_fun g tb)"
    using fit wtb btb by (intro normalizeState_fit) (simp_all add: wf_scan)
  let ?b' = "normalize_fun g tb"
  let ?k = "key_of g ?b'"
  have succ: "?b' \<in> set (successors g ?b)" using successors_iff [OF u] m tb by blast
  note ops = usable_ops [OF ix successors_usable [OF u succ]]
  have key: "getStateHashKey g ?b' = Some ?k" using dims by (rule key_of_Some)
  have ok: "table_ok t" using Cons.prems(3) by (rule dfs_K_D)
  show ?case
  proof (cases "checkGameComplete g ?b'")
    case True
    then have "dfs_expand pf g cur (m # ms) (stack, t) = Some (Inl (?c + 1))"
      using tb norm by (simp add: Let_def)
    with True succ show ?thesis by blast
  next
    case unsolved: False
    have new: "(?c + 1, ?b') \<in> reach g b0" using cur succ unsolved by (rule reach.step)
    have fin: "finite (reach_keys g b0)" using ub0 by (rule reach_keys_finite)
    have kin: "?k \<in> reach_keys g b0" using new by (force simp: reach_keys_def)
    let ?n = "new_node ?b' (Some m) (Some cur)"
    have n: "path_cost ?n = ?c + 1" "board_state ?n = ?b'" by (simp_all add: new_node_def)
    have step: ?thesis
      if eq: "dfs_expand pf g cur (m # ms) (stack, t) = dfs_expand pf g cur ms (?n # stack, t')"
        and ok': "table_ok t'" and tle: "table_le t t'"
        and dk: "dkeys t' = insert ?k (dkeys t)"
        and v': "entry_value t' ?k = ?c + 1"
        and other: "\<forall>k. k \<noteq> ?k \<longrightarrow> k \<in> dkeys t \<longrightarrow> entry_value t' k = entry_value t k"
        and less: "sum (weight d t') (reach_keys g b0) < sum (weight d t) (reach_keys g b0)"
      for t'
    proof -
      have K': "dfs_K g b0 d {(?b, ?c)} (?n # stack, t')"
        using dims uq Cons.prems(3) new _ c0 n ok' tle dk v' other
        by (rule dfs_K_push) (use lt in simp)
      have dn': "\<forall>m' \<in> set (all_legal_moves g ?b) - set ms.
               \<forall>tb'. next_board g ?b m' = Some tb' \<longrightarrow>
                 \<not> checkGameComplete g (normalize_fun g tb') \<and>
                 key_of g (normalize_fun g tb') \<in> dkeys t' \<and>
                 val g t' (normalize_fun g tb') \<le> ?c + 1"
      proof (intro ballI allI impI)
        fix m' tb' assume m': "m' \<in> set (all_legal_moves g ?b) - set ms"
          and tb': "next_board g ?b m' = Some tb'"
        show "\<not> checkGameComplete g (normalize_fun g tb') \<and>
                 key_of g (normalize_fun g tb') \<in> dkeys t' \<and>
                 val g t' (normalize_fun g tb') \<le> ?c + 1"
        proof (cases "m' = m")
          case True
          with tb tb' have "tb' = tb" by simp
          with unsolved dk v' show ?thesis by (simp add: val_def)
        next
          case False
          with m' have "m' \<in> set (all_legal_moves g ?b) - set (m # ms)" by simp
          with Cons.prems(2) tb' have 1: "\<not> checkGameComplete g (normalize_fun g tb')"
            and 2: "key_of g (normalize_fun g tb') \<in> dkeys t"
            and 3: "val g t (normalize_fun g tb') \<le> ?c + 1" by blast+
          from 2 tle have "val g t' (normalize_fun g tb') \<le> val g t (normalize_fun g tb')"
            by (simp add: table_le_def val_def)
          with 1 2 3 dk show ?thesis by simp
        qed
      qed
      from Cons.IH [OF ms dn' K']
      consider "dfs_expand pf g cur ms (?n # stack, t') = Some (Inl (?c + 1))"
          "\<exists>b' \<in> set (successors g ?b). checkGameComplete g b'"
        | st'' t'' where "dfs_expand pf g cur ms (?n # stack, t') = Some (Inr (st'', t''))"
          "dfs_K g b0 d {} (st'', t'')"
          "dfs_measure g b0 d (st'', t'') \<le> dfs_measure g b0 d (?n # stack, t')"
        by blast
      then show ?thesis
      proof cases
        case 1
        with eq show ?thesis by simp
      next
        case 2
        from 2(3) dfs_measure_push [OF less, of ?n stack]
        have "dfs_measure g b0 d (st'', t'') \<le> dfs_measure g b0 d (stack, t)" by simp
        with 2(1,2) eq show ?thesis by simp
      qed
    qed
    show ?thesis
    proof (cases "?k \<in> dkeys t")
      case False
      then have miss: "entry_value t ?k < 0" using present_key [OF ok, of ?k] by simp
      let ?t' = "add_entry t ?k (?c + 1)"
      have nin: "?k \<notin> fst ` set t" using False by (simp add: dkeys_def)
      show ?thesis
      proof (rule step)
        show "dfs_expand pf g cur (m # ms) (stack, t) = dfs_expand pf g cur ms (?n # stack, ?t')"
          using tb norm unsolved key miss by (simp add: Let_def ops dfsPushStack_def)
        show "table_ok ?t'" using ok nin c0 by (intro add_entry_ok) simp_all
        show "table_le t ?t'" using False by (rule table_le_insert)
        show "dkeys ?t' = insert ?k (dkeys t)" by simp
        show "entry_value ?t' ?k = ?c + 1" using False by (rule val_insert_new)
        show "\<forall>k. k \<noteq> ?k \<longrightarrow> k \<in> dkeys t \<longrightarrow> entry_value ?t' k = entry_value t k"
          by (simp add: val_insert_other)
        show "sum (weight d ?t') (reach_keys g b0) < sum (weight d t) (reach_keys g b0)"
          using fin kin False _ _ by (rule weight_insert) (use c0 lt in simp_all)
      qed
    next
      case True
      then have hit: "0 \<le> entry_value t ?k" using present_key [OF ok] by simp
      have kin': "?k \<in> fst ` set t" using True by (simp add: dkeys_def)
      show ?thesis
      proof (cases "entry_value t ?k > ?c + 1")
        case big: True
        let ?t' = "set_entry t ?k (?c + 1)"
        show ?thesis
        proof (rule step)
          show "dfs_expand pf g cur (m # ms) (stack, t) = dfs_expand pf g cur ms (?n # stack, ?t')"
            using tb norm unsolved key hit big by (simp add: Let_def ops dfsPushStack_def)
          show "table_ok ?t'" using ok c0 by (intro set_entry_ok) simp_all
          show "table_le t ?t'" using True big by (intro table_le_update) simp_all
          show "dkeys ?t' = insert ?k (dkeys t)" using True by auto
          show "entry_value ?t' ?k = ?c + 1" using kin' by (simp add: entry_value_update)
          show "\<forall>k. k \<noteq> ?k \<longrightarrow> k \<in> dkeys t \<longrightarrow> entry_value ?t' k = entry_value t k"
            by (simp add: entry_value_update_other)
          show "sum (weight d ?t') (reach_keys g b0) < sum (weight d t) (reach_keys g b0)"
            using fin kin True _ big by (rule weight_update) (use c0 in simp)
        qed
      next
        case small: False
        have eq: "dfs_expand pf g cur (m # ms) (stack, t) = dfs_expand pf g cur ms (stack, t)"
          using tb norm unsolved key hit small by (simp add: Let_def ops)
        have dn': "\<forall>m' \<in> set (all_legal_moves g ?b) - set ms.
               \<forall>tb'. next_board g ?b m' = Some tb' \<longrightarrow>
                 \<not> checkGameComplete g (normalize_fun g tb') \<and>
                 key_of g (normalize_fun g tb') \<in> dkeys t \<and>
                 val g t (normalize_fun g tb') \<le> ?c + 1"
        proof (intro ballI allI impI)
          fix m' tb' assume m': "m' \<in> set (all_legal_moves g ?b) - set ms"
            and tb': "next_board g ?b m' = Some tb'"
          show "\<not> checkGameComplete g (normalize_fun g tb') \<and>
                 key_of g (normalize_fun g tb') \<in> dkeys t \<and>
                 val g t (normalize_fun g tb') \<le> ?c + 1"
          proof (cases "m' = m")
            case True
            with tb tb' have "tb' = tb" by simp
            with unsolved \<open>?k \<in> dkeys t\<close> small show ?thesis by (simp add: val_def)
          next
            case False
            with m' have "m' \<in> set (all_legal_moves g ?b) - set (m # ms)" by simp
            with Cons.prems(2) tb' show ?thesis by blast
          qed
        qed
        from Cons.IH [OF ms dn' Cons.prems(3)] eq show ?thesis by simp
      qed
    qed
  qed
qed

lemma dfs_K_pop:
  assumes K: "dfs_K g b0 d {} (n # stack, t)"
  shows "dfs_K g b0 d {(board_state n, path_cost n)} (stack, t)"
proof (rule dfs_K_I)
  show "table_ok t" using K by (rule dfs_K_D)
  show "\<forall>m \<in> set stack. (path_cost m, board_state m) \<in> reach g b0 \<and> path_cost m \<le> d \<and>
        key_of g (board_state m) \<in> dkeys t \<and> val g t (board_state m) \<le> path_cost m"
    using dfs_K_D(2) [OF K] by simp
  show "key_of g b0 \<in> dkeys t" using K by (rule dfs_K_D)
  show "val g t b0 = 0" using K by (rule dfs_K_D)
  show "\<forall>k b'. (k, b') \<in> reach g b0 \<longrightarrow> key_of g b' \<in> dkeys t \<longrightarrow>
        (val g t b', b') \<in> reach g b0 \<and>
        ((\<exists>m \<in> set stack. board_state m = b' \<and> path_cost m = val g t b') \<or>
         settled g d t b' \<or> (b', val g t b') \<in> {(board_state n, path_cost n)})"
  proof (intro allI impI)
    fix k b' assume "(k, b') \<in> reach g b0" "key_of g b' \<in> dkeys t"
    with dfs_K_D(3) [OF K] have 1: "(val g t b', b') \<in> reach g b0"
      and 2: "(\<exists>m \<in> set (n # stack). board_state m = b' \<and> path_cost m = val g t b') \<or>
         settled g d t b' \<or> (b', val g t b') \<in> {}" by blast+
    from 2 have "(\<exists>m \<in> set stack. board_state m = b' \<and> path_cost m = val g t b') \<or>
         settled g d t b' \<or> (b', val g t b') \<in> {(board_state n, path_cost n)}" by auto
    with 1 show "(val g t b', b') \<in> reach g b0 \<and>
        ((\<exists>m \<in> set stack. board_state m = b' \<and> path_cost m = val g t b') \<or>
         settled g d t b' \<or> (b', val g t b') \<in> {(board_state n, path_cost n)})" by simp
  qed
qed

lemma dfs_K_exhausted:
  assumes K: "dfs_K g b0 d {} ([], t)" and r: "(k, b) \<in> reach g b0" and "k \<le> d"
  shows "key_of g b \<in> dkeys t \<and> val g t b \<le> k"
  using r \<open>k \<le> d\<close>
proof (induction rule: reach.induct)
  case root
  from dfs_K_D(4,5) [OF K] show ?case by simp
next
  case (step n b b')
  then have kb: "key_of g b \<in> dkeys t" and vb: "val g t b \<le> n" by simp_all
  from dfs_K_D(3) [OF K] step.hyps(1) kb have "settled g d t b" by auto
  with vb step.prems step.hyps(2) have "key_of g b' \<in> dkeys t \<and> val g t b' \<le> val g t b + 1"
    by (auto simp: settled_def)
  with vb show ?case by simp
qed

lemma dfs_loop_correct:
  assumes fit: "tables_fit pf g" and ix: "indexable pf g"
    and dims: "2 \<le> board_height g" "2 \<le> board_width g"
    and uq: "unique_keys g b0" and ub0: "usable g b0"
    and K: "dfs_K g b0 d {} (stack, t)"
  shows "\<exists>r. dfs_loop pf g True d (stack, t) = Some r \<and> dls_result g b0 d r"
  using K
proof (induction "dfs_measure g b0 d (stack, t)" arbitrary: stack t rule: less_induct)
  case less
  show ?case
  proof (cases stack)
    case Nil
    have "\<not> solvable_in g b0 j" if "j \<le> d" for j
    proof
      assume "solvable_in g b0 j"
      then obtain b b' where r: "(j - 1, b) \<in> reach g b0" and s: "b' \<in> set (successors g b)"
        and c: "checkGameComplete g b'" by (auto simp: solvable_in_def)
      have K0: "dfs_K g b0 d {} ([], t)" using less.prems Nil by simp
      from dfs_K_exhausted [OF K0 r] that
      have kb: "key_of g b \<in> dkeys t" and vb: "val g t b \<le> j - 1" by simp_all
      from dfs_K_D(3) [OF K0] r kb have "settled g d t b" by auto
      with vb that s c show False by (auto simp: settled_def)
    qed
    moreover have "dfs_loop pf g True d (stack, t) = Some (- 1)"
      using Nil by (subst dfs_loop.simps) simp
    ultimately show ?thesis by (simp add: dls_result_def)
  next
    case (Cons cur rest)
    let ?c = "path_cost cur" and ?b = "board_state cur"
    have Kc: "dfs_K g b0 d {} (cur # rest, t)" using less.prems Cons by simp
    have Kp: "dfs_K g b0 d {(?b, ?c)} (rest, t)" using Kc by (rule dfs_K_pop)
    have cur: "(?c, ?b) \<in> reach g b0" and le: "?c \<le> d" using dfs_K_D(2) [OF Kc] by simp_all
    have m0: "dfs_measure g b0 d (rest, t) < dfs_measure g b0 d (stack, t)"
      using Cons by (simp add: dfs_measure_def)
    show ?thesis
    proof (cases "?c < d")
      case False
      with le have "?c = d" by simp
      then have "val g t ?b = ?c \<longrightarrow> settled g d t ?b" by (simp add: settled_def)
      with Kp have K': "dfs_K g b0 d {} (rest, t)" by (rule dfs_K_settle)
      have "dfs_loop pf g True d (stack, t) = dfs_loop pf g True d (rest, t)"
        using Cons False by (subst dfs_loop.simps) simp
      with less.hyps [OF m0 K'] show ?thesis by simp
    next
      case True
      have u: "usable g ?b" using reach_usable [OF ub0 cur] .
      have moves: "getAllAvailableMoves g ?b = Some (all_legal_moves g ?b)"
        using u by (rule usable_moves)
      have unf: "dfs_loop pf g True d (stack, t) =
        (case dfs_expand pf g cur (all_legal_moves g ?b) (rest, t) of
           None \<Rightarrow> None | Some (Inl cost) \<Rightarrow> Some cost
         | Some (Inr st') \<Rightarrow> dfs_loop pf g True d st')"
        using Cons moves True
        by (subst dfs_loop.simps) (simp del: dfs_expand.simps)
      from dfs_expand_inv [OF fit ix dims uq ub0 cur True subset_refl _ Kp]
      consider
        (found) "dfs_expand pf g cur (all_legal_moves g ?b) (rest, t) = Some (Inl (?c + 1))"
          "\<exists>b' \<in> set (successors g ?b). checkGameComplete g b'"
      | (more) st' t' where
          "dfs_expand pf g cur (all_legal_moves g ?b) (rest, t) = Some (Inr (st', t'))"
          "dfs_K g b0 d {} (st', t')"
          "dfs_measure g b0 d (st', t') \<le> dfs_measure g b0 d (rest, t)"
        by auto
      then show ?thesis
      proof cases
        case found
        have c0: "0 \<le> ?c" using reach_nonneg [OF cur] .
        have "solvable_in g b0 (?c + 1)" using cur found(2) by (auto simp: solvable_in_def)
        with c0 True found(1) show ?thesis by (simp add: unf dls_result_def)
      next
        case more
        from more(3) m0 have "dfs_measure g b0 d (st', t') < dfs_measure g b0 d (stack, t)"
          by simp
        from less.hyps [OF this more(2)] more(1) show ?thesis by (simp add: unf)
      qed
    qed
  qed
qed

lemma dfs_K_initial:
  assumes dims: "2 \<le> board_height g" "2 \<le> board_width g" and uq: "unique_keys g b0"
    and d: "0 \<le> d"
  shows "dfs_K g b0 d {} (dfsPushStack [] b0 None None, add_entry [] (key_of g b0) 0)"
proof -
  let ?t = "add_entry [] (key_of g b0) 0"
  have st: "dfsPushStack [] b0 None None = [Node 0 b0 None None]"
    by (simp add: dfsPushStack_def new_node_def)
  have dk: "dkeys ?t = {key_of g b0}" by (simp add: dkeys_def add_entry_def)
  have v0: "val g ?t b0 = 0" by (simp add: val_def val_insert_new dkeys_def)
  have only: "\<forall>k b. (k, b) \<in> reach g b0 \<longrightarrow> key_of g b \<in> {key_of g b0} \<longrightarrow> b = b0"
    using unique_keysD [OF uq dims _ reach.root] by blast
  show ?thesis
    unfolding st
  proof (rule dfs_K_I)
    show "table_ok ?t" by (intro add_entry_ok) (simp_all add: table_ok_def)
    show "\<forall>n \<in> set [Node 0 b0 None None]. (path_cost n, board_state n) \<in> reach g b0 \<and>
        path_cost n \<le> d \<and> key_of g (board_state n) \<in> dkeys ?t \<and>
        val g ?t (board_state n) \<le> path_cost n"
      using d v0 dk reach.root [where g = g and ?b0.0 = b0] by simp
    show "key_of g b0 \<in> dkeys ?t" using dk by simp
    show "val g ?t b0 = 0" by (rule v0)
    show "\<forall>k b. (k, b) \<in> reach g b0 \<longrightarrow> key_of g b \<in> dkeys ?t \<longrightarrow>
        (val g ?t b, b) \<in> reach g b0 \<and>
        ((\<exists>n \<in> set [Node 0 b0 None None]. board_state n = b \<and> path_cost n = val g ?t b) \<or>
         settled g d ?t b \<or> (b, val g ?t b) \<in> {})"
    proof (intro allI impI)
      fix k b assume r: "(k, b) \<in> reach g b0" and kd: "key_of g b \<in> dkeys ?t"
      from kd [unfolded dk] only r have "b = b0" by blast
      with v0 reach.root [where g = g and ?b0.0 = b0]
      show "(val g ?t b, b) \<in> reach g b0 \<and>
        ((\<exists>n \<in> set [Node 0 b0 None None]. board_state n = b \<and> path_cost n = val g ?t b) \<or>
         settled g d ?t b \<or> (b, val g ?t b) \<in> {})" by simp
    qed
  qed
qed

text \<open>On such a board a depth-limited search returns: -1 when no solved board is
  reachable within the limit, and otherwise the length of a path to a solved board, at most
  the limit.\<close>

theorem depthLimitedSearch_result:
  assumes fit: "tables_fit pf g" and ix: "indexable pf g"
    and dims: "2 \<le> board_height g" "2 \<le> board_width g"
    and ub0: "usable g b0" and uq: "unique_keys g b0" and d: "0 \<le> d"
  shows "\<exists>r. depthLimitedSearch pf g b0 d = Some r \<and> dls_result g b0 d r"
proof -
  have "getStateHashKey g b0 = Some (key_of g b0)" using dims by (rule key_of_Some)
  then have "depthLimitedSearch pf g b0 d =
      dfs_loop pf g True d (dfsPushStack [] b0 None None, add_entry [] (key_of g b0) 0)"
    by (simp add: depthLimitedSearch_def generalDepthFirstSearch_def usable_ops [OF ix ub0])
  with dfs_loop_correct [OF fit ix dims uq ub0 dfs_K_initial [OF dims uq d]]
  show ?thesis by simp
qed

lemma solvable_in_pos: "solvable_in g b0 n \<Longrightarrow> 0 < n"
  using reach_nonneg by (fastforce simp: solvable_in_def)

lemma ids_loop_minimal:
  assumes fit: "tables_fit pf g" and ix: "indexable pf g"
    and dims: "2 \<le> board_height g" "2 \<le> board_width g"
    and ub0: "usable g b0" and uq: "unique_keys g b0"
    and sol: "solvable_in g b0 n" and least: "\<forall>k < n. \<not> solvable_in g b0 k"
    and s: "0 \<le> s" "s < n"
  shows "ids_loop pf g b0 s = Some n"
  using s
proof (induction "nat (n - s)" arbitrary: s rule: less_induct)
  case less
  from depthLimitedSearch_result [OF fit ix dims ub0 uq, of "s + 1"] less.prems
  obtain r where r: "depthLimitedSearch pf g b0 (s + 1) = Some r" and res: "dls_result g b0 (s + 1) r"
    by auto
  show ?case
  proof (cases "s + 1 = n")
    case True
    with res sol have "0 < r" by (auto simp: dls_result_def)
    with r True show ?thesis by (subst ids_loop.simps) simp
  next
    case False
    with less.prems have lt: "s + 1 < n" by simp
    have "\<not> 0 < r"
    proof
      assume "0 < r"
      with res have "r \<le> s + 1" "solvable_in g b0 r" by (auto simp: dls_result_def)
      with lt least show False by auto
    qed
    with r have "ids_loop pf g b0 s = ids_loop pf g b0 (s + 1)" by (subst ids_loop.simps) simp
    moreover have "ids_loop pf g b0 (s + 1) = Some n"
      using less.prems lt by (intro less.hyps) simp_all
    ultimately show ?thesis by simp
  qed
qed

text \<open>Iterative deepening returns the least number of moves, when there is one.\<close>

theorem interativeDeepeningSearch_minimal:
  assumes "tables_fit pf g" and "indexable pf g"
    and "2 \<le> board_height g" "2 \<le> board_width g" "usable g b0" "unique_keys g b0"
    and "solvable_in g b0 n" and "\<forall>k < n. \<not> solvable_in g b0 k"
  shows "interativeDeepeningSearch pf g b0 = Some n"
  unfolding interativeDeepeningSearch_def
  using assms solvable_in_pos [OF assms(7)] by (intro ids_loop_minimal) simp_all

text \<open>
  Claim C2, for the boards on which the visited-state table tells the reachable boards
  apart, and with the moves counted as the drivers count them.  Let the tables of
  \<open>normalizeState\<close> fit (the entry at index \<open>max_block_num\<close> can be accessed in both
  blocks), and let the keys be indexable (plain \<open>char\<close> is unsigned or \<open>max_block_num\<close>
  is below 63, and the board has at most 4000 interior cells).  Let the board have at
  least two rows and two columns, cells from -1 to \<open>max_block_num\<close> and every block label
  from 2 to \<open>max_block_num\<close> on it, and let distinct boards reachable from it have distinct
  keys.  If a solved board is reached by \<open>n\<close> moves, the root itself not being tested, and
  by no fewer, then \<open>breadthFirstSearch\<close> and \<open>interativeDeepeningSearch\<close> both return
  \<open>n\<close>.
\<close>

theorem searches_agree_on_minimum:
  assumes "tables_fit pf g" and "indexable pf g"
    and "2 \<le> board_height g" "2 \<le> board_width g" "usable g b0" "unique_keys g b0"
    and "solvable_in g b0 n" and "\<forall>k < n. \<not> solvable_in g b0 k"
  shows "breadthFirstSearch pf g b0 = Some n \<and> interativeDeepeningSearch pf g b0 = Some n"
proof -
  from breadthFirstSearch_minimal [OF assms(1-6)]
  obtain r where r: "breadthFirstSearch pf g b0 = Some r" and res: "complete_result g b0 r" by blast
  from res assms(7) have "0 < r" "solvable_in g b0 r" "\<forall>k < r. \<not> solvable_in g b0 k"
    by (auto simp: complete_result_def)
  with assms(7,8) have "r = n" by (meson not_less_iff_gr_or_eq)
  with r interativeDeepeningSearch_minimal [OF assms] show ?thesis by simp
qed

subsection \<open>The corridor board\<close>

lemma ex9_succ0: "successors ex_game9 ex_board9 = [ex_board9a]"
  unfolding ex_game9_def ex_board9_def ex_board9a_def by code_simp

lemma ex9_usable: "usable ex_game9 ex_board9"
  unfolding usable_def ex_game9_def ex_board9_def by code_simp

lemma ex9_succ1: "successors ex_game9 ex_board9a = [ex_board9, ex_board9b]"
  unfolding ex_game9_def ex_board9_def ex_board9a_def ex_board9b_def by code_simp

lemma ex9_succ2:
  "successors ex_game9 ex_board9b = [ex_board9a, [[1, 1, 1, 1, 1], [1, 0, 0, 0, 2], [1, 1, 1, 1, 1]]]"
  unfolding ex_game9_def ex_board9a_def ex_board9b_def by code_simp

lemma ex9_unsolved:
  "\<not> checkGameComplete ex_game9 ex_board9" "\<not> checkGameComplete ex_game9 ex_board9a"
  "\<not> checkGameComplete ex_game9 ex_board9b"
  "checkGameComplete ex_game9 [[1, 1, 1, 1, 1], [1, 0, 0, 0, 2], [1, 1, 1, 1, 1]]"
  unfolding ex_game9_def ex_board9_def ex_board9a_def ex_board9b_def by code_simp+

lemma ex9_keys:
  "getStateHashKey ex_game9 ex_board9 = Some ''CAA''"
  "getStateHashKey ex_game9 ex_board9a = Some ''ACA''"
  "getStateHashKey ex_game9 ex_board9b = Some ''AAC''"
  unfolding ex_game9_def ex_board9_def ex_board9a_def ex_board9b_def by code_simp+

text \<open>The boards reachable from the example board, with the least number of moves to
  each.\<close>

lemma ex9_reach:
  assumes "(k, b) \<in> reach ex_game9 ex_board9"
  shows "(b = ex_board9 \<and> 0 \<le> k) \<or> (b = ex_board9a \<and> 1 \<le> k) \<or> (b = ex_board9b \<and> 2 \<le> k)"
  using assms
proof (induction rule: reach.induct)
  case root
  show ?case by simp
next
  case (step n b b')
  from step.IH consider "b = ex_board9" "0 \<le> n" | "b = ex_board9a" "1 \<le> n"
    | "b = ex_board9b" "2 \<le> n" by blast
  then show ?case
  proof cases
    case 1
    with step.hyps(2) show ?thesis by (simp add: ex9_succ0)
  next
    case 2
    with step.hyps(2) show ?thesis by (auto simp: ex9_succ1)
  next
    case 3
    with step.hyps(2,3) show ?thesis by (auto simp: ex9_succ2 ex9_unsolved)
  qed
qed

lemma ex9_framed: "framed ex_game9 (1, 4) ex_board9"
  unfolding framed_def on_border_def ex_game9_def ex_board9_def by code_simp

lemma ex9_unique_keys: "unique_keys ex_game9 ex_board9"
  using _ _ _ ex9_usable ex9_framed by (rule framed_unique_keys) (simp_all add: ex_game9_def)

lemma ex9_solvable: "solvable_in ex_game9 ex_board9 3"
proof -
  have "(0, ex_board9) \<in> reach ex_game9 ex_board9" by (rule reach.root)
  then have "(0 + 1, ex_board9a) \<in> reach ex_game9 ex_board9"
    by (rule reach.step) (simp_all add: ex9_succ0 ex9_unsolved)
  then have "(0 + 1 + 1, ex_board9b) \<in> reach ex_game9 ex_board9"
    by (rule reach.step) (simp_all add: ex9_succ1 ex9_unsolved)
  then have "(3 - 1, ex_board9b) \<in> reach ex_game9 ex_board9" by simp
  then show ?thesis
    unfolding solvable_in_def using ex9_succ2 ex9_unsolved(4) by fastforce
qed

lemma ex9_least: "\<forall>k < 3. \<not> solvable_in ex_game9 ex_board9 k"
proof (intro allI impI notI)
  fix k :: int assume "k < 3" and "solvable_in ex_game9 ex_board9 k"
  then obtain b b' where r: "(k - 1, b) \<in> reach ex_game9 ex_board9"
    and s: "b' \<in> set (successors ex_game9 b)" and c: "checkGameComplete ex_game9 b'"
    by (auto simp: solvable_in_def)
  from ex9_reach [OF r] \<open>k < 3\<close> have "b = ex_board9 \<or> b = ex_board9a" by auto
  with s c show False by (auto simp: ex9_succ0 ex9_succ1 ex9_unsolved)
qed

text \<open>On the corridor board both searches return 3.\<close>

lemma ex9_platform:
  "tables_fit roomy_platform ex_game9" "indexable roomy_platform ex_game9"
  by (simp_all add: tables_fit_def indexable_def roomy_platform_def ex_game9_def)

theorem searches_agree_on_minimum_witness:
  "tables_fit roomy_platform ex_game9 \<and>
   indexable roomy_platform ex_game9 \<and>
   usable ex_game9 ex_board9 \<and> unique_keys ex_game9 ex_board9 \<and>
   solvable_in ex_game9 ex_board9 3 \<and>
   breadthFirstSearch roomy_platform ex_game9 ex_board9 = Some 3 \<and>
   interativeDeepeningSearch roomy_platform ex_game9 ex_board9 = Some 3"
  using searches_agree_on_minimum [OF ex9_platform _ _ ex9_usable ex9_unique_keys ex9_solvable
      ex9_least]
    ex9_platform ex9_usable ex9_unique_keys ex9_solvable
  by (simp add: ex_game9_def)

subsection \<open>Boards without solution\<close>

lemma depthLimitedSearch_negative:
  assumes "indexable pf g" and "usable g b0"
    and "2 \<le> board_height g" "2 \<le> board_width g" and "d < 0"
  shows "depthLimitedSearch pf g b0 d = Some (- 1)"
proof -
  have "getStateHashKey g b0 = Some (key_of g b0)" using assms(3,4) by (rule key_of_Some)
  moreover have "dfs_loop pf g True d ([Node 0 b0 None None], t) = Some (- 1)" for t
    using assms(5) by (subst dfs_loop.simps) (simp add: dfs_loop_empty)
  ultimately show ?thesis
    by (simp add: depthLimitedSearch_def generalDepthFirstSearch_def dfsPushStack_def new_node_def
        usable_ops [OF assms(1,2)])
qed

text \<open>On a usable board with distinct keys from which no solved board is reachable,
  where the tables of \<open>normalizeState\<close> fit and the keys can be indexed, breadth-first
  search returns -1, every depth-limited search returns -1, and iterative deepening does
  not return.\<close>

theorem unsolvable_board_searches:
  assumes "tables_fit pf g" and "indexable pf g"
    and "2 \<le> board_height g" "2 \<le> board_width g" "usable g b0" "unique_keys g b0"
    and "\<forall>n. \<not> solvable_in g b0 n"
  shows "breadthFirstSearch pf g b0 = Some (- 1) \<and>
         (\<forall>d. depthLimitedSearch pf g b0 d = Some (- 1)) \<and>
         interativeDeepeningSearch pf g b0 = None"
proof -
  from breadthFirstSearch_minimal [OF assms(1-6)] assms(7)
  have b: "breadthFirstSearch pf g b0 = Some (- 1)" by (auto simp: complete_result_def)
  have d: "depthLimitedSearch pf g b0 d = Some (- 1)" for d
  proof (cases "d < 0")
    case True
    with assms(2,5,3,4) show ?thesis by (rule depthLimitedSearch_negative)
  next
    case False
    then have "0 \<le> d" by simp
    from depthLimitedSearch_result [OF assms(1-6) this] assms(7) show ?thesis
      by (auto simp: dls_result_def)
  qed
  then have "interativeDeepeningSearch pf g b0 = None"
    by (intro interativeDeepeningSearch_never) simp
  with b d show ?thesis by simp
qed

lemma ex6_reach:
  assumes "(k, b) \<in> reach ex_game6 ex_board6"
  shows "b = ex_board6"
  using assms
proof (induction rule: reach.induct)
  case root
  show ?case by simp
next
  case (step n b b')
  have "successors ex_game6 ex_board6 = []"
    unfolding ex_game6_def ex_board6_def by code_simp
  with step show ?case by simp
qed

text \<open>The board with the walled-in primary block is such a board.\<close>

theorem unsolvable_board_searches_witness:
  "tables_fit roomy_platform ex_game6 \<and>
   indexable roomy_platform ex_game6 \<and>
   usable ex_game6 ex_board6 \<and> unique_keys ex_game6 ex_board6 \<and>
   breadthFirstSearch roomy_platform ex_game6 ex_board6 = Some (- 1) \<and>
   depthLimitedSearch roomy_platform ex_game6 ex_board6 7 = Some (- 1) \<and>
   interativeDeepeningSearch roomy_platform ex_game6 ex_board6 = None"
proof -
  have p: "tables_fit roomy_platform ex_game6"
    "indexable roomy_platform ex_game6"
    by (simp_all add: tables_fit_def indexable_def roomy_platform_def ex_game6_def)
  have u: "usable ex_game6 ex_board6"
    unfolding usable_def ex_game6_def ex_board6_def by code_simp
  have f: "framed ex_game6 (1, 3) ex_board6"
    unfolding framed_def on_border_def ex_game6_def ex_board6_def by code_simp
  have q: "unique_keys ex_game6 ex_board6"
    using _ _ _ u f by (rule framed_unique_keys) (simp_all add: ex_game6_def)
  have s: "successors ex_game6 ex_board6 = []"
    unfolding ex_game6_def ex_board6_def by code_simp
  have n: "\<forall>n. \<not> solvable_in ex_game6 ex_board6 n"
    using ex6_reach s by (fastforce simp: solvable_in_def)
  from unsolvable_board_searches [OF p _ _ u q n] p u q show ?thesis
    by (simp add: ex_game6_def)
qed

end
